(* ===== verification/Prelude.thy ===== *)
theory Prelude
  imports Main "HOL-Library.Word"
begin

text \<open>
  What every component of the development shares: the machine integers of the C code, the
  ways a C call can fail to return (as values of a sum type), the constants of
  \<open>src/src/iptfs.h\<close>, byte buffers read and written by offset, and the generic lemmas on lists,
  sums and results that carry the component proofs.
\<close>

unbundle bit_operations_syntax

named_theorems res_simps \<open>unfolding and splitting of fallible results\<close>
named_theorems const_defs \<open>the constants of iptfs.h\<close>

section \<open>Machine integers\<close>

type_synonym u8 = "8 word"
type_synonym u16 = "16 word"
type_synonym u32 = "32 word"
type_synonym u64 = "64 word"
type_synonym bytes = "u8 list"

lemma unat_u8_less: "unat w < 256" for w :: u8
  using unsigned_less [of w, where ?'a = nat] by simp

lemma unat_u16_less: "unat w < 65536" for w :: u16
  using unsigned_less [of w, where ?'a = nat] by simp

lemma unat_u32_less: "unat w < 4294967296" for w :: u32
  using unsigned_less [of w, where ?'a = nat] by simp

section \<open>Fallible calls\<close>

text \<open>
  \<open>Blocked\<close>: the call waits on a condition variable until another thread acts;
  \<open>Assertion\<close>: an \<open>assert\<close> fails and the process aborts (the Makefile builds without
  \<open>NDEBUG\<close>); \<open>Errx\<close>: the process exits through \<open>err\<close> or \<open>errx\<close>; \<open>OutOfBounds\<close>,
  \<open>DivByZero\<close>, \<open>NullPointer\<close>: the C operation is undefined (a write past an array, an integer
  division by zero, a null dereference); \<open>BadConversion\<close>: a floating-point number is converted to an
  integer type that cannot hold it, which is undefined too; \<open>Hang\<close>: a loop that never ends; \<open>NoFuel\<close>: the
  recursion bound of the model is used up (shown never to happen).
\<close>

datatype error = Blocked | Assertion | Errx | OutOfBounds | DivByZero | NullPointer | BadConversion | Hang | NoFuel

type_synonym 'a res = "error + 'a"

definition bindE :: "'a res \<Rightarrow> ('a \<Rightarrow> 'b res) \<Rightarrow> 'b res" where
  "bindE r f = (case r of Inl e \<Rightarrow> Inl e | Inr a \<Rightarrow> f a)"

lemma bindE_Inl [simp]: "bindE (Inl e) f = Inl e"
  by (simp add: bindE_def)

lemma bindE_Inr [simp]: "bindE (Inr a) f = f a"
  by (simp add: bindE_def)

lemma bindE_eq_Inr [res_simps]: "bindE r f = Inr b \<longleftrightarrow> (\<exists>a. r = Inr a \<and> f a = Inr b)"
  by (cases r) auto

lemma bindE_right: "bindE r Inr = r"
  by (cases r) simp_all

lemma bindE_assoc: "bindE (bindE r f) g = bindE r (\<lambda>x. bindE (f x) g)"
  by (cases r) auto

definition requireE :: "error \<Rightarrow> bool \<Rightarrow> unit res" where
  "requireE e P = (if P then Inr () else Inl e)"

lemma requireE_True [simp]: "requireE e True = Inr ()"
  by (simp add: requireE_def)

lemma requireE_False [simp]: "requireE e False = Inl e"
  by (simp add: requireE_def)

lemma requireE_eq_Inr [res_simps]: "requireE e P = Inr u \<longleftrightarrow> P"
  by (simp add: requireE_def)

section \<open>Constants of iptfs.h\<close>

definition OUTERQSZ :: nat where [const_defs]: "OUTERQSZ = 256"
definition INNERQSZ :: nat where [const_defs]: "INNERQSZ = 256"
definition MAXBUF :: nat where [const_defs]: "MAXBUF = 8192 + 1024"
definition HDRSPACE :: nat where [const_defs]: "HDRSPACE = 24"

lemma HDR_le_MAXBUF: "HDRSPACE \<le> MAXBUF"
  by (simp add: const_defs)

section \<open>Byte buffers by offset\<close>

definition subseg :: "nat \<Rightarrow> nat \<Rightarrow> 'a list \<Rightarrow> 'a list" where
  "subseg off n xs = take n (drop off xs)"

definition splice_at :: "nat \<Rightarrow> 'a list \<Rightarrow> 'a list \<Rightarrow> 'a list" where
  "splice_at off ys xs = take off xs @ ys @ drop (off + length ys) xs"

lemma length_subseg [simp]: "off + n \<le> length xs \<Longrightarrow> length (subseg off n xs) = n"
  by (simp add: subseg_def)

lemma length_splice_at [simp]:
  "off + length ys \<le> length xs \<Longrightarrow> length (splice_at off ys xs) = length xs"
  by (simp add: splice_at_def)

lemma subseg_0 [simp]: "subseg off 0 xs = []"
  by (simp add: subseg_def)

lemma subseg_splice_at [simp]:
  "off + length ys \<le> length xs \<Longrightarrow> subseg off (length ys) (splice_at off ys xs) = ys"
  by (simp add: subseg_def splice_at_def)

lemma subseg_split:
  "a \<le> n \<Longrightarrow> subseg off n xs = subseg off a xs @ subseg (off + a) (n - a) xs"
  by (metis add.commute drop_drop le_add_diff_inverse subseg_def take_add)

lemma drop_subseg: "drop k (subseg off n xs) = subseg (off + k) (n - k) xs"
  by (simp add: subseg_def drop_take add.commute)

lemma take_subseg: "k \<le> n \<Longrightarrow> take k (subseg off n xs) = subseg off k xs"
  by (simp add: subseg_def min_def)

lemma subseg_nth: "k < n \<Longrightarrow> off + n \<le> length xs \<Longrightarrow> subseg off n xs ! k = xs ! (off + k)"
  by (simp add: subseg_def)

lemma subseg_whole [simp]: "subseg 0 (length xs) xs = xs"
  by (simp add: subseg_def)

text \<open>What a step that may put out one packet puts out.\<close>

fun emitted :: "bytes option \<Rightarrow> bytes list" where
  "emitted None = []"
| "emitted (Some d) = [d]"

section \<open>Lists as arrays with a fill level\<close>

lemma take_Suc_update: "d < length xs \<Longrightarrow> take (Suc d) (xs[d := x]) = take d xs @ [x]"
  by (simp add: take_Suc_conv_app_nth)

lemma take_pred_butlast: "d \<le> length xs \<Longrightarrow> take (d - 1) xs = butlast (take d xs)"
  by (simp add: butlast_take)

lemma last_take_nth: "0 < d \<Longrightarrow> d \<le> length xs \<Longrightarrow> last (take d xs) = xs ! (d - 1)"
  by (subst last_conv_nth) auto

lemma butlast_snoc_last: "xs \<noteq> [] \<Longrightarrow> butlast xs @ [last xs] = xs"
  by simp

section \<open>Sums over an index set with one point changed\<close>

lemma sum_fun_upd:
  fixes f :: "'a \<Rightarrow> nat"
  assumes "finite A" and "i \<in> A"
  shows "(\<Sum>j\<in>A. (f(i := x)) j) + f i = (\<Sum>j\<in>A. f j) + x"
proof -
  have "(\<Sum>j\<in>A. (f(i := x)) j) = x + (\<Sum>j\<in>A - {i}. f j)"
    using assms by (simp add: sum.remove [of A i] cong: sum.cong_simp)
  moreover have "(\<Sum>j\<in>A. f j) = f i + (\<Sum>j\<in>A - {i}. f j)"
    using assms by (simp add: sum.remove)
  ultimately show ?thesis by simp
qed

end
