(* ===== verification/Stack.thy ===== *)
theory Stack
  imports Prelude "HOL-Library.Multiset"
begin

text \<open>
  The interface the two buffer queues of \<open>src/src/mbuf.c\<close> (\<open>mqueue\<close> and its copy
  \<open>miovq\<close>) offer to the threads: a container of bounded capacity whose \<open>pop\<close> waits while it
  is empty and whose \<open>put\<close> waits while it is full. What one call does is atomic, since it runs
  under the queue's mutex; a call that would wait is the value \<open>Inl Blocked\<close>. The abstract
  content is a list, its end the side where elements come and go.
\<close>

datatype 'a qop = Put 'a | Pop

fun list_run :: "nat \<Rightarrow> 'a list \<Rightarrow> 'a qop list \<Rightarrow> ('a list \<times> 'a list) res" where
  "list_run cap xs [] = Inr ([], xs)"
| "list_run cap xs (Put x # ops) =
     (if length xs = cap then Inl Blocked else list_run cap (xs @ [x]) ops)"
| "list_run cap xs (Pop # ops) =
     (if xs = [] then Inl Blocked
      else bindE (list_run cap (butlast xs) ops) (\<lambda>(ys, zs). Inr (last xs # ys, zs)))"

fun queue_run :: "('q \<Rightarrow> 'a \<Rightarrow> (nat \<times> 'q) res) \<Rightarrow> ('q \<Rightarrow> ('a \<times> 'q) res) \<Rightarrow> 'q \<Rightarrow> 'a qop list \<Rightarrow>
    ('a list \<times> 'q) res" where
  "queue_run put pop q [] = Inr ([], q)"
| "queue_run put pop q (Put x # ops) = bindE (put q x) (\<lambda>(_, q'). queue_run put pop q' ops)"
| "queue_run put pop q (Pop # ops) =
     bindE (pop q) (\<lambda>(x, q'). bindE (queue_run put pop q' ops) (\<lambda>(ys, q''). Inr (x # ys, q'')))"

fun put_items :: "'a qop list \<Rightarrow> 'a list" where
  "put_items [] = []"
| "put_items (Put x # ops) = x # put_items ops"
| "put_items (Pop # ops) = put_items ops"

text \<open>No element is lost or duplicated by the abstract container.\<close>

lemma list_run_mset:
  "list_run cap xs ops = Inr (ys, zs) \<Longrightarrow> mset ys + mset zs = mset xs + mset (put_items ops)"
proof (induction ops arbitrary: xs ys)
  case Nil
  then show ?case by simp
next
  case (Cons op ops)
  show ?case
  proof (cases op)
    case (Put x)
    with Cons.prems Cons.IH [of "xs @ [x]" ys] show ?thesis by (simp split: if_splits)
  next
    case Pop
    with Cons.prems obtain ys' where ys: "xs \<noteq> []" "ys = last xs # ys'"
      "list_run cap (butlast xs) ops = Inr (ys', zs)"
      by (auto simp: res_simps split: if_splits)
    have "mset xs = add_mset (last xs) (mset (butlast xs))"
      using ys(1) by (metis add_mset_add_single append_butlast_last_id mset.simps mset_append)
    with ys Pop Cons.IH [OF ys(3)] show ?thesis by simp
  qed
qed

lemma list_run_bound:
  "list_run cap xs ops = Inr (ys, zs) \<Longrightarrow> length xs \<le> cap \<Longrightarrow> length zs \<le> cap"
proof (induction ops arbitrary: xs ys)
  case Nil
  then show ?case by simp
next
  case (Cons op ops)
  then show ?case by (cases op) (auto simp: res_simps split: if_splits)
qed

locale bounded_stack =
  fixes put :: "'q \<Rightarrow> 'a \<Rightarrow> (nat \<times> 'q) res"
    and pop :: "'q \<Rightarrow> ('a \<times> 'q) res"
    and contents :: "'q \<Rightarrow> 'a list"
    and capacity :: "'q \<Rightarrow> nat"
    and ok :: "'q \<Rightarrow> bool"
  assumes within: "ok q \<Longrightarrow> length (contents q) \<le> capacity q"
    and put_full: "ok q \<Longrightarrow> length (contents q) = capacity q \<Longrightarrow> put q x = Inl Blocked"
    and put_room: "ok q \<Longrightarrow> length (contents q) < capacity q \<Longrightarrow>
      \<exists>q'. put q x = Inr (Suc (length (contents q)), q') \<and> ok q' \<and>
        contents q' = contents q @ [x] \<and> capacity q' = capacity q"
    and pop_empty: "ok q \<Longrightarrow> contents q = [] \<Longrightarrow> pop q = Inl Blocked"
    and pop_top: "ok q \<Longrightarrow> contents q \<noteq> [] \<Longrightarrow>
      \<exists>q'. pop q = Inr (last (contents q), q') \<and> ok q' \<and>
        contents q' = butlast (contents q) \<and> capacity q' = capacity q"
begin

lemma put_then_pop:
  assumes "ok q" "length (contents q) < capacity q"
  shows "\<exists>q'. bindE (put q x) (\<lambda>(_, q1). pop q1) = Inr (x, q') \<and> contents q' = contents q \<and> ok q'"
proof -
  from put_room [OF assms, of x] obtain q1 where q1: "put q x = Inr (Suc (length (contents q)), q1)"
    "ok q1" "contents q1 = contents q @ [x]" by blast
  from pop_top [OF q1(2)] q1(3) obtain q' where "pop q1 = Inr (x, q')" "ok q'" "contents q' = contents q"
    by auto
  with q1 show ?thesis by simp
qed

text \<open>Every sequence of calls behaves as on the list: a simulation, call by call.\<close>

lemma run_refines:
  assumes "ok q"
  shows "case list_run (capacity q) (contents q) ops of
      Inl e \<Rightarrow> queue_run put pop q ops = Inl e
    | Inr (ys, zs) \<Rightarrow> \<exists>q'. queue_run put pop q ops = Inr (ys, q') \<and> ok q' \<and> contents q' = zs \<and>
        capacity q' = capacity q"
  using assms
proof (induction ops arbitrary: q)
  case Nil
  then show ?case by simp
next
  case (Cons op ops)
  show ?case
  proof (cases op)
    case (Put x)
    show ?thesis
    proof (cases "length (contents q) = capacity q")
      case True
      with Put put_full [OF Cons.prems] show ?thesis by simp
    next
      case False
      with within [OF Cons.prems] have "length (contents q) < capacity q" by simp
      from put_room [OF Cons.prems this, of x] obtain q1 where
        "put q x = Inr (Suc (length (contents q)), q1)" "ok q1"
        "contents q1 = contents q @ [x]" "capacity q1 = capacity q" by blast
      with Put False Cons.IH [of q1] show ?thesis by (auto split: sum.splits)
    qed
  next
    case Pop
    show ?thesis
    proof (cases "contents q = []")
      case True
      with Pop pop_empty [OF Cons.prems] show ?thesis by simp
    next
      case False
      from pop_top [OF Cons.prems this] obtain q1 where
        "pop q = Inr (last (contents q), q1)" "ok q1"
        "contents q1 = butlast (contents q)" "capacity q1 = capacity q" by blast
      with Pop False Cons.IH [of q1] show ?thesis
        by (cases "list_run (capacity q) (butlast (contents q)) ops") auto
    qed
  qed
qed

lemma run_conserves:
  assumes "ok q" "queue_run put pop q ops = Inr (ys, q')"
  shows "mset ys + mset (contents q') = mset (contents q) + mset (put_items ops)"
    and "length (contents q') \<le> capacity q"
proof -
  from run_refines [OF assms(1), of ops] assms(2) have
    r: "list_run (capacity q) (contents q) ops = Inr (ys, contents q')"
    by (auto split: sum.splits)
  from list_run_mset [OF r] show "mset ys + mset (contents q') = mset (contents q) + mset (put_items ops)" .
  from list_run_bound [OF r] within [OF assms(1)] show "length (contents q') \<le> capacity q" by blast
qed

end

end
