(* ===== verification/Mbuf.thy ===== *)
theory Mbuf
  imports Stack
begin

text \<open>
  Packet buffers and their queues: \<open>struct mbuf\<close>, \<open>struct ackinfo\<close> and \<open>mbuf_reset\<close> of
  \<open>src/src/iptfs.h\<close>, and \<open>mbuf_new\<close>, \<open>struct mqueue\<close> and its operations of
  \<open>src/src/mbuf.c\<close>. The buffers of one pool live in a store indexed by their number; a C pointer
  into a buffer is an offset into its \<open>space\<close>.
\<close>

section \<open>struct mbuf\<close>

record mbuf =
  mb_space :: bytes
  mb_start :: nat
  mb_end :: nat
  mb_left :: int
  mb_refcnt :: u32

type_synonym mheap = "nat \<Rightarrow> mbuf"

definition MBUF_AVAIL :: "mbuf \<Rightarrow> int" where
  "MBUF_AVAIL m = int (length (mb_space m)) - int (mb_end m)"

definition MBUF_LEN :: "mbuf \<Rightarrow> int" where
  "MBUF_LEN m = int (mb_end m) - int (mb_start m)"

text \<open>The packet held by a buffer.\<close>

definition mbuf_bytes :: "mbuf \<Rightarrow> bytes" where
  "mbuf_bytes m = subseg (mb_start m) (mb_end m - mb_start m) (mb_space m)"

definition mbuf_wf :: "mbuf \<Rightarrow> bool" where
  "mbuf_wf m \<longleftrightarrow> mb_start m \<le> mb_end m \<and> mb_end m \<le> length (mb_space m)"

definition mbuf_new :: "nat \<Rightarrow> nat \<Rightarrow> mbuf" where
  "mbuf_new maxbuf hdrspace =
     \<lparr>mb_space = replicate maxbuf 0, mb_start = hdrspace, mb_end = hdrspace, mb_left = 0, mb_refcnt = 0\<rparr>"

definition mbuf_reset :: "mbuf \<Rightarrow> nat \<Rightarrow> mbuf res" where
  "mbuf_reset m hdrspace =
     bindE (requireE Assertion (mb_refcnt m = 0))
       (\<lambda>_. Inr (m\<lparr>mb_start := hdrspace, mb_end := hdrspace, mb_left := 0\<rparr>))"

lemma length_mbuf_bytes: "mbuf_wf m \<Longrightarrow> int (length (mbuf_bytes m)) = MBUF_LEN m"
  by (simp add: mbuf_wf_def mbuf_bytes_def MBUF_LEN_def)

lemma mbuf_reset_eq_Inr [res_simps]:
  "mbuf_reset m h = Inr m' \<longleftrightarrow>
     mb_refcnt m = 0 \<and> m' = m\<lparr>mb_start := h, mb_end := h, mb_left := 0\<rparr>"
  by (auto simp: mbuf_reset_def res_simps)

section \<open>struct mqueue\<close>

record ackinfo =
  ack_start :: u32
  ack_last :: u32
  ack_ndrop :: u32

definition ack_zero :: ackinfo where
  "ack_zero = \<lparr>ack_start = 0, ack_last = 0, ack_ndrop = 0\<rparr>"

record mqueue =
  mq_queue :: "nat list"
  mq_size :: nat
  mq_depth :: nat
  mq_hdrspace :: nat
  mq_ackinfo :: ackinfo

definition MQ_FULL :: "mqueue \<Rightarrow> bool" where
  "MQ_FULL mq \<longleftrightarrow> mq_depth mq = mq_size mq"

definition MQ_EMPTY :: "mqueue \<Rightarrow> bool" where
  "MQ_EMPTY mq \<longleftrightarrow> mq_depth mq = 0"

text \<open>
  The slots of the array and \<open>hdrspace\<close> come from \<open>malloc\<close>: their first contents are
  arguments (\<open>slots\<close> has as many elements as the queue's size).
\<close>

definition mqueue_new :: "nat list \<Rightarrow> nat \<Rightarrow> nat \<Rightarrow> mqueue" where
  "mqueue_new slots hdrspace sz =
     \<lparr>mq_queue = slots, mq_size = sz, mq_depth = 0, mq_hdrspace = hdrspace, mq_ackinfo = ack_zero\<rparr>"

definition mqueue_add_new :: "mheap \<Rightarrow> bytes \<Rightarrow> nat \<Rightarrow> nat \<Rightarrow> nat \<Rightarrow> mheap \<times> mqueue \<Rightarrow> mheap \<times> mqueue" where
  "mqueue_add_new raw space maxbuf hdrspace i hq =
     ((fst hq)(i := (raw i)\<lparr>mb_space := subseg (i * maxbuf) maxbuf space,
                            mb_start := hdrspace, mb_end := hdrspace\<rparr>),
      (snd hq)\<lparr>mq_queue := (mq_queue (snd hq))[i := i], mq_depth := mq_depth (snd hq) + 1\<rparr>)"

text \<open>
  \<open>raw\<close> are the buffer headers and \<open>space\<close> the bytes as \<open>malloc\<close> returned them.
\<close>

definition mqueue_new_freeq :: "mheap \<Rightarrow> bytes \<Rightarrow> nat list \<Rightarrow> nat \<Rightarrow> nat \<Rightarrow> nat \<Rightarrow> mheap \<times> mqueue" where
  "mqueue_new_freeq raw space slots sz maxbuf hdrspace =
     fold (mqueue_add_new raw space maxbuf hdrspace) [0..<sz]
       (raw, (mqueue_new slots 0 sz)\<lparr>mq_hdrspace := hdrspace\<rparr>)"

definition mqueue_pop :: "mqueue \<Rightarrow> (nat \<times> mqueue) res" where
  "mqueue_pop mq =
     bindE (requireE Blocked (\<not> MQ_EMPTY mq))
       (\<lambda>_. let d = mq_depth mq - 1 in Inr (mq_queue mq ! d, mq\<lparr>mq_depth := d\<rparr>))"

definition mqueue_wait :: "mqueue \<Rightarrow> unit res" where
  "mqueue_wait mq = requireE Blocked (\<not> MQ_EMPTY mq)"

definition mqueue_trypop :: "mheap \<Rightarrow> mqueue \<Rightarrow> int \<Rightarrow> nat option \<times> mqueue" where
  "mqueue_trypop h mq maxsize =
     (if MQ_EMPTY mq then (None, mq)
      else let m = mq_queue mq ! (mq_depth mq - 1)
           in if maxsize \<noteq> 0 \<and> MBUF_LEN (h m) > maxsize then (None, mq)
              else (Some m, mq\<lparr>mq_depth := mq_depth mq - 1\<rparr>))"

text \<open>The locked section of \<open>mqueue_push\<close>, and the whole call.\<close>

definition mqueue_put :: "mqueue \<Rightarrow> nat \<Rightarrow> (nat \<times> mqueue) res" where
  "mqueue_put mq m =
     bindE (requireE Blocked (\<not> MQ_FULL mq))
       (\<lambda>_. Inr (mq_depth mq + 1, mq\<lparr>mq_queue := (mq_queue mq)[mq_depth mq := m], mq_depth := mq_depth mq + 1\<rparr>))"

definition mqueue_push :: "mheap \<Rightarrow> mqueue \<Rightarrow> nat \<Rightarrow> bool \<Rightarrow> (nat \<times> mheap \<times> mqueue) res" where
  "mqueue_push h mq m reset =
     bindE (if reset then mbuf_reset (h m) (mq_hdrspace mq) else Inr (h m)) (\<lambda>mb.
     bindE (mqueue_put mq m) (\<lambda>(depth, mq'). Inr (depth, h(m := mb), mq')))"

definition mqueue_get_ackinfo :: "mqueue \<Rightarrow> (u32 \<times> u32 \<times> u32) \<times> mqueue" where
  "mqueue_get_ackinfo mq =
     ((ack_ndrop (mq_ackinfo mq), ack_start (mq_ackinfo mq), ack_last (mq_ackinfo mq)),
      mq\<lparr>mq_ackinfo := ack_zero\<rparr>)"

definition mqueue_get_ackinfop :: "mqueue \<Rightarrow> ackinfo" where
  "mqueue_get_ackinfop mq = mq_ackinfo mq"

section \<open>The queue as a bounded stack\<close>

definition mqueue_ok :: "mqueue \<Rightarrow> bool" where
  "mqueue_ok mq \<longleftrightarrow> length (mq_queue mq) = mq_size mq \<and> mq_depth mq \<le> mq_size mq"

definition mqueue_contents :: "mqueue \<Rightarrow> nat list" where
  "mqueue_contents mq = take (mq_depth mq) (mq_queue mq)"

lemmas mqueue_abs_defs = mqueue_ok_def mqueue_contents_def MQ_FULL_def MQ_EMPTY_def

lemma mqueue_put_room:
  assumes "mqueue_ok q" "length (mqueue_contents q) < mq_size q"
  shows "\<exists>q'. mqueue_put q x = Inr (Suc (length (mqueue_contents q)), q') \<and> mqueue_ok q' \<and>
     mqueue_contents q' = mqueue_contents q @ [x] \<and> mq_size q' = mq_size q \<and>
     mq_hdrspace q' = mq_hdrspace q"
proof -
  from assms have "mq_depth q < length (mq_queue q)" "mq_depth q < mq_size q"
    by (auto simp: mqueue_abs_defs min_def split: if_splits)
  with assms show ?thesis
    by (auto simp: mqueue_put_def mqueue_abs_defs take_Suc_update min_absorb2)
qed

lemma mqueue_pop_top:
  assumes "mqueue_ok q" "mqueue_contents q \<noteq> []"
  shows "\<exists>q'. mqueue_pop q = Inr (last (mqueue_contents q), q') \<and> mqueue_ok q' \<and>
     mqueue_contents q' = butlast (mqueue_contents q) \<and> mq_size q' = mq_size q \<and>
     mq_hdrspace q' = mq_hdrspace q"
proof -
  from assms have "0 < mq_depth q" "mq_depth q \<le> length (mq_queue q)"
    by (auto simp: mqueue_abs_defs)
  with assms show ?thesis
    by (auto simp: mqueue_pop_def mqueue_abs_defs Let_def last_take_nth take_pred_butlast [symmetric])
qed

interpretation mqs: bounded_stack mqueue_put mqueue_pop mqueue_contents mq_size mqueue_ok
proof
  show "mqueue_ok q \<Longrightarrow> length (mqueue_contents q) \<le> mq_size q" for q
    by (simp add: mqueue_abs_defs)
  show "mqueue_ok q \<Longrightarrow> length (mqueue_contents q) = mq_size q \<Longrightarrow> mqueue_put q x = Inl Blocked" for q x
    by (auto simp: mqueue_abs_defs mqueue_put_def min_def split: if_splits)
  show "mqueue_ok q \<Longrightarrow> length (mqueue_contents q) < mq_size q \<Longrightarrow>
      \<exists>q'. mqueue_put q x = Inr (Suc (length (mqueue_contents q)), q') \<and> mqueue_ok q' \<and>
        mqueue_contents q' = mqueue_contents q @ [x] \<and> mq_size q' = mq_size q" for q x
    using mqueue_put_room by blast
  show "mqueue_ok q \<Longrightarrow> mqueue_contents q = [] \<Longrightarrow> mqueue_pop q = Inl Blocked" for q
    by (auto simp: mqueue_abs_defs mqueue_pop_def)
  show "mqueue_ok q \<Longrightarrow> mqueue_contents q \<noteq> [] \<Longrightarrow>
      \<exists>q'. mqueue_pop q = Inr (last (mqueue_contents q), q') \<and> mqueue_ok q' \<and>
        mqueue_contents q' = butlast (mqueue_contents q) \<and> mq_size q' = mq_size q" for q
    using mqueue_pop_top by blast
qed

lemma mqueue_push_reset:
  assumes "mqueue_ok q" "length (mqueue_contents q) < mq_size q" "mb_refcnt (h x) = 0"
  shows "\<exists>q'. mqueue_push h q x True = Inr (Suc (length (mqueue_contents q)),
       h(x := (h x)\<lparr>mb_start := mq_hdrspace q, mb_end := mq_hdrspace q, mb_left := 0\<rparr>), q') \<and>
     mqueue_ok q' \<and> mqueue_contents q' = mqueue_contents q @ [x] \<and> mq_size q' = mq_size q \<and>
     mq_hdrspace q' = mq_hdrspace q"
  using mqueue_put_room [OF assms(1,2), of x] assms(3)
  by (auto simp: mqueue_push_def mbuf_reset_def)

lemma mqueue_push_plain:
  assumes "mqueue_ok q" "length (mqueue_contents q) < mq_size q"
  shows "\<exists>q'. mqueue_push h q x False = Inr (Suc (length (mqueue_contents q)), h, q') \<and>
     mqueue_ok q' \<and> mqueue_contents q' = mqueue_contents q @ [x] \<and> mq_size q' = mq_size q \<and>
     mq_hdrspace q' = mq_hdrspace q"
  using mqueue_put_room [OF assms, of x] by (auto simp: mqueue_push_def)

lemma mqueue_trypop_cases:
  assumes "mqueue_ok q"
  shows "mqueue_contents q = [] \<and> mqueue_trypop h q mx = (None, q) \<or>
     mqueue_contents q \<noteq> [] \<and> mx \<noteq> 0 \<and> mx < MBUF_LEN (h (last (mqueue_contents q))) \<and>
       mqueue_trypop h q mx = (None, q) \<or>
     mqueue_contents q \<noteq> [] \<and> (mx = 0 \<or> MBUF_LEN (h (last (mqueue_contents q))) \<le> mx) \<and>
       (\<exists>q'. mqueue_trypop h q mx = (Some (last (mqueue_contents q)), q') \<and> mqueue_ok q' \<and>
          mqueue_contents q' = butlast (mqueue_contents q) \<and> mq_size q' = mq_size q \<and>
          mq_hdrspace q' = mq_hdrspace q)"
proof (cases "mqueue_contents q = []")
  case True
  with assms show ?thesis by (auto simp: mqueue_abs_defs mqueue_trypop_def)
next
  case False
  with assms have d: "0 < mq_depth q" "mq_depth q \<le> length (mq_queue q)" "mq_depth q \<le> mq_size q"
    by (auto simp: mqueue_abs_defs)
  with assms False show ?thesis
    by (auto simp: mqueue_abs_defs mqueue_trypop_def Let_def last_take_nth take_pred_butlast [symmetric])
qed

section \<open>A fresh pool\<close>

text \<open>The state after the first \<open>k\<close> rounds of the allocation loop.\<close>

lemma new_freeq_prefix:
  fixes raw :: mheap and space :: bytes and maxbuf hdr :: nat
  assumes "length slots = sz" "k \<le> sz"
  defines "hq \<equiv> fold (mqueue_add_new raw space maxbuf hdr) [0..<k]
       (raw, (mqueue_new slots 0 sz)\<lparr>mq_hdrspace := hdr\<rparr>)"
  shows "mqueue_ok (snd hq) \<and> mqueue_contents (snd hq) = [0..<k] \<and> mq_depth (snd hq) = k \<and>
     mq_size (snd hq) = sz \<and> mq_hdrspace (snd hq) = hdr \<and>
     (\<forall>i. fst hq i = (if i < k then (raw i)\<lparr>mb_space := subseg (i * maxbuf) maxbuf space,
                         mb_start := hdr, mb_end := hdr\<rparr> else raw i))"
  using assms(2) unfolding hq_def
proof (induction k)
  case 0
  with assms(1) show ?case by (simp add: mqueue_new_def mqueue_abs_defs)
next
  case (Suc k)
  then have IH: "k \<le> sz" and k: "k < sz" by auto
  with Suc.IH assms(1) show ?case
    by (auto simp: mqueue_add_new_def mqueue_abs_defs take_Suc_update)
qed

lemma mqueue_new_freeq_state:
  fixes raw :: mheap and space :: bytes and maxbuf hdr :: nat
  assumes "length slots = sz"
  defines "hq \<equiv> mqueue_new_freeq raw space slots sz maxbuf hdr"
  shows "mqueue_ok (snd hq)" "mqueue_contents (snd hq) = [0..<sz]" "mq_size (snd hq) = sz"
    "mq_hdrspace (snd hq) = hdr"
    "i < sz \<Longrightarrow> fst hq i = (raw i)\<lparr>mb_space := subseg (i * maxbuf) maxbuf space, mb_start := hdr, mb_end := hdr\<rparr>"
    "\<not> i < sz \<Longrightarrow> fst hq i = raw i"
  using new_freeq_prefix [OF assms(1), of sz] by (auto simp: hq_def mqueue_new_freeq_def)

section \<open>Properties\<close>

text \<open>C32: under any sequence of atomic pushes and pops, an \<open>mqueue\<close> behaves exactly as a list
  bounded by the queue's size whose elements come and go at one end: the same values are popped, the
  same content is left, and the same calls wait.\<close>

theorem mqueue_refines_bounded_stack:
  assumes "mqueue_ok q"
  shows "case list_run (mq_size q) (mqueue_contents q) ops of
      Inl e \<Rightarrow> queue_run mqueue_put mqueue_pop q ops = Inl e
    | Inr (ys, zs) \<Rightarrow> \<exists>q'. queue_run mqueue_put mqueue_pop q ops = Inr (ys, q') \<and>
        mqueue_ok q' \<and> mqueue_contents q' = zs \<and> mq_size q' = mq_size q"
  by (rule mqs.run_refines [OF assms])

theorem mqueue_refines_bounded_stack_witness:
  "\<exists>q'. queue_run mqueue_put mqueue_pop (mqueue_new [0, 0] 0 2) [Put 7, Put 8, Pop, Put 9, Pop, Pop] =
     Inr ([8, 9, 7], q') \<and> mqueue_contents q' = []"
proof -
  have "mqueue_ok (mqueue_new [0, 0] 0 2)" "mqueue_contents (mqueue_new [0, 0] 0 2) = []"
    "mq_size (mqueue_new [0, 0] 0 2) = 2"
    by (simp_all add: mqueue_new_def mqueue_abs_defs)
  with mqueue_refines_bounded_stack [of "mqueue_new [0, 0] 0 2" "[Put 7, Put 8, Pop, Put 9, Pop, Pop]"]
  show ?thesis by auto
qed

text \<open>What a thread pops, together with what is left, is what was there and what was pushed: no
  buffer is lost or handed out twice, and the depth never exceeds the size.\<close>

theorem mqueue_conserves_buffers:
  assumes "mqueue_ok q" "queue_run mqueue_put mqueue_pop q ops = Inr (ys, q')"
  shows "mset ys + mset (mqueue_contents q') = mset (mqueue_contents q) + mset (put_items ops) \<and>
    length (mqueue_contents q') \<le> mq_size q"
  using mqs.run_conserves [OF assms] by blast

theorem mqueue_conserves_buffers_witness:
  "\<exists>q'. queue_run mqueue_put mqueue_pop (mqueue_new [0, 0] 0 2) [Put 7, Put 8, Pop] = Inr ([8], q') \<and>
     mset (mqueue_contents q') = {#7#}"
proof -
  have ok: "mqueue_ok (mqueue_new [0, 0] 0 2)" by (simp add: mqueue_new_def mqueue_abs_defs)
  obtain q' where q': "queue_run mqueue_put mqueue_pop (mqueue_new [0, 0] 0 2) [Put 7, Put 8, Pop] = Inr ([8], q')"
    by (simp add: mqueue_new_def mqueue_put_def mqueue_pop_def MQ_FULL_def MQ_EMPTY_def Let_def)
  from mqueue_conserves_buffers [OF ok q'] q' show ?thesis
    by (auto simp: mqueue_new_def mqueue_contents_def)
qed

lemma list_run_puts:
  "length xs + length ys \<le> cap \<Longrightarrow> list_run cap xs (map Put ys @ ops) = list_run cap (xs @ ys) ops"
  by (induction ys arbitrary: xs) auto

lemma list_run_pops: "list_run cap xs (replicate (length xs) Pop) = Inr (rev xs, [])"
  by (induction xs rule: rev_induct) auto

text \<open>C33: an \<open>mqueue\<close> is last-in first-out: a burst pushed while the consumer is away comes out
  in reverse order.\<close>

theorem mqueue_reverses_bursts:
  assumes "length slots = sz" "length xs \<le> sz"
  shows "\<exists>q'. queue_run mqueue_put mqueue_pop (mqueue_new slots hdr sz)
     (map Put xs @ replicate (length xs) Pop) = Inr (rev xs, q')"
proof -
  have q: "mqueue_ok (mqueue_new slots hdr sz)" "mqueue_contents (mqueue_new slots hdr sz) = []"
    "mq_size (mqueue_new slots hdr sz) = sz"
    using assms(1) by (simp_all add: mqueue_new_def mqueue_abs_defs)
  show ?thesis
    using mqs.run_refines [OF q(1), of "map Put xs @ replicate (length xs) Pop"] assms(2)
    by (auto simp: q list_run_puts list_run_pops)
qed

theorem mqueue_reverses_bursts_witness:
  "\<exists>q'. queue_run mqueue_put mqueue_pop (mqueue_new (replicate 256 0) 0 256)
     [Put 1, Put 2, Put 3, Pop, Pop, Pop] = Inr ([3, 2, 1], q')"
  using mqueue_reverses_bursts [of "replicate 256 0" 256 "[1, 2, 3]" 0]
  by (simp add: numeral_3_eq_3)

text \<open>A new free queue over zeroed memory holds each of its buffers exactly once, every one of
  them empty, unreferenced, inside its own \<open>maxbuf\<close> bytes and with \<open>maxbuf - hdrspace\<close> bytes
  available.\<close>

theorem mqueue_new_freeq_pool:
  assumes "length slots = sz" "length space = sz * maxbuf" "hdr \<le> maxbuf"
    and "\<forall>i < sz. mb_refcnt (raw i) = 0"
  defines "hq \<equiv> mqueue_new_freeq raw space slots sz maxbuf hdr"
  shows "distinct (mqueue_contents (snd hq)) \<and> set (mqueue_contents (snd hq)) = {..<sz} \<and>
    MQ_FULL (snd hq) \<and>
    (\<forall>i < sz. mbuf_wf (fst hq i) \<and> mbuf_bytes (fst hq i) = [] \<and> mb_refcnt (fst hq i) = 0 \<and>
       MBUF_AVAIL (fst hq i) = int (maxbuf - hdr))"
proof -
  note st = mqueue_new_freeq_state [OF assms(1), where raw = raw and space = space and maxbuf = maxbuf and hdr = hdr, folded hq_def]
  have "i * maxbuf + maxbuf \<le> sz * maxbuf" if "i < sz" for i
    using mult_le_mono1 [of "Suc i" sz maxbuf] that by simp
  with assms(2) have len: "i < sz \<Longrightarrow> length (subseg (i * maxbuf) maxbuf space) = maxbuf" for i by simp
  have "mq_depth (snd hq) = sz"
    using st(1,3) arg_cong [OF st(2), of length] by (simp add: mqueue_abs_defs)
  with st len assms(3,4) show ?thesis
    by (auto simp: MQ_FULL_def mbuf_wf_def mbuf_bytes_def MBUF_AVAIL_def)
qed

theorem mqueue_new_freeq_pool_witness:
  "set (mqueue_contents (snd (mqueue_new_freeq (\<lambda>_. mbuf_new 0 0) (replicate 12 0) [0, 0, 0] 3 4 2))) = {..<3}"
  using mqueue_new_freeq_pool [of "[0, 0, 0]" 3 "replicate 12 0" 4 2 "\<lambda>_. mbuf_new 0 0"]
  by (simp add: mbuf_new_def)

end
