(* ===== verification/Miov.thy ===== *)
theory Miov
  imports Mbuf
begin

text \<open>
  Scatter lists over packet buffers: \<open>struct miov\<close> and \<open>miov_addmbuf\<close>, \<open>mbuf_deref\<close> of
  \<open>src/src/iptfs.h\<close>, and \<open>struct miovq\<close> and its operations of \<open>src/src/mbuf.c\<close>. The
  memory of the receiving side is the store of buffers, the free queue they return to, and the
  store of scatter lists.
\<close>

section \<open>struct iovec and struct miov\<close>

text \<open>
  A base pointer names a place in a buffer, or one of the two static arrays of the sender: its
  header buffer and the padding bytes.
\<close>

datatype ptr = PBuf nat nat | PHdr | PPad

record iovec =
  iov_base :: ptr
  iov_len :: int

record miov =
  mi_iov :: "iovec list"
  mi_mbufs :: "nat list"
  mi_len :: int
  mi_left :: int
  mi_niov :: nat
  mi_maxiov :: nat

record miovq =
  vq_queue :: "nat list"
  vq_size :: nat
  vq_depth :: nat
  vq_freeq :: bool

text \<open>\<open>vq_freeq\<close>: the queue's \<open>freeq\<close> pointer is set; it points to the free queue of the memory.\<close>

record mem =
  m_mbufs :: mheap
  m_freeq :: mqueue
  m_miovs :: "nat \<Rightarrow> miov"

definition miov_addmbuf :: "mem \<Rightarrow> nat \<Rightarrow> nat \<Rightarrow> nat \<Rightarrow> int \<Rightarrow> mem res" where
  "miov_addmbuf s v a start len =
     (let mi = m_miovs s v; i = mi_niov mi; m = m_mbufs s a in
      bindE (requireE OutOfBounds (i < length (mi_iov mi) \<and> i < length (mi_mbufs mi))) (\<lambda>_.
      Inr (s\<lparr>m_miovs := (m_miovs s)(v := mi\<lparr>mi_niov := i + 1,
                 mi_iov := (mi_iov mi)[i := \<lparr>iov_base = PBuf a start, iov_len = len\<rparr>],
                 mi_mbufs := (mi_mbufs mi)[i := a], mi_len := mi_len mi + len\<rparr>),
             m_mbufs := (m_mbufs s)(a := m\<lparr>mb_refcnt := mb_refcnt m + 1\<rparr>)\<rparr>)))"

definition mbuf_deref :: "mem \<Rightarrow> nat \<Rightarrow> mem res" where
  "mbuf_deref s a =
     (let m = m_mbufs s a; h = (m_mbufs s)(a := m\<lparr>mb_refcnt := mb_refcnt m - 1\<rparr>)
      in if mb_refcnt m = 1
         then bindE (mqueue_push h (m_freeq s) a True)
                (\<lambda>(_, h', q'). Inr (s\<lparr>m_mbufs := h', m_freeq := q'\<rparr>))
         else Inr (s\<lparr>m_mbufs := h\<rparr>))"

fun mbuf_derefs :: "mem \<Rightarrow> nat list \<Rightarrow> mem res" where
  "mbuf_derefs s [] = Inr s"
| "mbuf_derefs s (a # as) = bindE (mbuf_deref s a) (\<lambda>s'. mbuf_derefs s' as)"

definition miov_refs :: "miov \<Rightarrow> nat list" where
  "miov_refs mi = take (mi_niov mi) (mi_mbufs mi)"

definition miov_reset :: "mem \<Rightarrow> nat \<Rightarrow> mem res" where
  "miov_reset s v =
     bindE (mbuf_derefs s (miov_refs (m_miovs s v))) (\<lambda>s'.
     Inr (s'\<lparr>m_miovs := (m_miovs s')(v := (m_miovs s' v)\<lparr>mi_niov := 0, mi_len := 0, mi_left := 0\<rparr>)\<rparr>))"

section \<open>struct miovq\<close>

definition miovq_new :: "nat list \<Rightarrow> nat \<Rightarrow> miovq" where
  "miovq_new slots sz = \<lparr>vq_queue = slots, vq_size = sz, vq_depth = 0, vq_freeq = False\<rparr>"

definition miovq_add_new :: "(nat \<Rightarrow> miov) \<Rightarrow> nat \<Rightarrow> (nat \<Rightarrow> iovec list) \<Rightarrow> (nat \<Rightarrow> nat list) \<Rightarrow> nat \<Rightarrow>
    (nat \<Rightarrow> miov) \<times> miovq \<Rightarrow> (nat \<Rightarrow> miov) \<times> miovq" where
  "miovq_add_new raw maxiov iovs ptrs i vq =
     ((fst vq)(i := (raw i)\<lparr>mi_iov := iovs i, mi_mbufs := ptrs i, mi_maxiov := maxiov\<rparr>),
      (snd vq)\<lparr>vq_queue := (vq_queue (snd vq))[i := i], vq_depth := vq_depth (snd vq) + 1\<rparr>)"

text \<open>
  \<open>raw\<close>, \<open>iovs\<close> and \<open>ptrs\<close> are the uninitialised headers, \<open>iovec\<close> arrays and pointer
  arrays (of \<open>maxiov\<close> elements each) that \<open>malloc\<close> returned.
\<close>

definition miovq_new_freeq :: "(nat \<Rightarrow> miov) \<Rightarrow> (nat \<Rightarrow> iovec list) \<Rightarrow> (nat \<Rightarrow> nat list) \<Rightarrow> nat list \<Rightarrow>
    nat \<Rightarrow> nat \<Rightarrow> (nat \<Rightarrow> miov) \<times> miovq" where
  "miovq_new_freeq raw iovs ptrs slots sz maxiov =
     fold (miovq_add_new raw maxiov iovs ptrs) [0..<sz]
       (raw, (miovq_new slots sz)\<lparr>vq_freeq := True\<rparr>)"

definition miovq_pop :: "miovq \<Rightarrow> (nat \<times> miovq) res" where
  "miovq_pop mq =
     bindE (requireE Blocked (vq_depth mq \<noteq> 0))
       (\<lambda>_. let d = vq_depth mq - 1 in Inr (vq_queue mq ! d, mq\<lparr>vq_depth := d\<rparr>))"

definition miovq_put :: "miovq \<Rightarrow> nat \<Rightarrow> (nat \<times> miovq) res" where
  "miovq_put mq v =
     bindE (requireE Blocked (vq_depth mq \<noteq> vq_size mq))
       (\<lambda>_. Inr (vq_depth mq + 1, mq\<lparr>vq_queue := (vq_queue mq)[vq_depth mq := v], vq_depth := vq_depth mq + 1\<rparr>))"

definition miovq_push :: "mem \<Rightarrow> miovq \<Rightarrow> nat \<Rightarrow> (nat \<times> mem \<times> miovq) res" where
  "miovq_push s mq v =
     bindE (if vq_freeq mq then miov_reset s v else Inr s) (\<lambda>s'.
     bindE (miovq_put mq v) (\<lambda>(depth, mq'). Inr (depth, s', mq')))"

definition miovq_ok :: "miovq \<Rightarrow> bool" where
  "miovq_ok mq \<longleftrightarrow> length (vq_queue mq) = vq_size mq \<and> vq_depth mq \<le> vq_size mq"

definition miovq_contents :: "miovq \<Rightarrow> nat list" where
  "miovq_contents mq = take (vq_depth mq) (vq_queue mq)"

lemmas miovq_abs_defs = miovq_ok_def miovq_contents_def

lemma miovq_put_room:
  assumes "miovq_ok q" "length (miovq_contents q) < vq_size q"
  shows "\<exists>q'. miovq_put q x = Inr (Suc (length (miovq_contents q)), q') \<and> miovq_ok q' \<and>
     miovq_contents q' = miovq_contents q @ [x] \<and> vq_size q' = vq_size q \<and> vq_freeq q' = vq_freeq q"
proof -
  from assms have "vq_depth q < length (vq_queue q)" "vq_depth q < vq_size q"
    by (auto simp: miovq_abs_defs min_def split: if_splits)
  with assms show ?thesis
    by (auto simp: miovq_put_def miovq_abs_defs take_Suc_update min_absorb2)
qed

lemma miovq_pop_top:
  assumes "miovq_ok q" "miovq_contents q \<noteq> []"
  shows "\<exists>q'. miovq_pop q = Inr (last (miovq_contents q), q') \<and> miovq_ok q' \<and>
     miovq_contents q' = butlast (miovq_contents q) \<and> vq_size q' = vq_size q \<and> vq_freeq q' = vq_freeq q"
proof -
  from assms have "0 < vq_depth q" "vq_depth q \<le> length (vq_queue q)"
    by (auto simp: miovq_abs_defs)
  with assms show ?thesis
    by (auto simp: miovq_pop_def miovq_abs_defs Let_def last_take_nth take_pred_butlast [symmetric])
qed

interpretation vqs: bounded_stack miovq_put miovq_pop miovq_contents vq_size miovq_ok
proof
  show "miovq_ok q \<Longrightarrow> length (miovq_contents q) \<le> vq_size q" for q
    by (simp add: miovq_abs_defs)
  show "miovq_ok q \<Longrightarrow> length (miovq_contents q) = vq_size q \<Longrightarrow> miovq_put q x = Inl Blocked" for q x
    by (auto simp: miovq_abs_defs miovq_put_def min_def split: if_splits)
  show "miovq_ok q \<Longrightarrow> length (miovq_contents q) < vq_size q \<Longrightarrow>
      \<exists>q'. miovq_put q x = Inr (Suc (length (miovq_contents q)), q') \<and> miovq_ok q' \<and>
        miovq_contents q' = miovq_contents q @ [x] \<and> vq_size q' = vq_size q" for q x
    using miovq_put_room by blast
  show "miovq_ok q \<Longrightarrow> miovq_contents q = [] \<Longrightarrow> miovq_pop q = Inl Blocked" for q
    by (auto simp: miovq_abs_defs miovq_pop_def)
  show "miovq_ok q \<Longrightarrow> miovq_contents q \<noteq> [] \<Longrightarrow>
      \<exists>q'. miovq_pop q = Inr (last (miovq_contents q), q') \<and> miovq_ok q' \<and>
        miovq_contents q' = butlast (miovq_contents q) \<and> vq_size q' = vq_size q" for q
    using miovq_pop_top by blast
qed

text \<open>The state after the first \<open>k\<close> rounds of the allocation loop.\<close>

lemma miovq_new_freeq_prefix:
  fixes raw :: "nat \<Rightarrow> miov" and iovs :: "nat \<Rightarrow> iovec list" and ptrs :: "nat \<Rightarrow> nat list" and maxiov :: nat
  assumes "length slots = sz" "k \<le> sz"
  defines "vq \<equiv> fold (miovq_add_new raw maxiov iovs ptrs) [0..<k] (raw, (miovq_new slots sz)\<lparr>vq_freeq := True\<rparr>)"
  shows "miovq_ok (snd vq) \<and> miovq_contents (snd vq) = [0..<k] \<and> vq_depth (snd vq) = k \<and>
     vq_size (snd vq) = sz \<and> vq_freeq (snd vq) \<and>
     (\<forall>i. fst vq i = (if i < k then (raw i)\<lparr>mi_iov := iovs i, mi_mbufs := ptrs i, mi_maxiov := maxiov\<rparr> else raw i))"
  using assms(2) unfolding vq_def
proof (induction k)
  case 0
  with assms(1) show ?case by (simp add: miovq_new_def miovq_abs_defs)
next
  case (Suc k)
  then have IH: "k \<le> sz" and k: "k < sz" by auto
  with Suc.IH assms(1) show ?case
    by (auto simp: miovq_add_new_def miovq_abs_defs take_Suc_update)
qed

lemma miovq_new_freeq_state:
  fixes raw :: "nat \<Rightarrow> miov" and iovs :: "nat \<Rightarrow> iovec list" and ptrs :: "nat \<Rightarrow> nat list" and maxiov :: nat
  assumes "length slots = sz"
  defines "vq \<equiv> miovq_new_freeq raw iovs ptrs slots sz maxiov"
  shows "miovq_ok (snd vq)" "miovq_contents (snd vq) = [0..<sz]" "vq_size (snd vq) = sz" "vq_freeq (snd vq)"
    "i < sz \<Longrightarrow> fst vq i = (raw i)\<lparr>mi_iov := iovs i, mi_mbufs := ptrs i, mi_maxiov := maxiov\<rparr>"
  using miovq_new_freeq_prefix [OF assms(1), of sz] by (auto simp: vq_def miovq_new_freeq_def)

end
