(* ===== verification/Clock.thy ===== *)
theory Clock
  imports Prelude
begin

text \<open>
  The time keeping of \<open>src/src/util.c\<close>: differences of monotonic clock readings
  (\<open>clock_delta\<close>), the resettable timer (\<open>stimer_t\<close>) and the periodic sleeper
  (\<open>struct periodic\<close>). A reading of \<open>clock_gettime\<close> is an argument of the operations.
\<close>

section \<open>Time stamps\<close>

datatype timespec = Timespec (tv_sec: int) (tv_nsec: int)

definition NSECS_IN_SEC :: int where [const_defs]: "NSECS_IN_SEC = 1000000000"

definition ts_ok :: "timespec \<Rightarrow> bool" where
  "ts_ok t \<longleftrightarrow> 0 \<le> tv_nsec t \<and> tv_nsec t < NSECS_IN_SEC"

definition nanos :: "timespec \<Rightarrow> int" where
  "nanos t = tv_sec t * NSECS_IN_SEC + tv_nsec t"

lemmas ts_defs = ts_ok_def nanos_def NSECS_IN_SEC_def

instantiation timespec :: linorder
begin

definition less_eq_timespec :: "timespec \<Rightarrow> timespec \<Rightarrow> bool" where
  "less_eq_timespec s t \<longleftrightarrow> tv_sec s < tv_sec t \<or> tv_sec s = tv_sec t \<and> tv_nsec s \<le> tv_nsec t"

definition less_timespec :: "timespec \<Rightarrow> timespec \<Rightarrow> bool" where
  "less_timespec s t \<longleftrightarrow> tv_sec s < tv_sec t \<or> tv_sec s = tv_sec t \<and> tv_nsec s < tv_nsec t"

instance
  by standard (auto simp: less_eq_timespec_def less_timespec_def timespec.expand)

end

lemma ts_le_iff_nanos: "ts_ok s \<Longrightarrow> ts_ok t \<Longrightarrow> s \<le> t \<longleftrightarrow> nanos s \<le> nanos t"
  by (auto simp: less_eq_timespec_def ts_defs)

section \<open>clock\_delta\<close>

text \<open>
  \<open>sdiff\<close> is a 32-bit \<open>uint\<close> and \<open>NSECS_IN_SEC\<close> an \<open>int\<close>, so their product is
  computed in 32 bits before it is widened.
\<close>

definition clock_delta :: "timespec \<Rightarrow> timespec \<Rightarrow> u64" where
  "clock_delta recent past =
     (let sdiff = (word_of_int (tv_sec recent - tv_sec past) :: u32);
          nsecs = word_of_int (tv_nsec recent) + ucast (sdiff * word_of_int NSECS_IN_SEC)
      in nsecs - word_of_int (tv_nsec past))"

lemma uint_clock_delta:
  "uint (clock_delta r p) =
     (tv_nsec r + (tv_sec r - tv_sec p) * NSECS_IN_SEC mod 2 ^ 32 - tv_nsec p) mod 2 ^ 64"
proof -
  have "uint (word_of_int (tv_sec r - tv_sec p) * word_of_int NSECS_IN_SEC :: u32) =
      (tv_sec r - tv_sec p) * NSECS_IN_SEC mod 2 ^ 32"
    by (simp add: uint_word_of_int uint_word_ariths mod_simps)
  then show ?thesis
    unfolding clock_delta_def Let_def
    by (simp add: uint_word_ariths uint_word_of_int unsigned_ucast_eq take_bit_eq_mod mod_simps)
qed

lemma small_seconds: "0 \<le> s \<Longrightarrow> s \<le> 4 \<Longrightarrow> s * NSECS_IN_SEC mod 2 ^ 32 = s * NSECS_IN_SEC" for s :: int
  by (rule mod_pos_pos_trivial) (auto simp: const_defs)

lemma clock_delta_small:
  assumes "ts_ok r" "ts_ok p" "p \<le> r" "tv_sec r - tv_sec p \<le> 4"
  shows "uint (clock_delta r p) = nanos r - nanos p"
proof -
  from assms(3) have s: "0 \<le> tv_sec r - tv_sec p" by (auto simp: less_eq_timespec_def)
  have "nanos p \<le> nanos r" using assms ts_le_iff_nanos by blast
  moreover have "nanos r - nanos p < 2 ^ 64" using assms s by (simp add: ts_defs algebra_simps)
  moreover have "tv_nsec r + (tv_sec r - tv_sec p) * NSECS_IN_SEC - tv_nsec p = nanos r - nanos p"
    by (simp add: nanos_def algebra_simps)
  ultimately show ?thesis
    unfolding uint_clock_delta small_seconds [OF s assms(4)] by simp
qed

lemma clock_delta_large:
  assumes "ts_ok r" "ts_ok p" "5 \<le> tv_sec r - tv_sec p" "tv_sec r - tv_sec p < 2 ^ 32"
  shows "uint (clock_delta r p) \<noteq> nanos r - nanos p"
proof
  define s where "s = tv_sec r - tv_sec p"
  define k where "k = s * NSECS_IN_SEC div 2 ^ 32"
  have k: "s * NSECS_IN_SEC mod 2 ^ 32 = s * NSECS_IN_SEC - k * 2 ^ 32"
    unfolding k_def by (simp add: minus_div_mult_eq_mod)
  have "0 < k" "k < 2 ^ 30" using assms(3,4) unfolding k_def s_def [symmetric] NSECS_IN_SEC_def
    by (auto simp: pos_imp_zdiv_pos_iff div_less_iff_less_mult)
  assume "uint (clock_delta r p) = nanos r - nanos p"
  then have "(nanos r - nanos p - k * 2 ^ 32) mod 2 ^ 64 = nanos r - nanos p"
    unfolding uint_clock_delta s_def [symmetric] k by (simp add: nanos_def s_def algebra_simps)
  then have "2 ^ 64 dvd (nanos r - nanos p) - (nanos r - nanos p - k * 2 ^ 32)"
    by (metis mod_eq_dvd_iff mod_mod_trivial)
  then have "2 ^ 64 dvd k * 2 ^ 32" by simp
  with \<open>0 < k\<close> have "2 ^ 64 \<le> k * 2 ^ 32" by (intro zdvd_imp_le) auto
  with \<open>k < 2 ^ 30\<close> show False by simp
qed

text \<open>C38: \<open>clock_delta\<close> of two ordered clock readings is the nanoseconds between them exactly when
  they are less than five seconds apart (in whole seconds): beyond that the 32-bit product wraps.\<close>

theorem clock_delta_exact_iff:
  assumes "ts_ok recent" "ts_ok past" "past \<le> recent" "tv_sec recent - tv_sec past < 2 ^ 32"
  shows "uint (clock_delta recent past) = nanos recent - nanos past \<longleftrightarrow>
         tv_sec recent - tv_sec past \<le> 4"
proof (cases "tv_sec recent - tv_sec past \<le> 4")
  case True
  then show ?thesis using clock_delta_small assms by blast
next
  case False
  then have "5 \<le> tv_sec recent - tv_sec past" by simp
  from clock_delta_large [OF assms(1,2) this assms(4)] False show ?thesis by simp
qed

theorem clock_delta_exact_iff_witness:
  "uint (clock_delta (Timespec 14 7) (Timespec 10 999999999)) = 3000000008 \<and>
   uint (clock_delta (Timespec 15 0) (Timespec 10 0)) \<noteq> 5000000000"
  using clock_delta_exact_iff [of "Timespec 14 7" "Timespec 10 999999999"]
    clock_delta_exact_iff [of "Timespec 15 0" "Timespec 10 0"]
  by (simp add: ts_defs less_eq_timespec_def)

section \<open>The timer stimer\_t\<close>

record stimer =
  st_ts :: timespec
  st_nsecs :: u64

definition st_reset :: "timespec \<Rightarrow> u64 \<Rightarrow> stimer" where
  "st_reset now nsecs = \<lparr>st_ts = now, st_nsecs = nsecs\<rparr>"

definition st_check :: "timespec \<Rightarrow> stimer \<Rightarrow> bool \<times> stimer" where
  "st_check now t =
     (if clock_delta now (st_ts t) < st_nsecs t then (False, t) else (True, t\<lparr>st_ts := now\<rparr>))"

text \<open>While fewer than five whole seconds pass between checks, a check reports expiry exactly
  when the timer's period has elapsed; it then restarts the timer at the current reading, and
  leaves it alone otherwise.\<close>

theorem st_check_fires_on_time:
  assumes "ts_ok now" "ts_ok (st_ts t)" "st_ts t \<le> now" "tv_sec now - tv_sec (st_ts t) \<le> 4"
  shows "st_check now t =
    (if uint (st_nsecs t) \<le> nanos now - nanos (st_ts t) then (True, st_reset now (st_nsecs t))
     else (False, t))"
  using clock_delta_small [OF assms]
  by (auto simp: st_check_def st_reset_def word_less_def not_less)

theorem st_check_fires_on_time_witness:
  "st_check (Timespec 12 5) (st_reset (Timespec 11 5) 1000000000) =
     (True, st_reset (Timespec 12 5) 1000000000) \<and>
   st_check (Timespec 12 4) (st_reset (Timespec 11 5) 1000000000) =
     (False, st_reset (Timespec 11 5) 1000000000)"
  using st_check_fires_on_time [of "Timespec 12 5" "st_reset (Timespec 11 5) 1000000000"]
    st_check_fires_on_time [of "Timespec 12 4" "st_reset (Timespec 11 5) 1000000000"]
  by (simp add: ts_defs less_eq_timespec_def st_reset_def)

text \<open>A one-second timer that is checked exactly five seconds after it was set is reported as
  not expired, whatever the readings: the elapsed time wraps to about 0.7 seconds.\<close>

theorem st_check_misses_after_five_seconds:
  "st_check (Timespec (s + 5) n) (st_reset (Timespec s n) 1000000000) =
     (False, st_reset (Timespec s n) 1000000000)"
proof -
  have "uint (clock_delta (Timespec (s + 5) n) (Timespec s n)) = 705032704"
    unfolding uint_clock_delta by (simp add: const_defs)
  then have "clock_delta (Timespec (s + 5) n) (Timespec s n) < 1000000000"
    by (simp add: word_less_def)
  then show ?thesis by (simp add: st_check_def st_reset_def)
qed

section \<open>The periodic sleeper\<close>

record periodic =
  pd_timestamp :: timespec
  pd_ival :: u64

definition periodic_init :: "timespec \<Rightarrow> u64 \<Rightarrow> periodic" where
  "periodic_init now nsecs = \<lparr>pd_timestamp = now, pd_ival = nsecs\<rparr>"

definition periodic_new :: "timespec \<Rightarrow> u64 \<Rightarrow> periodic" where
  "periodic_new now nsecs = periodic_init now nsecs"

definition periodic_change_rate :: "periodic \<Rightarrow> u64 \<Rightarrow> periodic" where
  "periodic_change_rate pp nsecs = pp\<lparr>pd_ival := nsecs\<rparr>"

definition periodic_is_expired :: "timespec \<Rightarrow> timespec \<Rightarrow> bool" where
  "periodic_is_expired now expire =
     (if tv_sec now > tv_sec expire then True
      else if tv_sec now = tv_sec expire then tv_nsec now > tv_nsec expire
      else False)"

lemma periodic_is_expired_less: "periodic_is_expired now expire \<longleftrightarrow> expire < now"
  by (auto simp: periodic_is_expired_def less_timespec_def)

text \<open>
  \<open>nanosleep\<close> rejects a request outside the ranges below (\<open>EINVAL\<close>) and leaves it as it is,
  so the loop \<open>while (nanosleep(&ns, &ns) < 0)\<close> never ends on such a request; on a valid one it
  ends after the requested time, interruptions included, since an interrupted call stores the time
  that remains.
\<close>

definition nanosleep_valid :: "timespec \<Rightarrow> bool" where
  "nanosleep_valid ns \<longleftrightarrow> 0 \<le> tv_sec ns \<and> 0 \<le> tv_nsec ns \<and> tv_nsec ns \<le> 999999999"

definition periodic_expire :: "periodic \<Rightarrow> timespec" where
  "periodic_expire pp =
     (let sec = tv_sec (pd_timestamp pp);
          nsec = sint (word_of_int (tv_nsec (pd_timestamp pp)) + pd_ival pp)
      in if nsec > NSECS_IN_SEC then Timespec (sec + 1) (nsec - NSECS_IN_SEC) else Timespec sec nsec)"

definition periodic_sleep :: "timespec \<Rightarrow> timespec \<Rightarrow> timespec" where
  "periodic_sleep now expire =
     (if tv_nsec expire \<ge> tv_nsec now
      then Timespec (tv_sec expire - tv_sec now) (tv_nsec expire - tv_nsec now)
      else Timespec (tv_sec expire - tv_sec now - 1) (NSECS_IN_SEC + tv_nsec expire - tv_nsec now))"

text \<open>
  \<open>now\<close> and \<open>now'\<close> are the two clock readings; the result names the sleep asked for, if any.
\<close>

definition periodic_wait :: "periodic \<Rightarrow> timespec \<Rightarrow> timespec \<Rightarrow> (timespec option \<times> periodic) res" where
  "periodic_wait pp now now' =
     (let expire = periodic_expire pp
      in if \<not> periodic_is_expired now expire
         then (let ns = periodic_sleep now expire
               in bindE (requireE Hang (nanosleep_valid ns))
                    (\<lambda>_. Inr (Some ns, pp\<lparr>pd_timestamp := now'\<rparr>)))
         else Inr (None, pp\<lparr>pd_timestamp := now\<rparr>))"

lemma sint_add_small:
  assumes "0 \<le> n" "n < NSECS_IN_SEC" "uint w < 2 ^ 62"
  shows "sint (word_of_int n + w :: u64) = n + uint w"
proof -
  have "uint (word_of_int n + w) = (n + uint w) mod 2 ^ 64"
    by (simp add: uint_word_ariths uint_word_of_int mod_simps)
  also have "\<dots> = n + uint w" using assms by (intro mod_pos_pos_trivial) (auto simp: const_defs)
  finally have u: "uint (word_of_int n + w) = n + uint w" .
  have "n + uint w < 2 ^ 63" using assms by (simp add: const_defs)
  then show ?thesis
    unfolding u [symmetric] by (simp add: sint_uint signed_take_bit_eq_if_positive bit_iff_odd take_bit_int_eq_self)
qed

lemma periodic_expire_cases:
  assumes "ts_ok (pd_timestamp pp)" "uint (pd_ival pp) < 2 ^ 62"
  defines "n \<equiv> tv_nsec (pd_timestamp pp) + uint (pd_ival pp)"
  shows "periodic_expire pp =
     (if n > NSECS_IN_SEC then Timespec (tv_sec (pd_timestamp pp) + 1) (n - NSECS_IN_SEC)
      else Timespec (tv_sec (pd_timestamp pp)) n)"
  using assms sint_add_small [of "tv_nsec (pd_timestamp pp)" "pd_ival pp"]
  by (simp add: periodic_expire_def ts_ok_def)

lemma nanos_periodic_sleep: "nanos (periodic_sleep now expire) = nanos expire - nanos now"
  by (simp add: periodic_sleep_def nanos_def algebra_simps)

lemma periodic_sleep_valid:
  assumes "ts_ok now" "expire \<ge> now" "0 \<le> tv_nsec expire" "tv_nsec expire < NSECS_IN_SEC"
  shows "nanosleep_valid (periodic_sleep now expire)"
  using assms
  by (auto simp: periodic_sleep_def nanosleep_valid_def less_eq_timespec_def ts_defs)

lemma periodic_sleep_valid_full:
  assumes "ts_ok now" "expire \<ge> now" "tv_nsec expire = NSECS_IN_SEC" "0 < tv_nsec now"
  shows "nanosleep_valid (periodic_sleep now expire)"
  using assms
  by (auto simp: periodic_sleep_def nanosleep_valid_def less_eq_timespec_def ts_defs)

lemma nanos_periodic_expire:
  assumes "ts_ok (pd_timestamp pp)" "uint (pd_ival pp) < 2 ^ 62"
  shows "nanos (periodic_expire pp) = nanos (pd_timestamp pp) + uint (pd_ival pp)"
  by (simp add: periodic_expire_cases [OF assms] nanos_def algebra_simps)

lemma periodic_request_valid:
  assumes "ts_ok (pd_timestamp pp)" "ts_ok now" "pd_timestamp pp \<le> now"
    and "uint (pd_ival pp) < NSECS_IN_SEC" "now \<le> periodic_expire pp"
  shows "nanosleep_valid (periodic_sleep now (periodic_expire pp))"
proof (cases "tv_nsec (pd_timestamp pp) + uint (pd_ival pp) = NSECS_IN_SEC")
  case True
  have "uint (pd_ival pp) < 2 ^ 62" using assms(4) by (simp add: const_defs)
  then have e: "periodic_expire pp = Timespec (tv_sec (pd_timestamp pp)) NSECS_IN_SEC"
    using periodic_expire_cases [OF assms(1)] True by simp
  have "0 < tv_nsec (pd_timestamp pp)" using True assms(4) by linarith
  moreover have "tv_sec now \<le> tv_sec (pd_timestamp pp)"
    using assms(5) unfolding e by (auto simp: less_eq_timespec_def)
  ultimately have "0 < tv_nsec now"
    using assms(3) unfolding less_eq_timespec_def by linarith
  with e assms(2,5) show ?thesis by (intro periodic_sleep_valid_full) simp_all
next
  case False
  have "uint (pd_ival pp) < 2 ^ 62" using assms(4) by (simp add: const_defs)
  note e = periodic_expire_cases [OF assms(1) this]
  have "0 \<le> tv_nsec (periodic_expire pp)" "tv_nsec (periodic_expire pp) < NSECS_IN_SEC"
    using False assms(1,4) uint_ge_0 [of "pd_ival pp"] unfolding e ts_ok_def by simp_all
  with assms(2,5) show ?thesis by (intro periodic_sleep_valid)
qed

lemma periodic_wait_returns:
  assumes "ts_ok (pd_timestamp pp)" "ts_ok now" "pd_timestamp pp \<le> now"
    and "uint (pd_ival pp) < NSECS_IN_SEC"
  shows "\<exists>r. periodic_wait pp now now' = Inr r \<and>
     (case fst r of
        Some ns \<Rightarrow> nanosleep_valid ns \<and> snd r = pp\<lparr>pd_timestamp := now'\<rparr> \<and>
          nanos now + nanos ns = nanos (pd_timestamp pp) + uint (pd_ival pp)
      | None \<Rightarrow> nanos (pd_timestamp pp) + uint (pd_ival pp) \<le> nanos now \<and>
          snd r = pp\<lparr>pd_timestamp := now\<rparr>)"
proof -
  have i: "uint (pd_ival pp) < 2 ^ 62" using assms(4) by (simp add: const_defs)
  note n = nanos_periodic_expire [OF assms(1) i]
  show ?thesis
  proof (cases "periodic_expire pp < now")
    case True
    have "nanos (periodic_expire pp) \<le> nanos now"
      using True assms(1,2,4) periodic_expire_cases [OF assms(1) i]
      by (auto simp: less_timespec_def ts_defs split: if_splits)
    with True n show ?thesis by (simp add: periodic_wait_def periodic_is_expired_less)
  next
    case False
    then show ?thesis
      using periodic_request_valid [OF assms] n
      by (simp add: periodic_wait_def periodic_is_expired_less nanos_periodic_sleep not_less)
  qed
qed

text \<open>C39: with an interval below a second and a monotonic clock, \<open>periodic_wait\<close> always
  returns: it sleeps for exactly the time left until one interval after the last time stamp and
  stores the reading after the sleep, or, once that moment has come, does not sleep and stores the
  current reading.\<close>

theorem periodic_wait_keeps_period:
  assumes "ts_ok (pd_timestamp pp)" "ts_ok now" "pd_timestamp pp \<le> now"
    and "uint (pd_ival pp) < NSECS_IN_SEC"
  shows "\<exists>r. periodic_wait pp now now' = Inr r \<and>
     (case fst r of
        Some ns \<Rightarrow> nanosleep_valid ns \<and> snd r = pp\<lparr>pd_timestamp := now'\<rparr> \<and>
          nanos now + nanos ns = nanos (pd_timestamp pp) + uint (pd_ival pp)
      | None \<Rightarrow> nanos (pd_timestamp pp) + uint (pd_ival pp) \<le> nanos now \<and>
          snd r = pp\<lparr>pd_timestamp := now\<rparr>)"
  by (rule periodic_wait_returns [OF assms])

theorem periodic_wait_keeps_period_witness:
  "\<exists>r. periodic_wait (periodic_new (Timespec 3 999999000) 2000) (Timespec 4 400) (Timespec 4 1003) = Inr r \<and>
     fst r = Some (Timespec 0 600) \<and> pd_timestamp (snd r) = Timespec 4 1003"
  using periodic_wait_keeps_period [of "periodic_new (Timespec 3 999999000) 2000" "Timespec 4 400" "Timespec 4 1003"]
  by (auto simp: ts_defs less_eq_timespec_def periodic_new_def periodic_init_def periodic_wait_def
      periodic_expire_def periodic_sleep_def periodic_is_expired_def nanosleep_valid_def)

text \<open>C40: the expiry is normalised by one second only, so an interval of three seconds or more (a rate below a third of a
  packet per second) is never waited for. Called before the second after next of the last time stamp, \<open>periodic_wait\<close> passes
  an invalid request to \<open>nanosleep\<close> and its retry loop never ends; called later, when the interval may not be over yet, it
  takes it for expired and returns at once.\<close>

theorem periodic_wait_hangs_on_long_interval:
  assumes "ts_ok (pd_timestamp pp)" "ts_ok now" "3 * NSECS_IN_SEC \<le> uint (pd_ival pp)" "uint (pd_ival pp) < 2 ^ 62"
  shows "periodic_wait pp now now' =
    (if tv_sec now \<le> tv_sec (pd_timestamp pp) + 1 then Inl Hang else Inr (None, pp\<lparr>pd_timestamp := now\<rparr>))"
proof -
  have e: "periodic_expire pp = Timespec (tv_sec (pd_timestamp pp) + 1)
      (tv_nsec (pd_timestamp pp) + uint (pd_ival pp) - NSECS_IN_SEC)"
    using periodic_expire_cases [OF assms(1,4)] assms(1,3) by (simp add: ts_defs)
  have "tv_sec now \<le> tv_sec (pd_timestamp pp) + 1 \<Longrightarrow> \<not> nanosleep_valid (periodic_sleep now (periodic_expire pp))"
    using assms unfolding e by (auto simp: periodic_sleep_def nanosleep_valid_def ts_defs)
  moreover have "periodic_expire pp < now \<longleftrightarrow> \<not> tv_sec now \<le> tv_sec (pd_timestamp pp) + 1"
    using assms unfolding e by (auto simp: less_timespec_def ts_defs)
  ultimately show ?thesis by (simp add: periodic_wait_def periodic_is_expired_less)
qed

theorem periodic_wait_hangs_on_long_interval_witness:
  "periodic_wait (periodic_new (Timespec 100 0) 11744000000) (Timespec 100 2500) (Timespec 100 3000) = Inl Hang \<and>
   periodic_wait (periodic_new (Timespec 100 0) 11744000000) (Timespec 102 0) (Timespec 102 0) =
     Inr (None, periodic_new (Timespec 102 0) 11744000000)"
proof -
  let ?pp = "periodic_new (Timespec 100 0) 11744000000"
  have p: "ts_ok (pd_timestamp ?pp)" "3 * NSECS_IN_SEC \<le> uint (pd_ival ?pp)" "uint (pd_ival ?pp) < 2 ^ 62"
    and t: "ts_ok (Timespec 100 2500)" "ts_ok (Timespec 102 0)"
    by (simp_all add: ts_defs periodic_new_def periodic_init_def)
  from periodic_wait_hangs_on_long_interval [OF p(1) t(1) p(2,3), of "Timespec 100 3000"]
    periodic_wait_hangs_on_long_interval [OF p(1) t(2) p(2,3), of "Timespec 102 0"] show ?thesis
    by (simp add: periodic_new_def periodic_init_def)
qed

end
