(* ===== verification/Wire.thy ===== *)
theory Wire
  imports Prelude
begin

text \<open>
  The big-endian field accessors of \<open>src/src/iptfs.c\<close> (\<open>put32\<close>, \<open>put16\<close>, \<open>get32\<close>,
  \<open>get16\<close>), the interface that a fixed-width field promises its users (a locale), and the two
  widths as its instances.
\<close>

section \<open>Accessors\<close>

text \<open>
  A C buffer is a byte list and a pointer into it an offset. \<open>value >> k\<close> stored into a
  \<open>uint8_t\<close> keeps the low byte of the shifted word, which is the narrowing \<open>ucast\<close>.
\<close>

definition put32 :: "bytes \<Rightarrow> nat \<Rightarrow> u32 \<Rightarrow> bytes" where
  "put32 buf off v = buf[off := ucast (drop_bit 24 v), off + 1 := ucast (drop_bit 16 v),
                         off + 2 := ucast (drop_bit 8 v), off + 3 := ucast v]"

definition put16 :: "bytes \<Rightarrow> nat \<Rightarrow> u32 \<Rightarrow> bytes" where
  "put16 buf off v = buf[off := ucast (drop_bit 8 v), off + 1 := ucast v]"

definition get32 :: "bytes \<Rightarrow> nat \<Rightarrow> u32" where
  "get32 buf off = push_bit 24 (ucast (buf ! off)) + push_bit 16 (ucast (buf ! (off + 1))) +
                   push_bit 8 (ucast (buf ! (off + 2))) + ucast (buf ! (off + 3))"

definition get16 :: "bytes \<Rightarrow> nat \<Rightarrow> u16" where
  "get16 buf off = push_bit 8 (ucast (buf ! off)) + ucast (buf ! (off + 1))"

section \<open>Splitting a word into its bytes\<close>

lemma word32_of_bytes:
  "push_bit 24 (ucast a) + push_bit 16 (ucast b) + push_bit 8 (ucast c) + ucast d =
   (word_of_int (16777216 * uint a + 65536 * uint b + 256 * uint c + uint d) :: u32)"
  for a b c d :: u8
  by (simp add: word_uint_eq_iff uint_word_ariths uint_word_of_int unsigned_push_bit_eq
      unsigned_ucast_eq push_bit_eq_mult take_bit_eq_mod algebra_simps mod_simps)

lemma word16_of_bytes:
  "push_bit 8 (ucast a) + ucast b = (word_of_int (256 * uint a + uint b) :: u16)" for a b :: u8
  by (simp add: word_uint_eq_iff uint_word_ariths uint_word_of_int unsigned_push_bit_eq
      unsigned_ucast_eq push_bit_eq_mult take_bit_eq_mod algebra_simps mod_simps)

lemma base256_digits:
  "16777216 * (x div 16777216) + 65536 * (x div 65536 mod 256) + 256 * (x div 256 mod 256) +
   x mod 256 = (x :: int)"
proof -
  have *: "x div 65536 = x div 256 div 256" "x div 16777216 = x div 256 div 256 div 256"
    by (simp_all add: zdiv_zmult2_eq [symmetric])
  obtain y where y: "y = x div 256" by simp
  obtain z where z: "z = y div 256" by simp
  have "x = 256 * y + x mod 256" "y = 256 * z + y mod 256" "z = 256 * (z div 256) + z mod 256"
    unfolding y z by simp_all
  then show ?thesis unfolding * y [symmetric] z [symmetric] by linarith
qed

lemma base256_low16: "256 * (x div 256 mod 256) + x mod 256 = (x :: int) mod 65536"
  using zmod_zmult2_eq [of 256 x 256] by simp

lemma uint_drop_u32: "uint (drop_bit n v) = uint v div 2 ^ n" for v :: u32
  by (simp add: drop_bit_eq_div [symmetric] unsigned_drop_bit_eq take_bit_eq_mod
      uint_idem [where 'a = 32, simplified])

lemma uint_byte: "uint (ucast (drop_bit n v) :: u8) = uint v div 2 ^ n mod 256" for v :: u32
  by (simp only: unsigned_ucast_eq uint_drop_u32 take_bit_eq_mod) simp

lemma uint_byte0: "uint (ucast v :: u8) = uint v mod 256" for v :: u32
  by (simp add: unsigned_ucast_eq take_bit_eq_mod)

lemma uint_byte1: "uint (ucast (drop_bit 8 v) :: u8) = uint v div 256 mod 256" for v :: u32
  unfolding uint_byte by simp

lemma uint_byte2: "uint (ucast (drop_bit 16 v) :: u8) = uint v div 65536 mod 256" for v :: u32
  unfolding uint_byte by simp

lemma uint_byte3: "uint (ucast (drop_bit 24 v) :: u8) = uint v div 16777216" for v :: u32
proof -
  have "uint v div 16777216 < 256"
    using uint_lt2p [of v] by (auto simp: div_less_iff_less_mult)
  then show ?thesis unfolding uint_byte by (simp add: pos_imp_zdiv_nonneg_iff)
qed

lemma word32_bytes:
  "push_bit 24 (ucast (ucast (drop_bit 24 v) :: u8)) + push_bit 16 (ucast (ucast (drop_bit 16 v) :: u8)) +
   push_bit 8 (ucast (ucast (drop_bit 8 v) :: u8)) + ucast (ucast v :: u8) = v" for v :: u32
  unfolding word32_of_bytes uint_byte3 uint_byte2 uint_byte1
  by (simp only: uint_byte0 base256_digits word_of_int_uint)

lemma uint_word16_of_bytes:
  "uint (push_bit 8 (ucast a) + ucast b :: u16) = 256 * uint a + uint b" for a b :: u8
proof -
  have "256 * uint a + uint b < 2 ^ LENGTH(16)"
    using uint_lt2p [of a] uint_lt2p [of b] by simp
  then have "(256 * uint a + uint b) mod 2 ^ LENGTH(16) = 256 * uint a + uint b"
    by (intro mod_pos_pos_trivial) auto
  then show ?thesis by (simp only: word16_of_bytes uint_word_of_int)
qed

lemma word16_bytes:
  "push_bit 8 (ucast (ucast (drop_bit 8 v) :: u8)) + ucast (ucast v :: u8) = (ucast v :: u16)" for v :: u32
proof -
  have "uint (ucast v :: u16) = uint v mod 65536"
    by (simp only: unsigned_ucast_eq take_bit_eq_mod) simp
  then show ?thesis
    unfolding word_uint_eq_iff uint_word16_of_bytes uint_byte1
    by (simp only: uint_byte0 base256_low16)
qed

lemma byte_eqI: "uint a = uint b \<Longrightarrow> a = b" for a b :: u8
  by (simp add: word_uint_eq_iff)

lemma digits_unique:
  fixes a b c d x :: int
  assumes "x = 16777216 * a + 65536 * b + 256 * c + d"
    and "0 \<le> b" "b < 256" "0 \<le> c" "c < 256" "0 \<le> d" "d < 256"
  shows "x div 16777216 = a" "x div 65536 mod 256 = b" "x div 256 mod 256 = c" "x mod 256 = d"
proof -
  show "x div 16777216 = a"
    by (rule int_div_pos_eq [of _ _ _ "65536 * b + 256 * c + d"]) (use assms in auto)
  have "x div 65536 = 256 * a + b"
    by (rule int_div_pos_eq [of _ _ _ "256 * c + d"]) (use assms in auto)
  then show "x div 65536 mod 256 = b" using assms by simp
  have "x div 256 = 256 * (256 * a + b) + c"
    by (rule int_div_pos_eq [of _ _ _ d]) (use assms in auto)
  then show "x div 256 mod 256 = c"
    by (simp only:) (rule int_mod_pos_eq [of _ _ "256 * a + b"], use assms in auto)
  show "x mod 256 = d"
    by (rule int_mod_pos_eq [of _ _ "65536 * a + 256 * b + c"]) (use assms in auto)
qed

lemma uint_u8_less: "uint a < 256" for a :: u8
  using uint_lt2p [of a] by simp

lemma bytes_of_word32:
  fixes a b c d :: u8 and v :: u32
  assumes "v = push_bit 24 (ucast a) + push_bit 16 (ucast b) + push_bit 8 (ucast c) + ucast d"
  shows "ucast (drop_bit 24 v) = a" "ucast (drop_bit 16 v) = b" "ucast (drop_bit 8 v) = c" "ucast v = d"
proof -
  have "16777216 * uint a + 65536 * uint b + 256 * uint c + uint d < 2 ^ LENGTH(32)"
    using uint_u8_less [of a] uint_u8_less [of b] uint_u8_less [of c] uint_u8_less [of d] by simp
  then have "(16777216 * uint a + 65536 * uint b + 256 * uint c + uint d) mod 2 ^ LENGTH(32) =
      16777216 * uint a + 65536 * uint b + 256 * uint c + uint d"
    by (intro mod_pos_pos_trivial) auto
  then have "uint v = 16777216 * uint a + 65536 * uint b + 256 * uint c + uint d"
    by (simp only: assms word32_of_bytes uint_word_of_int)
  note * = digits_unique [OF this uint_ge_0 uint_u8_less uint_ge_0 uint_u8_less uint_ge_0 uint_u8_less]
  show "ucast (drop_bit 24 v) = a" by (rule byte_eqI) (simp only: uint_byte3 *(1))
  show "ucast (drop_bit 16 v) = b" by (rule byte_eqI) (simp only: uint_byte2 *(2))
  show "ucast (drop_bit 8 v) = c" by (rule byte_eqI) (simp only: uint_byte1 *(3))
  show "ucast v = d" by (rule byte_eqI) (simp only: uint_byte0 *(4))
qed

lemma bytes_of_word16:
  fixes a b :: u8 and v :: u16
  assumes "v = push_bit 8 (ucast a) + ucast b"
  shows "ucast (drop_bit 8 (ucast v :: u32)) = a" "ucast (ucast v :: u32) = b"
proof -
  have "uint (ucast v :: u32) = 16777216 * 0 + 65536 * 0 + 256 * uint a + uint b"
    by (simp add: unsigned_ucast_eq take_bit_eq_mod assms uint_word16_of_bytes)
       (use uint_u8_less [of a] uint_u8_less [of b] in simp)
  note * = digits_unique [OF this order.refl zero_less_numeral uint_ge_0 uint_u8_less uint_ge_0 uint_u8_less]
  show "ucast (drop_bit 8 (ucast v :: u32)) = a" by (rule byte_eqI) (simp only: uint_byte1 *(3))
  show "ucast (ucast v :: u32) = b" by (rule byte_eqI) (simp only: uint_byte0 *(4))
qed

section \<open>The interface of a fixed-width field\<close>

text \<open>
  A field of \<open>width\<close> bytes can be written and read at any offset of a buffer: writing does not
  change the buffer's length nor any byte outside the field, reading depends on the field's own
  bytes only, and the two are inverse to each other.
\<close>

locale wire_field =
  fixes put :: "bytes \<Rightarrow> nat \<Rightarrow> 'v \<Rightarrow> bytes"
    and get :: "bytes \<Rightarrow> nat \<Rightarrow> 'v"
    and width :: nat
  assumes put_length: "length (put buf off v) = length buf"
    and get_put: "off + width \<le> length buf \<Longrightarrow> get (put buf off v) off = v"
    and put_get: "off + width \<le> length buf \<Longrightarrow> put buf off (get buf off) = buf"
    and put_frame: "i < off \<or> off + width \<le> i \<Longrightarrow> put buf off v ! i = buf ! i"
    and get_local: "(\<And>i. i < width \<Longrightarrow> a ! (off + i) = b ! (off' + i)) \<Longrightarrow> get a off = get b off'"
begin

lemma get_put_other:
  "off + width \<le> p \<or> p + width \<le> off \<Longrightarrow> get (put buf off v) p = get buf p"
  by (rule get_local) (auto intro!: put_frame)

lemma get_append: "off + width \<le> length a \<Longrightarrow> get (a @ b) off = get a off"
  by (rule get_local) (simp add: nth_append)

lemma get_append_right: "length a \<le> off \<Longrightarrow> get (a @ b) off = get b (off - length a)"
  by (rule get_local) (simp add: nth_append)

lemma get_subseg: "k + width \<le> n \<Longrightarrow> off + n \<le> length a \<Longrightarrow> get (subseg off n a) k = get a (off + k)"
  by (rule get_local) (simp add: subseg_nth add.assoc)

lemma get_take: "off + width \<le> n \<Longrightarrow> get (take n a) off = get a off"
  by (rule get_local) simp

lemma put_inj: "off + width \<le> length buf \<Longrightarrow> put buf off v = put buf off v' \<Longrightarrow> v = v'"
  using get_put by metis

end

lemma length_put32 [simp]: "length (put32 buf off v) = length buf"
  by (simp add: put32_def)

lemma length_put16 [simp]: "length (put16 buf off v) = length buf"
  by (simp add: put16_def)

interpretation w32: wire_field put32 get32 4
proof
  show "length (put32 buf off v) = length buf" for buf off v by simp
  show "off + 4 \<le> length buf \<Longrightarrow> get32 (put32 buf off v) off = v" for off buf v
    unfolding get32_def put32_def by (simp add: nth_list_update word32_bytes del: ucast_drop_bit_eq)
  show "off + 4 \<le> length buf \<Longrightarrow> put32 buf off (get32 buf off) = buf" for off buf
    unfolding put32_def using bytes_of_word32 [OF get32_def, of buf off]
    by (simp del: list_update_overwrite)
  show "i < off \<or> off + 4 \<le> i \<Longrightarrow> put32 buf off v ! i = buf ! i" for i off buf v
    unfolding put32_def by (auto simp: nth_list_update)
  show "(\<And>i. i < 4 \<Longrightarrow> a ! (off + i) = b ! (off' + i)) \<Longrightarrow> get32 a off = get32 b off'" for a b off off'
    unfolding get32_def by (metis add.right_neutral numeral_less_iff one_less_numeral_iff rel_simps(51)
        semiring_norm(76-81) zero_less_numeral)
qed

interpretation w16: wire_field "\<lambda>buf off v. put16 buf off (ucast v)" get16 2
proof
  show "length (put16 buf off (ucast v)) = length buf" for buf off and v :: u16 by simp
  show "off + 2 \<le> length buf \<Longrightarrow> get16 (put16 buf off (ucast v)) off = v" for off buf v
    unfolding get16_def put16_def by (simp add: nth_list_update word16_bytes ucast_up_ucast_id is_up)
  show "off + 2 \<le> length buf \<Longrightarrow> put16 buf off (ucast (get16 buf off)) = buf" for off buf
    unfolding put16_def using bytes_of_word16 [OF get16_def, of buf off]
    by simp
  show "i < off \<or> off + 2 \<le> i \<Longrightarrow> put16 buf off (ucast v) ! i = buf ! i" for i off buf and v :: u16
    unfolding put16_def by (auto simp: nth_list_update)
  show "(\<And>i. i < 2 \<Longrightarrow> a ! (off + i) = b ! (off' + i)) \<Longrightarrow> get16 a off = get16 b off'" for a b off off'
    unfolding get16_def by (metis add.right_neutral one_less_numeral_iff semiring_norm(76) zero_less_numeral)
qed

section \<open>The property\<close>

text \<open>C15: header fields survive. A 32-bit and a 16-bit field written at disjoint places of a buffer are both
  read back as written, whatever the bytes were before, and no other byte and not the length of the buffer change.\<close>

theorem header_fields_roundtrip:
  fixes w :: u16 and v :: u32
  assumes "off + 4 \<le> length buf" "off' + 2 \<le> length buf" "off + 4 \<le> off' \<or> off' + 2 \<le> off"
  defines "buf' \<equiv> put16 (put32 buf off v) off' (ucast w)"
  shows "get32 buf' off = v \<and> get16 buf' off' = w \<and> length buf' = length buf \<and>
    (\<forall>i. (i < off \<or> off + 4 \<le> i) \<and> (i < off' \<or> off' + 2 \<le> i) \<longrightarrow> buf' ! i = buf ! i)"
proof -
  have "get32 buf' off = get32 (put32 buf off v) off"
    unfolding buf'_def by (rule w32.get_local, rule w16.put_frame) (use assms(3) in linarith)
  then have "get32 buf' off = v" using w32.get_put [OF assms(1)] by simp
  moreover have "get16 buf' off' = w" unfolding buf'_def using assms(2) by (intro w16.get_put) simp
  moreover have "buf' ! i = buf ! i" if "i < off \<or> off + 4 \<le> i" "i < off' \<or> off' + 2 \<le> i" for i
    unfolding buf'_def using that by (simp only: w16.put_frame w32.put_frame)
  ultimately show ?thesis by (simp add: buf'_def)
qed

theorem header_fields_roundtrip_witness:
  "get32 (put16 (put32 (replicate 8 0) 0 0xDEADBEEF) 6 (ucast (513 :: u16))) 0 = 0xDEADBEEF \<and>
   get16 (put16 (put32 (replicate 8 0) 0 0xDEADBEEF) 6 (ucast (513 :: u16))) 6 = 513"
  using header_fields_roundtrip [of 0 "replicate 8 0" 6 "0xDEADBEEF" 513] by simp

end
