(* ===== verification/Framing.thy ===== *)
theory Framing
  imports Wire
begin

text \<open>
  What a tunnel packet means, on byte lists: the specification that the sender (\<open>write_tfs_pkt\<close>)
  and the receiver (\<open>add_to_inner_packet\<close>) of \<open>src/src/iptfs.c\<close> are shown to implement in the
  theories \<open>Ingress\<close> and \<open>Egress\<close>. A tunnel packet carries the offset of the first inner packet that starts in
  it and a payload of inner packets, the first and the last possibly in part, with zero bytes as padding.
\<close>

section \<open>Receiver: cutting a payload into inner packets\<close>

definition is_pad :: "bytes \<Rightarrow> bool" where
  "is_pad d \<longleftrightarrow> d ! 0 AND 0xF0 = 0"

text \<open>The length the first bytes of an inner packet announce; 0 when it cannot be told.\<close>

definition block_len :: "bytes \<Rightarrow> nat" where
  "block_len d =
     (let vnib = d ! 0 AND 0xF0
      in if vnib = 0x40 then (if length d \<ge> 4 then unat (get16 d 2) else 0)
         else if vnib = 0x60 then (if length d \<ge> 6 then unat (get16 d 4) else 0)
         else 0)"

text \<open>
  Between two tunnel packets the receiver is idle, or holds the first bytes of an inner packet and
  the number of bytes to come, or holds a beginning too short to tell.
\<close>

datatype rx = RxIdle | RxPartial bytes nat | RxShort bytes

function rx_blocks :: "bytes \<Rightarrow> bytes list \<times> rx" where
  "rx_blocks d =
     (if d = [] \<or> is_pad d then ([], RxIdle)
      else if block_len d = 0 then ([], RxShort d)
      else if length d < block_len d then ([], RxPartial d (block_len d - length d))
      else let r = rx_blocks (drop (block_len d) d) in (take (block_len d) d # fst r, snd r))"
  by pat_completeness auto
termination
  by (relation "measure length") auto

declare rx_blocks.simps [simp del]

definition rx_packet :: "nat \<Rightarrow> bytes \<Rightarrow> rx \<Rightarrow> (bytes list \<times> rx) res" where
  "rx_packet off d r =
     (case r of
        RxIdle \<Rightarrow> Inr (if off \<ge> length d then ([], RxIdle) else rx_blocks (drop off d))
      | RxPartial acc left \<Rightarrow>
          if off > length d
          then (if left > length d then Inr ([], RxPartial (acc @ d) (left - length d))
                else Inr ([acc @ take left d], RxIdle))
          else if left = off
          then (let b = rx_blocks (drop off d) in Inr ((acc @ take off d) # fst b, snd b))
          else Inl Assertion
      | RxShort acc \<Rightarrow> Inl Assertion)"

section \<open>Sender: filling a payload\<close>

text \<open>
  \<open>q\<close> lists the inner packets in the order the queue would hand them out; \<open>one\<close> and
  \<open>dont\<close> are the flags \<open>g_oneonly\<close> and \<open>g_dontfrag\<close>.
\<close>

definition tx_next :: "bool \<Rightarrow> bool \<Rightarrow> nat \<Rightarrow> bytes list \<Rightarrow> bytes option \<times> bytes list" where
  "tx_next one dont room q =
     (if room > 6 \<and> \<not> one
      then (case q of [] \<Rightarrow> (None, []) | p # ps \<Rightarrow> if dont \<and> length p > room then (None, q) else (Some p, ps))
      else (None, q))"

function tx_loop :: "bool \<Rightarrow> bool \<Rightarrow> nat \<Rightarrow> bytes option \<Rightarrow> bytes list \<Rightarrow> bytes \<times> bytes option \<times> bytes list" where
  "tx_loop one dont room m q =
     (case m of
        None \<Rightarrow> (replicate room 0, None, q)
      | Some p \<Rightarrow>
          if room \<le> 6 then (replicate room 0, None, q)
          else if length p > room then (take room p, Some (drop room p), q)
          else (let n = tx_next one dont (room - length p) q;
                    r = tx_loop one dont (room - length p) (fst n) (snd n)
                in (p @ fst r, snd r)))"
  by pat_completeness auto
termination
  by (relation "measure (\<lambda>(one, dont, room, m, q). length q + (if m = None then 0 else 1))")
     (auto simp: tx_next_def split: list.splits if_splits)

declare tx_loop.simps [simp del]

text \<open>
  One tunnel packet for a payload of \<open>room\<close> bytes: its offset field, its payload, the rest of an
  inner packet that did not fit, and the queue afterwards; no packet at all in one-only mode without data.
\<close>

definition tx_packet :: "bool \<Rightarrow> bool \<Rightarrow> nat \<Rightarrow> bytes option \<Rightarrow> bytes list \<Rightarrow>
    ((nat \<times> bytes) option \<times> bytes option \<times> bytes list)" where
  "tx_packet one dont room lo q =
     (case lo of
        Some p \<Rightarrow> let r = tx_loop one dont room (Some p) q
                  in (Some (length p mod 2 ^ 16, fst r), snd r)
      | None \<Rightarrow>
          (case q of
             [] \<Rightarrow> (if one then None else Some (0, replicate room 0), None, [])
           | p # ps \<Rightarrow> let r = tx_loop one dont room (Some p) ps in (Some (0, fst r), snd r)))"

section \<open>Inner packets the format can carry\<close>

definition inner_ok :: "bytes \<Rightarrow> bool" where
  "inner_ok p \<longleftrightarrow> 7 \<le> length p \<and> \<not> is_pad p \<and> block_len p = length p"

definition ipv4_ok :: "bytes \<Rightarrow> bool" where
  "ipv4_ok p \<longleftrightarrow> 20 \<le> length p \<and> p ! 0 AND 0xF0 = 0x40 \<and> unat (get16 p 2) = length p"

text \<open>The length field of IPv6 does not count the header of 40 bytes.\<close>

definition ipv6_ok :: "bytes \<Rightarrow> bool" where
  "ipv6_ok p \<longleftrightarrow> 40 \<le> length p \<and> p ! 0 AND 0xF0 = 0x60 \<and> unat (get16 p 4) = length p - 40"

lemma ipv4_inner_ok: "ipv4_ok p \<Longrightarrow> inner_ok p"
  by (auto simp: ipv4_ok_def inner_ok_def is_pad_def block_len_def)

lemma ipv6_not_inner_ok: "ipv6_ok p \<Longrightarrow> \<not> inner_ok p"
  by (auto simp: ipv6_ok_def inner_ok_def block_len_def)

lemma rx_blocks_ipv6:
  assumes "ipv6_ok p" "40 < length p"
  shows "rx_blocks (p @ q) =
    (take (length p - 40) p # fst (rx_blocks (drop (length p - 40) p @ q)), snd (rx_blocks (drop (length p - 40) p @ q)))"
proof -
  have "p \<noteq> []" using assms(2) by auto
  then have h: "(p @ q) ! 0 AND 0xF0 = 0x60" "get16 (p @ q) 4 = get16 p 4"
    using assms by (simp_all add: ipv6_ok_def nth_append w16.get_append)
  then have "block_len (p @ q) = length p - 40" "\<not> is_pad (p @ q)"
    using assms unfolding block_len_def is_pad_def h by (simp_all add: ipv6_ok_def)
  with assms show ?thesis by (subst rx_blocks.simps) (auto simp: Let_def)
qed

lemma block_len_append: "6 \<le> length d \<Longrightarrow> block_len (d @ e) = block_len d"
proof -
  assume len: "6 \<le> length d"
  then have "(d @ e) ! 0 = d ! 0" by (cases d) auto
  with len show ?thesis by (simp add: block_len_def w16.get_append Let_def)
qed

lemma block_len_take: "6 \<le> k \<Longrightarrow> k \<le> length d \<Longrightarrow> block_len (take k d) = block_len d"
  using block_len_append [of "take k d" "drop k d"] by simp

lemma is_pad_append: "d \<noteq> [] \<Longrightarrow> is_pad (d @ e) = is_pad d"
  by (cases d) (simp_all add: is_pad_def)

lemma is_pad_take: "0 < k \<Longrightarrow> is_pad (take k d) = is_pad d"
  by (simp add: is_pad_def)

lemma block_len_less: "block_len d < 65536"
  by (auto simp: block_len_def Let_def unat_u16_less)

lemma inner_ok_less: "inner_ok p \<Longrightarrow> length p < 65536"
  using block_len_less [of p] by (simp add: inner_ok_def)

lemma rx_blocks_Nil [simp]: "rx_blocks [] = ([], RxIdle)"
  by (simp add: rx_blocks.simps)

lemma rx_blocks_pad [simp]: "rx_blocks (replicate n 0) = ([], RxIdle)"
  by (cases n) (simp_all add: rx_blocks.simps is_pad_def)

lemma rx_blocks_whole:
  assumes "inner_ok p"
  shows "rx_blocks (p @ d) = (p # fst (rx_blocks d), snd (rx_blocks d))"
proof -
  from assms have "p \<noteq> []" by (auto simp: inner_ok_def)
  with assms have "\<not> is_pad (p @ d)" "block_len (p @ d) = length p"
    by (simp_all add: inner_ok_def is_pad_append block_len_append)
  with \<open>p \<noteq> []\<close> show ?thesis by (subst rx_blocks.simps) (simp add: Let_def)
qed

lemma rx_blocks_cut:
  assumes "inner_ok p" "6 < k" "k < length p"
  shows "rx_blocks (take k p) = ([], RxPartial (take k p) (length p - k))"
proof -
  from assms have "take k p \<noteq> []" "\<not> is_pad (take k p)" "block_len (take k p) = length p"
    by (auto simp: inner_ok_def is_pad_take block_len_take)
  with assms show ?thesis by (subst rx_blocks.simps) simp
qed

section \<open>What the receiver makes of what the sender fills\<close>

text \<open>The inner packet of which sender and receiver each hold a part.\<close>

fun in_flight :: "bytes option \<Rightarrow> rx \<Rightarrow> bytes list" where
  "in_flight (Some l) (RxPartial acc n) = [acc @ l]"
| "in_flight _ _ = []"

text \<open>The two ends agree: nothing in flight, or a cut inner packet with the right number of bytes to come.\<close>

fun in_step :: "bytes option \<Rightarrow> rx \<Rightarrow> bool" where
  "in_step None RxIdle = True"
| "in_step (Some l) (RxPartial acc n) = (n = length l \<and> l \<noteq> [] \<and> length (acc @ l) < 65536)"
| "in_step _ _ = False"

lemma tx_next_cases:
  "tx_next one dont room q = (None, q) \<or>
   (\<exists>p ps. q = p # ps \<and> room > 6 \<and> tx_next one dont room q = (Some p, ps))"
  by (cases q) (auto simp: tx_next_def)

lemma tx_loop_rx_blocks:
  assumes "\<forall>p \<in> set_option m. inner_ok p \<and> room > 6" "\<forall>p \<in> set q. inner_ok p"
    and "tx_loop one dont room m q = (out, lo, q')"
  shows "length out = room \<and> in_step lo (snd (rx_blocks out)) \<and>
    (case m of None \<Rightarrow> [] | Some p \<Rightarrow> [p]) @ q = fst (rx_blocks out) @ in_flight lo (snd (rx_blocks out)) @ q'"
  using assms
proof (induction one dont room m q arbitrary: out rule: tx_loop.induct)
  case (1 one dont room m q)
  show ?case
  proof (cases m)
    case None
    with "1.prems"(3) show ?thesis by (auto simp: tx_loop.simps)
  next
    case (Some p)
    with "1.prems" have p: "inner_ok p" and room: "\<not> room \<le> 6" by auto
    show ?thesis
    proof (cases "room < length p")
      case True
      with Some room "1.prems"(3) have "out = take room p" "lo = Some (drop room p)" "q' = q"
        by (auto simp: tx_loop.simps)
      with True Some p room rx_blocks_cut [OF p, of room] inner_ok_less [OF p] show ?thesis by auto
    next
      case False
      define n where "n = tx_next one dont (room - length p) q"
      define out' where "out' = fst (tx_loop one dont (room - length p) (fst n) (snd n))"
      have out: "out = p @ out'" and "snd (tx_loop one dont (room - length p) (fst n) (snd n)) = (lo, q')"
        using "1.prems"(3) Some room False
        by (simp_all add: tx_loop.simps [of one dont room] n_def [symmetric] out'_def Let_def)
      then have r: "tx_loop one dont (room - length p) (fst n) (snd n) = (out', lo, q')"
        by (simp add: prod_eq_iff out'_def)
      have n: "n = (None, q) \<or> (\<exists>x xs. q = x # xs \<and> room - length p > 6 \<and> n = (Some x, xs))"
        unfolding n_def by (rule tx_next_cases)
      then have "\<forall>x \<in> set_option (fst n). inner_ok x \<and> 6 < room - length p" "\<forall>x \<in> set (snd n). inner_ok x"
        and q: "(case fst n of None \<Rightarrow> [] | Some p \<Rightarrow> [p]) @ snd n = q"
        using "1.prems"(2) by auto
      from "1.IH" [OF Some room False n_def this(1,2) r] r
      show ?thesis using q Some False rx_blocks_whole [OF p, of out'] unfolding out by auto
    qed
  qed
qed

text \<open>One packet: what was in flight and what is taken from the queue comes out, in that order,
  as complete inner packets and what is in flight afterwards.\<close>

lemma tx_packet_rx_packet:
  assumes "in_step lo r" "\<forall>p \<in> set q. inner_ok p" "7 \<le> room"
    and "tx_packet one dont room lo q = (Some (off, d), lo', q')"
  shows "\<exists>ds r'. rx_packet off d r = Inr (ds, r') \<and> in_step lo' r' \<and> length d = room \<and>
    in_flight lo r @ q = ds @ in_flight lo' r' @ q'"
proof (cases lo)
  case None
  with assms(1) have r: "r = RxIdle" by (cases r) auto
  show ?thesis
  proof (cases q)
    case Nil
    with None assms(4) r show ?thesis
      by (auto simp: tx_packet_def rx_packet_def split: if_splits)
  next
    case (Cons p ps)
    with None assms(4) have t: "tx_loop one dont room (Some p) ps = (d, lo', q')" and "off = 0"
      by (auto simp: tx_packet_def Let_def prod_eq_iff)
    with tx_loop_rx_blocks [OF _ _ t] Cons assms(2,3) None r show ?thesis
      by (auto simp: rx_packet_def prod_eq_iff)
  qed
next
  case (Some l)
  with assms(1) obtain acc where r: "r = RxPartial acc (length l)" and l: "l \<noteq> []"
    and small: "length (acc @ l) < 65536" by (cases r) auto
  from Some assms(4) have t: "tx_loop one dont room (Some l) q = (d, lo', q')"
    and off: "off = length l mod 2 ^ 16"
    by (auto simp: tx_packet_def Let_def prod_eq_iff)
  have off: "off = length l" using small off by simp
  show ?thesis
  proof (cases "room < length l")
    case True
    with t assms(3) have "d = take room l" "lo' = Some (drop room l)" "q' = q"
      by (auto simp: tx_loop.simps)
    with True r off Some small l show ?thesis by (auto simp: rx_packet_def)
  next
    case False
    define n where "n = tx_next one dont (room - length l) q"
    define out where "out = fst (tx_loop one dont (room - length l) (fst n) (snd n))"
    have d: "d = l @ out" and t': "tx_loop one dont (room - length l) (fst n) (snd n) = (out, lo', q')"
      using t False assms(3)
      by (simp_all add: tx_loop.simps [of one dont room] n_def [symmetric] out_def Let_def prod_eq_iff)
    have n: "n = (None, q) \<or> (\<exists>x xs. q = x # xs \<and> room - length l > 6 \<and> n = (Some x, xs))"
      unfolding n_def by (rule tx_next_cases)
    then have a: "\<forall>x \<in> set_option (fst n). inner_ok x \<and> 6 < room - length l" "\<forall>x \<in> set (snd n). inner_ok x"
      and q: "(case fst n of None \<Rightarrow> [] | Some p \<Rightarrow> [p]) @ snd n = q"
      using assms(2) by auto
    from tx_loop_rx_blocks [OF a t'] show ?thesis
      using q r Some off False unfolding d by (auto simp: rx_packet_def Let_def)
  qed
qed

text \<open>
  A run of the sender: \<open>qs\<close> gives the queue as each packet finds it, so packets may arrive at it in
  between in any order; the result lists the tunnel packets and the inner packets taken.
\<close>

fun tx_run :: "bool \<Rightarrow> bool \<Rightarrow> nat \<Rightarrow> bytes option \<Rightarrow> bytes list list \<Rightarrow> (nat \<times> bytes) list \<times> bytes list \<times> bytes option" where
  "tx_run one dont room lo [] = ([], [], lo)"
| "tx_run one dont room lo (q # qs) =
     (let (pkt, lo', q') = tx_packet one dont room lo q;
          (pkts, taken, lo'') = tx_run one dont room lo' qs
      in (case pkt of None \<Rightarrow> pkts | Some x \<Rightarrow> x # pkts, take (length q - length q') q @ taken, lo''))"

fun rx_run :: "(nat \<times> bytes) list \<Rightarrow> rx \<Rightarrow> (bytes list \<times> rx) res" where
  "rx_run [] r = Inr ([], r)"
| "rx_run ((off, d) # ps) r =
     bindE (rx_packet off d r) (\<lambda>(ds, r'). bindE (rx_run ps r') (\<lambda>(es, r''). Inr (ds @ es, r'')))"

lemma tx_next_suffix: "\<exists>us. q = us @ snd (tx_next one dont room q)"
  by (auto simp: tx_next_def split: list.splits)

lemma tx_loop_suffix: "\<exists>us. q = us @ snd (snd (tx_loop one dont room m q))"
proof (induction one dont room m q rule: tx_loop.induct)
  case (1 one dont room m q)
  show ?case
  proof (cases "\<exists>p. m = Some p \<and> \<not> room \<le> 6 \<and> \<not> room < length p")
    case True
    then obtain p where p: "m = Some p" "\<not> room \<le> 6" "\<not> room < length p" by blast
    let ?n = "tx_next one dont (room - length p) q"
    from "1.IH" [OF p refl] obtain us where
      "snd ?n = us @ snd (snd (tx_loop one dont (room - length p) (fst ?n) (snd ?n)))" by blast
    moreover obtain vs where "q = vs @ snd ?n" using tx_next_suffix by blast
    ultimately have "q = (vs @ us) @ snd (snd (tx_loop one dont (room - length p) (fst ?n) (snd ?n)))" by simp
    with p show ?thesis by (subst tx_loop.simps) (simp add: Let_def, metis append.assoc)
  next
    case False
    then show ?thesis by (subst tx_loop.simps) (auto split: option.splits)
  qed
qed

lemma tx_packet_suffix: "\<exists>us. q = us @ snd (snd (tx_packet one dont room lo q))"
proof (cases lo)
  case None
  show ?thesis
  proof (cases q)
    case Nil
    then show ?thesis using None by (simp add: tx_packet_def)
  next
    case (Cons p ps)
    then show ?thesis using None tx_loop_suffix [of ps one dont room "Some p"]
      by (auto simp: tx_packet_def Let_def) (metis append_Cons)
  qed
next
  case (Some l)
  then show ?thesis using tx_loop_suffix [of q one dont room "Some l"] by (simp add: tx_packet_def Let_def)
qed

lemma tx_packet_none:
  "tx_packet one dont room lo q = (None, lo', q') \<Longrightarrow> lo = None \<and> lo' = None \<and> q = [] \<and> q' = []"
  by (auto simp: tx_packet_def Let_def split: option.splits list.splits if_splits)

lemma rx_run_tx_run:
  assumes "in_step lo r" "\<forall>q \<in> set qs. \<forall>p \<in> set q. inner_ok p" "7 \<le> room"
    and "tx_run one dont room lo qs = (pkts, taken, lo')"
  shows "\<exists>ds r'. rx_run pkts r = Inr (ds, r') \<and> in_step lo' r' \<and>
    in_flight lo r @ taken = ds @ in_flight lo' r'"
  using assms
proof (induction qs arbitrary: lo r pkts taken)
  case Nil
  then show ?case by simp
next
  case (Cons q qs)
  obtain pkt lo1 q1 where t: "tx_packet one dont room lo q = (pkt, lo1, q1)" by (metis prod_cases3)
  obtain pkts1 taken1 where run: "tx_run one dont room lo1 qs = (pkts1, taken1, lo')"
    and taken: "taken = take (length q - length q1) q @ taken1"
    and pkts: "pkts = (case pkt of None \<Rightarrow> pkts1 | Some x \<Rightarrow> x # pkts1)"
    using Cons.prems(4) t by (auto simp: split: prod.splits)
  obtain us where us: "q = us @ q1" using tx_packet_suffix [of q one dont room lo] t by auto
  show ?case
  proof (cases pkt)
    case None
    with tx_packet_none t have "lo1 = lo" "q = []" by blast+
    with Cons.IH [OF _ _ _ run] Cons.prems None pkts taken show ?thesis by auto
  next
    case (Some x)
    obtain off d where x: "x = (off, d)" by fastforce
    from tx_packet_rx_packet [OF Cons.prems(1) _ Cons.prems(3)] Cons.prems(2) t Some x
    obtain ds r1 where 1: "rx_packet off d r = Inr (ds, r1)" "in_step lo1 r1"
      "in_flight lo r @ q = ds @ in_flight lo1 r1 @ q1" by force
    from Cons.IH [OF 1(2) _ Cons.prems(3) run] Cons.prems(2) obtain es r2 where
      2: "rx_run pkts1 r1 = Inr (es, r2)" "in_step lo' r2" "in_flight lo1 r1 @ taken1 = es @ in_flight lo' r2"
      by auto
    have "in_flight lo r @ us = ds @ in_flight lo1 r1" using 1(3) us by simp
    then have "in_flight lo r @ us @ taken1 = ds @ es @ in_flight lo' r2" using 2(3) by (metis append.assoc)
    with 1 2 Some x pkts taken us show ?thesis by simp
  qed
qed

section \<open>Tunnel packets as bytes\<close>

text \<open>A data packet: sequence number, two zero bytes, the offset, and the payload.\<close>

definition tfs_bytes :: "u32 \<Rightarrow> u16 \<Rightarrow> bytes \<Rightarrow> bytes" where
  "tfs_bytes seq off d = put16 (put32 (replicate 8 0) 0 seq) 6 (ucast off) @ d"

lemma length_tfs_bytes [simp]: "length (tfs_bytes seq off d) = 8 + length d"
  by (simp add: tfs_bytes_def)

lemma tfs_bytes_fields:
  "get32 (tfs_bytes seq off d) 0 = seq" "get16 (tfs_bytes seq off d) 6 = off" "drop 8 (tfs_bytes seq off d) = d"
proof -
  let ?h = "put16 (put32 (replicate 8 0) 0 seq) 6 (ucast off)"
  have "get32 (?h @ d) 0 = get32 ?h 0" by (rule w32.get_append) simp
  also have "\<dots> = get32 (put32 (replicate 8 0) 0 seq) 0" by (rule w32.get_local) (simp add: w16.put_frame)
  also have "\<dots> = seq" by (rule w32.get_put) simp
  finally show "get32 (tfs_bytes seq off d) 0 = seq" by (simp add: tfs_bytes_def)
  have "get16 (?h @ d) 6 = get16 ?h 6" by (rule w16.get_append) simp
  also have "\<dots> = off" by (rule w16.get_put) simp
  finally show "get16 (tfs_bytes seq off d) 6 = off" by (simp add: tfs_bytes_def)
  show "drop 8 (tfs_bytes seq off d) = d" by (simp add: tfs_bytes_def)
qed

text \<open>The header bits that tell reports and unknown versions from data are zero.\<close>

lemma tfs_bytes_version:
  "get32 (tfs_bytes seq off d) 4 AND 0xC0000000 = 0" "get32 (tfs_bytes seq off d) 4 AND 0x80000000 = 0"
proof -
  let ?b = "tfs_bytes seq off d"
  have b: "?b ! 4 = 0" "?b ! 5 = 0"
    by (simp_all add: tfs_bytes_def nth_append put16_def put32_def nth_list_update)
  define x where "x = 256 * uint (?b ! 6) + uint (?b ! 7)"
  have "get32 ?b 4 = word_of_int x"
    using b unfolding x_def by (simp only: get32_def word32_of_bytes) simp
  moreover have "0 \<le> x" "x < 2 ^ 16"
    using uint_lt2p [of "?b ! 6"] uint_lt2p [of "?b ! 7"] by (simp_all add: x_def)
  ultimately have "uint (get32 ?b 4) < 2 ^ 16" by (simp only: uint_word_of_int) simp
  then have "take_bit 16 (get32 ?b 4) = get32 ?b 4"
    by (simp add: word_uint_eq_iff unsigned_take_bit_eq take_bit_int_eq_self)
  then have low: "bit (get32 ?b 4) k \<Longrightarrow> k < 16" for k by (metis bit_take_bit_iff)
  have "(0x80000000 :: int) = 2 ^ 31" by simp
  then have b31: "bit (0x80000000 :: int) k \<longleftrightarrow> k = 31" for k by (simp only: bit_exp_iff) auto
  have m: "0xC0000000 = (push_bit 30 (mask 2) :: u32)" "0x80000000 = (push_bit 31 (mask 1) :: u32)"
    by (simp_all add: mask_eq_exp_minus_1 push_bit_eq_mult)
  show "get32 ?b 4 AND 0xC0000000 = 0" unfolding m
    by (rule bit_word_eqI) (use low in \<open>force simp: bit_simps\<close>)
  show "get32 ?b 4 AND 0x80000000 = 0" unfolding m
    by (rule bit_word_eqI) (auto simp: bit_simps b31 dest: low)
qed

text \<open>A sequence of data packets with consecutive sequence numbers, none of them zero.\<close>

fun consecutive :: "u32 \<Rightarrow> (u32 \<times> u16 \<times> bytes) list \<Rightarrow> bool" where
  "consecutive s [] = True"
| "consecutive s ((seq, off, d) # ps) \<longleftrightarrow>
     seq = s \<and> s \<noteq> 0 \<and> d \<noteq> [] \<and> length d \<le> MAXBUF - HDRSPACE - 8 \<and> consecutive (s + 1) ps"

definition wire :: "u32 \<times> u16 \<times> bytes \<Rightarrow> bytes" where
  "wire = (\<lambda>(seq, off, d). tfs_bytes seq off d)"

definition framed :: "u32 \<times> u16 \<times> bytes \<Rightarrow> nat \<times> bytes" where
  "framed = (\<lambda>(seq, off, d). (unat off, d))"

lemma succ_less:
  fixes x :: u32
  assumes "x + 1 \<noteq> 0"
  shows "x < x + 1"
proof -
  have "unat (x + 1) = (unat x + 1) mod 2 ^ 32" by (simp add: unat_word_ariths)
  moreover have "unat (x + 1) \<noteq> 0" using assms by (simp add: unat_eq_zero)
  moreover have "unat x < 2 ^ 32" using unat_u32_less [of x] by simp
  ultimately show ?thesis by (simp add: word_less_nat_alt mod_Suc split: if_splits)
qed

end
