(* ===== verification/Ingress.thy ===== *)
theory Ingress
  imports Miov Clock Framing
begin

text \<open>
  The sending side of \<open>src/src/iptfs.c\<close>: one turn of \<open>read_intf_pkts\<close>, which fills buffers from the
  tunnel interface, and \<open>write_tfs_pkt\<close>, which fills one tunnel packet from the queued buffers.
\<close>

section \<open>The interface reader\<close>

record ingress =
  ig_mbufs :: mheap
  ig_freeq :: mqueue
  ig_outq :: mqueue

datatype read_result = ReadErr | ReadPkt bytes

text \<open>
  A packet is written to the buffer as far as there is room. A read of no bytes leaves the buffer
  that was popped in nobody's hands, as the code does.
\<close>

definition read_intf_step :: "read_result \<Rightarrow> ingress \<Rightarrow> ingress res" where
  "read_intf_step r ig =
     bindE (mqueue_pop (ig_freeq ig)) (\<lambda>(a, fq).
     case r of
       ReadErr \<Rightarrow> bindE (mqueue_push (ig_mbufs ig) fq a True) (\<lambda>(_, h, fq').
         Inr (ig\<lparr>ig_mbufs := h, ig_freeq := fq'\<rparr>))
     | ReadPkt p \<Rightarrow>
         (let b = ig_mbufs ig a; n = min (length p) (nat (MBUF_AVAIL b)) in
          if n = 0 then Inr (ig\<lparr>ig_freeq := fq\<rparr>)
          else
            (let b' = b\<lparr>mb_space := splice_at (mb_start b) (take n p) (mb_space b), mb_end := mb_start b + n\<rparr>
             in bindE (mqueue_push ((ig_mbufs ig)(a := b')) (ig_outq ig) a False) (\<lambda>(_, h, oq).
                Inr (ig\<lparr>ig_mbufs := h, ig_freeq := fq, ig_outq := oq\<rparr>)))))"

section \<open>The tunnel writer\<close>

text \<open>
  The globals and statics of \<open>write_tfs_pkt\<close>: the arrays \<open>g_wtfs_iovecs\<close> and \<open>g_wtfs_freem\<close>,
  the header, the zero packet of \<open>write_empty_tfs_pkt\<close>, the log timer and its counters, and the
  caller's \<open>seq\<close> and \<open>leftover\<close>.
\<close>

record wtfs =
  wt_ig :: ingress
  wt_iovecs :: "iovec list"
  wt_freem :: "nat list"
  wt_hdr :: bytes
  wt_ebytes :: bytes
  wt_timer :: stimer
  wt_tcount :: u32
  wt_ecount :: u32
  wt_seq :: u32
  wt_leftover :: "nat option"

text \<open>
  \<open>send\<close> reads \<open>mtu\<close> bytes of the static buffer; its short writes are only logged.
\<close>

definition write_empty_tfs_pkt :: "bytes \<Rightarrow> u32 \<Rightarrow> u32 \<Rightarrow> (bytes \<times> u32 \<times> bytes) res" where
  "write_empty_tfs_pkt ebytes seq mtu =
     (let e = put32 ebytes 0 seq in
      bindE (requireE OutOfBounds (unat mtu \<le> length e)) (\<lambda>_. Inr (take (unat mtu) e, seq + 1, e)))"

fun iovlen :: "iovec list \<Rightarrow> nat \<Rightarrow> int" where
  "iovlen iov 0 = 0"
| "iovlen iov (Suc i) = iovlen iov i + iov_len (iov ! i)"

text \<open>
  The local state of one call: the buffers, the next free place in either array, the part of a
  buffer left over.
\<close>

record wtp =
  wp_mbufs :: mheap
  wp_iovecs :: "iovec list"
  wp_niov :: nat
  wp_freem :: "nat list"
  wp_nfree :: nat
  wp_leftover :: "nat option"

definition put_iov :: "ptr \<Rightarrow> int \<Rightarrow> wtp \<Rightarrow> wtp res" where
  "put_iov p n w =
     bindE (requireE OutOfBounds (wp_niov w < length (wp_iovecs w))) (\<lambda>_.
     Inr (w\<lparr>wp_iovecs := (wp_iovecs w)[wp_niov w := \<lparr>iov_base = p, iov_len = n\<rparr>], wp_niov := wp_niov w + 1\<rparr>))"

definition put_free :: "nat \<Rightarrow> wtp \<Rightarrow> wtp res" where
  "put_free a w =
     bindE (requireE OutOfBounds (wp_nfree w < length (wp_freem w))) (\<lambda>_.
     Inr (w\<lparr>wp_freem := (wp_freem w)[wp_nfree w := a], wp_nfree := wp_nfree w + 1\<rparr>))"

text \<open>The next buffer, if there is space for one.\<close>

definition wtp_next :: "bool \<Rightarrow> bool \<Rightarrow> int \<Rightarrow> mheap \<Rightarrow> mqueue \<Rightarrow> nat option \<times> mqueue" where
  "wtp_next oneonly dontfrag mtu h q =
     (if mtu > 6 \<and> \<not> oneonly then mqueue_trypop h q (if dontfrag then mtu else 0) else (None, q))"

lemma bindE_cong [fundef_cong]:
  "r = r' \<Longrightarrow> (\<And>a. r' = Inr a \<Longrightarrow> f a = g a) \<Longrightarrow> bindE r f = bindE r' g"
  by (cases r') auto

lemma wtp_next_less:
  "wtp_next oneonly dontfrag mtu h q = (m', q') \<Longrightarrow> mq_depth q' + (if m' = None then 0 else 1) \<le> mq_depth q"
  by (auto simp: wtp_next_def mqueue_trypop_def MQ_EMPTY_def Let_def split: if_splits)

text \<open>The filling loop; the padding comes from the static array \<open>padbytes\<close> of \<open>MAXBUF\<close> bytes.\<close>

function wtp_loop :: "bool \<Rightarrow> bool \<Rightarrow> int \<Rightarrow> nat option \<Rightarrow> mqueue \<Rightarrow> wtp \<Rightarrow> (mqueue \<times> wtp) res" where
  "wtp_loop oneonly dontfrag mtu m q w =
     (if mtu \<le> 0 then Inr (q, w)
      else case m of
        None \<Rightarrow> bindE (requireE OutOfBounds (mtu \<le> int MAXBUF)) (\<lambda>_. bindE (put_iov PPad mtu w) (\<lambda>w1. Inr (q, w1)))
      | Some a \<Rightarrow>
          if mtu \<le> 6 then bindE (put_iov PPad mtu w) (\<lambda>w1. Inr (q, w1))
          else
            (let b = wp_mbufs w a; mlen = MBUF_LEN b in
             if mlen > mtu
             then bindE (put_iov (PBuf a (mb_start b)) mtu w) (\<lambda>w1.
                  Inr (q, w1\<lparr>wp_mbufs := (wp_mbufs w1)(a := b\<lparr>mb_start := mb_start b + nat mtu\<rparr>), wp_leftover := Some a\<rparr>))
             else bindE (put_iov (PBuf a (mb_start b)) mlen w) (\<lambda>w1.
                  bindE (put_free a w1) (\<lambda>w2.
                  let n = wtp_next oneonly dontfrag (mtu - mlen) (wp_mbufs w2) q
                  in wtp_loop oneonly dontfrag (mtu - mlen) (fst n) (snd n) w2))))"
  by pat_completeness auto
termination
proof (relation "measure (\<lambda>(one, dont, mtu, m, q, w). mq_depth q + (if m = None then 0 else 1))", simp)
  fix oneonly dontfrag :: bool and mtu mlen :: int and m :: "nat option" and q :: mqueue and w w2 :: wtp and a :: nat and n
  assume "m = Some a" "n = wtp_next oneonly dontfrag (mtu - mlen) (wp_mbufs w2) q"
  then show "((oneonly, dontfrag, mtu - mlen, fst n, snd n, w2), (oneonly, dontfrag, mtu, m, q, w)) \<in>
      measure (\<lambda>(one, dont, mtu, m, q, w). mq_depth q + (if m = None then 0 else 1))"
    using wtp_next_less [of oneonly dontfrag "mtu - mlen" "wp_mbufs w2" q "fst n" "snd n"] by simp
qed

declare wtp_loop.simps [simp del]

text \<open>The bytes \<open>sendmsg\<close> gathers.\<close>

definition iov_seg :: "bytes \<Rightarrow> mheap \<Rightarrow> iovec \<Rightarrow> bytes" where
  "iov_seg hdr h iv =
     (case iov_base iv of
        PHdr \<Rightarrow> take (nat (iov_len iv)) hdr
      | PPad \<Rightarrow> replicate (nat (iov_len iv)) 0
      | PBuf a i \<Rightarrow> subseg i (nat (iov_len iv)) (mb_space (h a)))"

text \<open>The used buffers go back to the free queue.\<close>

fun push_all :: "mheap \<Rightarrow> mqueue \<Rightarrow> nat list \<Rightarrow> (mheap \<times> mqueue) res" where
  "push_all h q [] = Inr (h, q)"
| "push_all h q (a # as) = bindE (mqueue_push h q a True) (\<lambda>(_, h', q'). push_all h' q' as)"

text \<open>After the loop: the length check, \<open>sendmsg\<close> with its return value \<open>n\<close>, and the buffers.\<close>

definition wtp_send :: "int \<Rightarrow> int \<Rightarrow> wtfs \<Rightarrow> mqueue \<Rightarrow> wtp \<Rightarrow> (bytes option \<times> wtfs) res" where
  "wtp_send tfsmtu n wt q w =
     bindE (requireE Errx (iovlen (wp_iovecs w) (wp_niov w) = tfsmtu)) (\<lambda>_.
     let pkt = concat (map (iov_seg (wt_hdr wt) (wp_mbufs w)) (take (wp_niov w) (wp_iovecs w)))
     in bindE (if n \<noteq> tfsmtu
               then bindE (case wp_leftover w of Some a \<Rightarrow> put_free a w | None \<Rightarrow> Inr w)
                      (\<lambda>w1. Inr (w1\<lparr>wp_leftover := None\<rparr>))
               else Inr w) (\<lambda>w2.
        bindE (push_all (wp_mbufs w2) (ig_freeq (wt_ig wt)) (take (wp_nfree w2) (wp_freem w2))) (\<lambda>(h, fq).
        Inr (Some pkt, wt\<lparr>wt_ig := \<lparr>ig_mbufs = h, ig_freeq = fq, ig_outq = q\<rparr>, wt_iovecs := wp_iovecs w2,
                          wt_freem := wp_freem w2, wt_seq := wt_seq wt + 1, wt_leftover := wp_leftover w2\<rparr>))))"

text \<open>The first buffer: what was left over, or the next one of the queue; and the offset field.\<close>

definition wtp_first :: "wtfs \<Rightarrow> nat option \<times> u16 \<times> mqueue" where
  "wtp_first wt =
     (let ig = wt_ig wt in
      case wt_leftover wt of
        Some a \<Rightarrow> (Some a, word_of_int (MBUF_LEN (ig_mbufs ig a)), ig_outq ig)
      | None \<Rightarrow> (let (m, q) = mqueue_trypop (ig_mbufs ig) (ig_outq ig) 0 in (m, 0, q)))"

definition wtp_count :: "timespec \<Rightarrow> bool \<Rightarrow> wtfs \<Rightarrow> wtfs" where
  "wtp_count now none wt =
     (let (fire, timer) = st_check now (wt_timer wt) in
      if \<not> fire
      then wt\<lparr>wt_timer := timer, wt_tcount := wt_tcount wt + 1, wt_ecount := wt_ecount wt + (if none then 1 else 0)\<rparr>
      else wt\<lparr>wt_timer := timer, wt_tcount := 0, wt_ecount := 0\<rparr>)"

definition write_tfs_pkt :: "bool \<Rightarrow> bool \<Rightarrow> int \<Rightarrow> timespec \<Rightarrow> int \<Rightarrow> wtfs \<Rightarrow> (bytes option \<times> wtfs) res" where
  "write_tfs_pkt oneonly dontfrag tfsmtu now n wt =
     (let (m, offset, q) = wtp_first wt;
          wt1 = wtp_count now (m = None) (wt\<lparr>wt_leftover := None, wt_ig := (wt_ig wt)\<lparr>ig_outq := q\<rparr>\<rparr>)
      in case m of
           None \<Rightarrow>
             if oneonly then Inr (None, wt1)
             else bindE (write_empty_tfs_pkt (wt_ebytes wt1) (wt_seq wt1) (word_of_int tfsmtu)) (\<lambda>(pkt, seq, e).
                  Inr (Some pkt, wt1\<lparr>wt_seq := seq, wt_ebytes := e\<rparr>))
         | Some a \<Rightarrow>
             (let hdr = put16 (put32 (wt_hdr wt1) 0 (wt_seq wt1)) 6 (ucast offset);
                  w = \<lparr>wp_mbufs = ig_mbufs (wt_ig wt1), wp_iovecs = wt_iovecs wt1, wp_niov = 1,
                       wp_freem = wt_freem wt1, wp_nfree = 0, wp_leftover = None\<rparr>
              in bindE (wtp_loop oneonly dontfrag (tfsmtu - 8) (Some a) q w) (\<lambda>(q', w').
                 wtp_send tfsmtu n (wt1\<lparr>wt_hdr := hdr\<rparr>) q' w')))"

text \<open>
  What \<open>write_tfs_pkts\<close> allocates; \<open>iovecs\<close> and \<open>freem\<close> are the arrays of \<open>g_max_inner_pkt\<close>
  elements that \<open>malloc\<close> returned.
\<close>

definition g_max_inner_pkt :: nat where
  "g_max_inner_pkt = MAXBUF div 20"

definition write_tfs_start :: "timespec \<Rightarrow> iovec list \<Rightarrow> nat list \<Rightarrow> ingress \<Rightarrow> wtfs" where
  "write_tfs_start now iovecs freem ig =
     \<lparr>wt_ig = ig, wt_iovecs = iovecs[0 := \<lparr>iov_base = PHdr, iov_len = 8\<rparr>], wt_freem = freem,
      wt_hdr = replicate 8 0, wt_ebytes = replicate MAXBUF 0, wt_timer = st_reset now (word_of_int NSECS_IN_SEC),
      wt_tcount = 0, wt_ecount = 0, wt_seq = 1, wt_leftover = None\<rparr>"

text \<open>One turn of the loops of \<open>write_tfs_pkts\<close>; in one-only mode it waits for a packet first.\<close>

definition write_tfs_step :: "bool \<Rightarrow> bool \<Rightarrow> int \<Rightarrow> timespec \<Rightarrow> int \<Rightarrow> wtfs \<Rightarrow> (bytes option \<times> wtfs) res" where
  "write_tfs_step oneonly dontfrag tfsmtu now n wt =
     (if oneonly
      then bindE (mqueue_wait (ig_outq (wt_ig wt))) (\<lambda>_. write_tfs_pkt oneonly dontfrag tfsmtu now n wt)
      else write_tfs_pkt oneonly dontfrag tfsmtu now n wt)"

end
