(* ===== verification/IngressSim.thy ===== *)
theory IngressSim
  imports Ingress
begin

text \<open>
  The refinement of \<open>tx_packet\<close> by \<open>write_tfs_pkt\<close>: one turn of the tunnel writer sends the packet
  of the framing specification, keeps what is left over and gives every used buffer back.
\<close>

section \<open>The queue of inner packets\<close>

definition held_buf :: "nat option \<Rightarrow> nat list" where
  "held_buf m = (case m of None \<Rightarrow> [] | Some a \<Rightarrow> [a])"

lemma held_buf_simps [simp]: "held_buf None = []" "held_buf (Some a) = [a]"
  by (simp_all add: held_buf_def)

definition buf_bytes :: "mheap \<Rightarrow> nat option \<Rightarrow> bytes option" where
  "buf_bytes h m = map_option (\<lambda>a. mbuf_bytes (h a)) m"

lemma buf_bytes_simps [simp]: "buf_bytes h None = None" "buf_bytes h (Some a) = Some (mbuf_bytes (h a))"
  by (simp_all add: buf_bytes_def)

text \<open>The packets in the order the queue hands them out.\<close>

definition q_bufs :: "mqueue \<Rightarrow> nat list" where
  "q_bufs q = rev (mqueue_contents q)"

definition q_bytes :: "mheap \<Rightarrow> mqueue \<Rightarrow> bytes list" where
  "q_bytes h q = map (\<lambda>a. mbuf_bytes (h a)) (q_bufs q)"

lemma q_bytes_eq_Nil: "q_bytes h q = [] \<longleftrightarrow> q_bufs q = []"
  by (simp add: q_bytes_def)

definition bufs_ok :: "mheap \<Rightarrow> nat list \<Rightarrow> bool" where
  "bufs_ok h as \<longleftrightarrow> distinct as \<and> (\<forall>a \<in> set as. mbuf_wf (h a))"

lemma MBUF_LEN_bytes: "mbuf_wf b \<Longrightarrow> MBUF_LEN b = int (length (mbuf_bytes b))"
  by (simp add: length_mbuf_bytes)

lemma trypop_next:
  assumes "mqueue_ok q" "bufs_ok h (q_bufs q)" "mqueue_trypop h q mx = (m', q')"
  shows "mqueue_ok q' \<and> mq_size q' = mq_size q \<and> q_bufs q = held_buf m' @ q_bufs q' \<and>
    (m' = None \<longrightarrow> q' = q \<and> (q_bufs q = [] \<or> mx \<noteq> 0 \<and> mx < int (length (hd (q_bytes h q))))) \<and>
    (m' \<noteq> None \<longrightarrow> q_bufs q \<noteq> [] \<and> (mx = 0 \<or> int (length (hd (q_bytes h q))) \<le> mx))"
proof (cases "mqueue_contents q = []")
  case True
  with mqueue_trypop_cases [OF assms(1), of h mx] assms(1,3) show ?thesis by (simp add: q_bufs_def)
next
  case False
  let ?a = "last (mqueue_contents q)"
  have q: "q_bufs q = ?a # rev (butlast (mqueue_contents q))"
    using False by (metis append_butlast_last_id q_bufs_def rev.simps(2) rev_rev_ident rev_append singleton_rev_conv append_Cons append_Nil)
  have "mbuf_wf (h ?a)" using assms(2) by (simp add: bufs_ok_def q)
  then have len: "MBUF_LEN (h ?a) = int (length (hd (q_bytes h q)))"
    by (simp add: MBUF_LEN_bytes q_bytes_def q)
  from False mqueue_trypop_cases [OF assms(1), of h mx]
  consider (none) "mx \<noteq> 0" "mx < MBUF_LEN (h ?a)" "mqueue_trypop h q mx = (None, q)"
    | (some) q1 where "mx = 0 \<or> MBUF_LEN (h ?a) \<le> mx" "mqueue_trypop h q mx = (Some ?a, q1)" "mqueue_ok q1"
        "mqueue_contents q1 = butlast (mqueue_contents q)" "mq_size q1 = mq_size q"
    by auto
  then show ?thesis
  proof cases
    case none
    with assms(1,3) len show ?thesis by simp
  next
    case some
    then have "q_bufs q1 = rev (butlast (mqueue_contents q))" by (simp add: q_bufs_def)
    with some assms(3) len q show ?thesis by simp
  qed
qed

lemma wtp_next_tx:
  assumes ok: "mqueue_ok q" "bufs_ok h (q_bufs q)" and n: "wtp_next oneonly dontfrag mtu h q = (m', q')"
  shows "tx_next oneonly dontfrag (nat mtu) (q_bytes h q) = (buf_bytes h m', q_bytes h q')"
    "mqueue_ok q'" "mq_size q' = mq_size q" "q_bufs q = held_buf m' @ q_bufs q'" "m' \<noteq> None \<Longrightarrow> 6 < mtu"
proof -
  let ?mx = "if dontfrag then mtu else 0"
  consider (no) "\<not> (mtu > 6 \<and> \<not> oneonly)" "m' = None" "q' = q"
    | (pop) "mtu > 6" "\<not> oneonly" "mqueue_trypop h q ?mx = (m', q')"
    using n by (auto simp: wtp_next_def split: if_splits)
  then have "tx_next oneonly dontfrag (nat mtu) (q_bytes h q) = (buf_bytes h m', q_bytes h q') \<and>
    mqueue_ok q' \<and> mq_size q' = mq_size q \<and> q_bufs q = held_buf m' @ q_bufs q' \<and> (m' \<noteq> None \<longrightarrow> 6 < mtu)"
  proof cases
    case no
    with ok show ?thesis by (auto simp: tx_next_def)
  next
    case pop
    note t = trypop_next [OF ok pop(3)]
    have r: "nat mtu > 6 \<and> \<not> oneonly" using pop by simp
    show ?thesis
    proof (cases m')
      case None
      with t have q': "q' = q" and e: "q_bytes h q = [] \<or> ?mx \<noteq> 0 \<and> ?mx < int (length (hd (q_bytes h q)))"
        unfolding q_bytes_eq_Nil by blast+
      have "tx_next oneonly dontfrag (nat mtu) (q_bytes h q) = (None, q_bytes h q)"
      proof (cases "q_bytes h q")
        case Nil
        with r show ?thesis by (simp add: tx_next_def)
      next
        case (Cons p ps)
        with e pop(1) have "dontfrag" "nat mtu < length p" by (auto split: if_splits)
        with r Cons show ?thesis by (simp add: tx_next_def)
      qed
      with None q' ok(1) show ?thesis by simp
    next
      case (Some a)
      with t have c: "q_bytes h q = mbuf_bytes (h a) # q_bytes h q'" by (simp add: q_bytes_def)
      have "\<not> (dontfrag \<and> length (mbuf_bytes (h a)) > nat mtu)"
      proof
        assume d: "dontfrag \<and> length (mbuf_bytes (h a)) > nat mtu"
        from t Some have "?mx = 0 \<or> int (length (hd (q_bytes h q))) \<le> ?mx" by blast
        with pop(1) d have "int (length (hd (q_bytes h q))) \<le> mtu" by simp
        with c d pop(1) show False by (simp add: nat_less_iff)
      qed
      with r c have "tx_next oneonly dontfrag (nat mtu) (q_bytes h q) = (Some (mbuf_bytes (h a)), q_bytes h q')"
        by (simp add: tx_next_def)
      moreover have "mqueue_ok q'" "mq_size q' = mq_size q" "q_bufs q = held_buf m' @ q_bufs q'" using t by blast+
      ultimately show ?thesis using Some pop(1) by simp
    qed
  qed
  then show "tx_next oneonly dontfrag (nat mtu) (q_bytes h q) = (buf_bytes h m', q_bytes h q')"
    "mqueue_ok q'" "mq_size q' = mq_size q" "q_bufs q = held_buf m' @ q_bufs q'" "m' \<noteq> None \<Longrightarrow> 6 < mtu"
    by auto
qed

section \<open>The arrays filled by the loop\<close>

text \<open>The bytes gathered so far, and the buffers used up.\<close>

definition gathered :: "bytes \<Rightarrow> wtp \<Rightarrow> bytes" where
  "gathered hdr w = concat (map (iov_seg hdr (wp_mbufs w)) (take (wp_niov w) (wp_iovecs w)))"

definition used_bufs :: "wtp \<Rightarrow> nat list" where
  "used_bufs w = take (wp_nfree w) (wp_freem w)"

definition iov_total :: "wtp \<Rightarrow> int" where
  "iov_total w = iovlen (wp_iovecs w) (wp_niov w)"

lemma iovlen_update: "n \<le> i \<Longrightarrow> iovlen (iov[i := x]) n = iovlen iov n"
  by (induction n) auto

lemma iov_seg_cong: "(\<And>b. mb_space (h' b) = mb_space (h b)) \<Longrightarrow> iov_seg hdr h' iv = iov_seg hdr h iv"
  by (simp add: iov_seg_def split: ptr.split)

lemma put_iov_room:
  assumes "wp_niov w < length (wp_iovecs w)"
  shows "\<exists>w1. put_iov p n w = Inr w1 \<and> gathered hdr w1 = gathered hdr w @ iov_seg hdr (wp_mbufs w) \<lparr>iov_base = p, iov_len = n\<rparr> \<and>
    iov_total w1 = iov_total w + n \<and> wp_niov w1 = wp_niov w + 1 \<and> length (wp_iovecs w1) = length (wp_iovecs w) \<and>
    wp_mbufs w1 = wp_mbufs w \<and> wp_freem w1 = wp_freem w \<and> wp_nfree w1 = wp_nfree w \<and> wp_leftover w1 = wp_leftover w \<and>
    take (wp_niov w) (wp_iovecs w1) = take (wp_niov w) (wp_iovecs w)"
  using assms by (simp add: put_iov_def gathered_def iov_total_def take_Suc_update iovlen_update)

lemma put_free_room:
  assumes "wp_nfree w < length (wp_freem w)"
  shows "\<exists>w1. put_free a w = Inr w1 \<and> used_bufs w1 = used_bufs w @ [a] \<and> wp_nfree w1 = wp_nfree w + 1 \<and>
    length (wp_freem w1) = length (wp_freem w) \<and> wp_mbufs w1 = wp_mbufs w \<and> wp_iovecs w1 = wp_iovecs w \<and>
    wp_niov w1 = wp_niov w \<and> wp_leftover w1 = wp_leftover w"
  using assms by (simp add: put_free_def used_bufs_def take_Suc_update)

text \<open>Enough room in both arrays for what may still come.\<close>

definition wtp_room :: "nat option \<Rightarrow> mqueue \<Rightarrow> wtp \<Rightarrow> bool" where
  "wtp_room m q w \<longleftrightarrow> wp_niov w + length (held_buf m @ q_bufs q) + 1 \<le> length (wp_iovecs w) \<and>
     wp_nfree w + length (held_buf m @ q_bufs q) \<le> length (wp_freem w)"

text \<open>
  What the loop does to the buffers: all that was there is used, left over or still queued, in this
  order, and only the start of the one left over moves.
\<close>

definition wtp_moved :: "nat option \<Rightarrow> mqueue \<Rightarrow> wtp \<Rightarrow> mqueue \<Rightarrow> wtp \<Rightarrow> bool" where
  "wtp_moved m q w q' w' \<longleftrightarrow>
     (\<exists>us. used_bufs w' = used_bufs w @ us \<and> held_buf m @ q_bufs q = us @ held_buf (wp_leftover w') @ q_bufs q') \<and>
     (\<forall>b. wp_leftover w' \<noteq> Some b \<longrightarrow> wp_mbufs w' b = wp_mbufs w b) \<and>
     (\<forall>b. \<exists>i. wp_mbufs w' b = (wp_mbufs w b)\<lparr>mb_start := i\<rparr>) \<and>
     bufs_ok (wp_mbufs w') (held_buf m @ q_bufs q) \<and> mqueue_ok q' \<and> mq_size q' = mq_size q \<and>
     length (wp_iovecs w') = length (wp_iovecs w) \<and> length (wp_freem w') = length (wp_freem w) \<and>
     wp_niov w \<le> wp_niov w' \<and> take (wp_niov w) (wp_iovecs w') = take (wp_niov w) (wp_iovecs w) \<and>
     wp_nfree w' + length (held_buf (wp_leftover w') @ q_bufs q') \<le> length (wp_freem w')"

lemma mb_start_self: "\<exists>i. (b :: mbuf) = b\<lparr>mb_start := i\<rparr>"
  by (rule exI [of _ "mb_start b"]) simp

text \<open>One round that pads, one that splits a buffer, and one that uses a whole buffer.\<close>

lemma wtp_pad_tx:
  assumes "wtp_room m q w" "m = None" "wp_leftover w = None" "bufs_ok (wp_mbufs w) (q_bufs q)" "mqueue_ok q" "0 \<le> mtu"
  shows "\<exists>w'. put_iov PPad mtu w = Inr w' \<and> gathered hdr w' = gathered hdr w @ replicate (nat mtu) 0 \<and>
    iov_total w' = iov_total w + mtu \<and> wp_leftover w' = None \<and> wp_mbufs w' = wp_mbufs w \<and> wtp_moved m q w q w'"
proof -
  have "wp_niov w < length (wp_iovecs w)" using assms(1) by (simp add: wtp_room_def)
  from put_iov_room [OF this, of PPad mtu hdr] assms show ?thesis
    by (auto simp: iov_seg_def wtp_moved_def wtp_room_def used_bufs_def mb_start_self)
qed

lemma wtp_split_tx:
  assumes "wtp_room m q w" "m = Some a" "wp_leftover w = None" "bufs_ok (wp_mbufs w) (held_buf m @ q_bufs q)"
    "mqueue_ok q" "0 \<le> mtu" "mtu < MBUF_LEN (wp_mbufs w a)"
  defines "b \<equiv> wp_mbufs w a"
  shows "\<exists>w1. put_iov (PBuf a (mb_start b)) mtu w = Inr w1 \<and>
    (let w' = w1\<lparr>wp_mbufs := (wp_mbufs w1)(a := b\<lparr>mb_start := mb_start b + nat mtu\<rparr>), wp_leftover := Some a\<rparr>
     in gathered hdr w' = gathered hdr w @ take (nat mtu) (mbuf_bytes b) \<and> iov_total w' = iov_total w + mtu \<and>
       buf_bytes (wp_mbufs w') (Some a) = Some (drop (nat mtu) (mbuf_bytes b)) \<and> wtp_moved m q w q w')"
proof -
  let ?h = "(wp_mbufs w)(a := b\<lparr>mb_start := mb_start b + nat mtu\<rparr>)"
  have wf: "mbuf_wf b" using assms(2,4) by (simp add: bufs_ok_def b_def)
  then have len: "nat mtu \<le> mb_end b - mb_start b" "nat mtu < length (mbuf_bytes b)"
    using assms(6,7) by (auto simp: MBUF_LEN_def mbuf_wf_def mbuf_bytes_def b_def)
  have "wp_niov w < length (wp_iovecs w)" using assms(1) by (simp add: wtp_room_def)
  from put_iov_room [OF this, of "PBuf a (mb_start b)" mtu hdr] obtain w1 where
    w1: "put_iov (PBuf a (mb_start b)) mtu w = Inr w1"
      "gathered hdr w1 = gathered hdr w @ iov_seg hdr (wp_mbufs w) \<lparr>iov_base = PBuf a (mb_start b), iov_len = mtu\<rparr>"
      "wp_niov w1 = wp_niov w + 1" "take (wp_niov w) (wp_iovecs w1) = take (wp_niov w) (wp_iovecs w)"
      "iov_total w1 = iov_total w + mtu" "length (wp_iovecs w1) = length (wp_iovecs w)" "wp_mbufs w1 = wp_mbufs w"
      "wp_freem w1 = wp_freem w" "wp_nfree w1 = wp_nfree w" by blast
  let ?w = "w1\<lparr>wp_mbufs := ?h, wp_leftover := Some a\<rparr>"
  have "gathered hdr ?w = gathered hdr w1"
  proof -
    have "iov_seg hdr ?h = iov_seg hdr (wp_mbufs w)"
      by (rule ext, rule iov_seg_cong) (simp add: b_def)
    with w1(7) show ?thesis by (simp add: gathered_def)
  qed
  moreover have "iov_seg hdr (wp_mbufs w) \<lparr>iov_base = PBuf a (mb_start b), iov_len = mtu\<rparr> = take (nat mtu) (mbuf_bytes b)"
    using len by (simp add: iov_seg_def mbuf_bytes_def subseg_def b_def min_absorb1)
  moreover have "mbuf_bytes (b\<lparr>mb_start := mb_start b + nat mtu\<rparr>) = drop (nat mtu) (mbuf_bytes b)"
    by (simp add: mbuf_bytes_def subseg_def drop_take add.commute)
  moreover have "mbuf_wf (b\<lparr>mb_start := mb_start b + nat mtu\<rparr>)" using wf len by (auto simp: mbuf_wf_def)
  then have "bufs_ok ?h (held_buf m @ q_bufs q)" using assms(4) by (auto simp: bufs_ok_def)
  moreover have "\<exists>i. ?h c = (wp_mbufs w c)\<lparr>mb_start := i\<rparr>" for c
    using mb_start_self [of "wp_mbufs w c"] by (auto simp: b_def)
  ultimately have "wtp_moved m q w q ?w" 
    using w1 assms(1,2,5) by (simp add: wtp_moved_def used_bufs_def wtp_room_def)
  then show ?thesis
    using w1 \<open>gathered hdr ?w = gathered hdr w1\<close> \<open>mbuf_bytes (b\<lparr>mb_start := mb_start b + nat mtu\<rparr>) = _\<close>
      \<open>iov_seg hdr (wp_mbufs w) _ = _\<close> by (simp add: iov_total_def Let_def)
qed

lemma wtp_whole_tx:
  assumes "wtp_room (Some a) q w" "bufs_ok (wp_mbufs w) (a # q_bufs q)" "mqueue_ok q"
    and n: "wtp_next oneonly dontfrag mtu (wp_mbufs w) q = (m', q')"
  defines "b \<equiv> wp_mbufs w a"
  shows "\<exists>w1 w2. put_iov (PBuf a (mb_start b)) (MBUF_LEN b) w = Inr w1 \<and> put_free a w1 = Inr w2 \<and>
    gathered hdr w2 = gathered hdr w @ mbuf_bytes b \<and> iov_total w2 = iov_total w + MBUF_LEN b \<and>
    used_bufs w2 = used_bufs w @ [a] \<and> wp_mbufs w2 = wp_mbufs w \<and> wp_leftover w2 = wp_leftover w \<and>
    wtp_room m' q' w2 \<and> bufs_ok (wp_mbufs w) (held_buf m' @ q_bufs q') \<and> mqueue_ok q' \<and> mq_size q' = mq_size q \<and>
    q_bufs q = held_buf m' @ q_bufs q' \<and>
    wp_niov w \<le> wp_niov w2 \<and> take (wp_niov w) (wp_iovecs w2) = take (wp_niov w) (wp_iovecs w) \<and>
    length (wp_iovecs w2) = length (wp_iovecs w) \<and> length (wp_freem w2) = length (wp_freem w)"
proof -
  have wf: "mbuf_wf b" using assms(2) by (simp add: bufs_ok_def b_def)
  have "bufs_ok (wp_mbufs w) (q_bufs q)" using assms(2) by (simp add: bufs_ok_def)
  note t = wtp_next_tx(2-4) [OF assms(3) this n]
  have "wp_niov w < length (wp_iovecs w)" using assms(1) by (simp add: wtp_room_def)
  from put_iov_room [OF this, of "PBuf a (mb_start b)" "MBUF_LEN b" hdr] obtain w1 where
    w1: "put_iov (PBuf a (mb_start b)) (MBUF_LEN b) w = Inr w1"
      "gathered hdr w1 = gathered hdr w @ iov_seg hdr (wp_mbufs w) \<lparr>iov_base = PBuf a (mb_start b), iov_len = MBUF_LEN b\<rparr>"
      "iov_total w1 = iov_total w + MBUF_LEN b" "length (wp_iovecs w1) = length (wp_iovecs w)" "wp_mbufs w1 = wp_mbufs w"
      "wp_niov w1 = wp_niov w + 1" "take (wp_niov w) (wp_iovecs w1) = take (wp_niov w) (wp_iovecs w)"
      "wp_freem w1 = wp_freem w" "wp_nfree w1 = wp_nfree w" "wp_leftover w1 = wp_leftover w" by blast
  have "wp_nfree w1 < length (wp_freem w1)" using assms(1) w1 by (simp add: wtp_room_def)
  from put_free_room [OF this, of a] obtain w2 where
    w2: "put_free a w1 = Inr w2" "used_bufs w2 = used_bufs w1 @ [a]" "wp_nfree w2 = wp_nfree w1 + 1"
    "length (wp_freem w2) = length (wp_freem w1)" "wp_mbufs w2 = wp_mbufs w1" "wp_iovecs w2 = wp_iovecs w1"
    "wp_niov w2 = wp_niov w1" "wp_leftover w2 = wp_leftover w1" by blast
  have "iov_seg hdr (wp_mbufs w) \<lparr>iov_base = PBuf a (mb_start b), iov_len = MBUF_LEN b\<rparr> = mbuf_bytes b"
    using wf by (simp add: iov_seg_def mbuf_bytes_def b_def MBUF_LEN_def mbuf_wf_def nat_diff_distrib')
  moreover have "used_bufs w1 = used_bufs w" "gathered hdr w2 = gathered hdr w1" "iov_total w2 = iov_total w1"
    using w1 w2 by (simp_all add: used_bufs_def gathered_def iov_total_def)
  moreover have "wtp_room m' q' w2" using assms(1) w1 w2 t(3) by (simp add: wtp_room_def)
  moreover have "bufs_ok (wp_mbufs w) (held_buf m' @ q_bufs q')" using assms(2) t(3) by (simp add: bufs_ok_def)
  ultimately show ?thesis using w1 w2 t by auto
qed

lemma wtp_moved_whole:
  assumes "m = Some a" "bufs_ok (wp_mbufs w) (held_buf m @ q_bufs q)" "q_bufs q = held_buf m' @ q_bufs q'"
    "used_bufs w2 = used_bufs w @ [a]" "wp_mbufs w2 = wp_mbufs w" "mq_size q' = mq_size q"
    "length (wp_iovecs w2) = length (wp_iovecs w)" "length (wp_freem w2) = length (wp_freem w)"
    "wp_niov w \<le> wp_niov w2" "take (wp_niov w) (wp_iovecs w2) = take (wp_niov w) (wp_iovecs w)"
    "wtp_moved m' q' w2 q2 w3"
  shows "wtp_moved m q w q2 w3"
proof -
  from assms(11) obtain us where us: "used_bufs w3 = used_bufs w2 @ us"
      "held_buf m' @ q_bufs q' = us @ held_buf (wp_leftover w3) @ q_bufs q2"
    and h: "\<And>b. wp_leftover w3 \<noteq> Some b \<Longrightarrow> wp_mbufs w3 b = wp_mbufs w2 b" "bufs_ok (wp_mbufs w3) (q_bufs q)"
    unfolding wtp_moved_def assms(3) by blast
  have a: "mbuf_wf (wp_mbufs w a)" "a \<notin> set (q_bufs q)" using assms(1,2) by (simp_all add: bufs_ok_def)
  then have "wp_leftover w3 \<noteq> Some a" using us(2) assms(3) by auto
  with a h assms(1,5) have "bufs_ok (wp_mbufs w3) (held_buf m @ q_bufs q)" by (simp add: bufs_ok_def)
  moreover have "used_bufs w3 = used_bufs w @ a # us" "held_buf m @ q_bufs q = (a # us) @ held_buf (wp_leftover w3) @ q_bufs q2"
    using us assms(1,3,4) by simp_all
  moreover have "wp_niov w \<le> wp_niov w3" "take (wp_niov w) (wp_iovecs w3) = take (wp_niov w) (wp_iovecs w)"
  proof -
    from assms(11) have 3: "wp_niov w2 \<le> wp_niov w3" "take (wp_niov w2) (wp_iovecs w3) = take (wp_niov w2) (wp_iovecs w2)"
      unfolding wtp_moved_def by blast+
    from 3(1) assms(9) show "wp_niov w \<le> wp_niov w3" by simp
    have "take (wp_niov w) (wp_iovecs w3) = take (wp_niov w) (take (wp_niov w2) (wp_iovecs w3))"
      using assms(9) by simp
    also have "\<dots> = take (wp_niov w) (wp_iovecs w2)" using assms(9) 3(2) by simp
    finally show "take (wp_niov w) (wp_iovecs w3) = take (wp_niov w) (wp_iovecs w)" using assms(10) by simp
  qed
  ultimately show ?thesis using assms(5-8,11) unfolding wtp_moved_def by (metis (no_types))
qed

text \<open>The loop fills a payload as the framing specification does.\<close>

text \<open>What a run of the filling loop does for the specification.\<close>

definition fills :: "bool \<Rightarrow> bool \<Rightarrow> bytes \<Rightarrow> int \<Rightarrow> nat option \<Rightarrow> mqueue \<Rightarrow> wtp \<Rightarrow> bytes \<Rightarrow> bytes option \<Rightarrow> bytes list \<Rightarrow> bool" where
  "fills oneonly dontfrag hdr mtu m q w d lo Q \<longleftrightarrow>
     (\<exists>q' w'. wtp_loop oneonly dontfrag mtu m q w = Inr (q', w') \<and> gathered hdr w' = gathered hdr w @ d \<and>
        iov_total w' = iov_total w + mtu \<and> buf_bytes (wp_mbufs w') (wp_leftover w') = lo \<and>
        q_bytes (wp_mbufs w') q' = Q \<and> wtp_moved m q w q' w')"

lemma fills_pad:
  assumes room: "wtp_room None q w" and ok: "bufs_ok (wp_mbufs w) (held_buf (None) @ q_bufs q)" and qok: "mqueue_ok q"
    and lo: "wp_leftover w = None" and mtu: "0 \<le> mtu" "mtu \<le> int MAXBUF"
    and tx: "tx_loop oneonly dontfrag (nat mtu) (buf_bytes (wp_mbufs w) (None)) (q_bytes (wp_mbufs w) q) = (d, lo, Q)"
  shows "fills oneonly dontfrag hdr mtu None q w d lo Q"
proof -
  from tx have d: "d = replicate (nat mtu) 0" "lo = None" "Q = q_bytes (wp_mbufs w) q"
    by (auto simp: tx_loop.simps)
  show ?thesis
  proof (cases "mtu = 0")
    case True
    with d room ok qok lo show ?thesis
      by (simp add: fills_def wtp_loop.simps wtp_moved_def wtp_room_def mb_start_self)
  next
    case False
    with mtu have "\<not> mtu \<le> 0" by simp
    from wtp_pad_tx [OF room refl lo _ qok mtu(1)] ok obtain w' where
      "put_iov PPad mtu w = Inr w'" "gathered hdr w' = gathered hdr w @ replicate (nat mtu) 0"
      "iov_total w' = iov_total w + mtu" "wp_leftover w' = None" "wp_mbufs w' = wp_mbufs w" "wtp_moved None q w q w'"
      by auto
    with \<open>\<not> mtu \<le> 0\<close> mtu(2) d show ?thesis by (simp add: fills_def wtp_loop.simps requireE_def)
  qed
qed

lemma fills_split:
  assumes room: "wtp_room (Some a) q w" and ok: "bufs_ok (wp_mbufs w) (held_buf (Some a) @ q_bufs q)" and qok: "mqueue_ok q"
    and lo: "wp_leftover w = None" and mtu: "0 \<le> mtu" "mtu \<le> int MAXBUF"
    and gt: "6 < mtu" and True: "mtu < MBUF_LEN (wp_mbufs w a)"
    and tx: "tx_loop oneonly dontfrag (nat mtu) (buf_bytes (wp_mbufs w) (Some a)) (q_bytes (wp_mbufs w) q) = (d, lo, Q)"
  shows "fills oneonly dontfrag hdr mtu (Some a) q w d lo Q"
proof -
  let ?b = "wp_mbufs w a"
  have "mbuf_wf ?b" using ok by (simp add: bufs_ok_def)
  then have len: "MBUF_LEN ?b = int (length (mbuf_bytes ?b))" by (rule MBUF_LEN_bytes)
  from True len gt have n: "nat mtu < length (mbuf_bytes ?b)" "\<not> nat mtu \<le> 6" by auto
  with tx have d: "d = take (nat mtu) (mbuf_bytes ?b)" "lo = Some (drop (nat mtu) (mbuf_bytes ?b))"
    "Q = q_bytes (wp_mbufs w) q" by (auto simp: tx_loop.simps)
  from wtp_split_tx [OF room refl lo ok qok mtu(1) True, of hdr] obtain w1 where w1:
    "put_iov (PBuf a (mb_start ?b)) mtu w = Inr w1"
    "let w' = w1\<lparr>wp_mbufs := (wp_mbufs w1)(a := ?b\<lparr>mb_start := mb_start ?b + nat mtu\<rparr>), wp_leftover := Some a\<rparr>
     in gathered hdr w' = gathered hdr w @ take (nat mtu) (mbuf_bytes ?b) \<and> iov_total w' = iov_total w + mtu \<and>
       buf_bytes (wp_mbufs w') (Some a) = Some (drop (nat mtu) (mbuf_bytes ?b)) \<and> wtp_moved (Some a) q w q w'" by blast
  let ?w = "w1\<lparr>wp_mbufs := (wp_mbufs w1)(a := ?b\<lparr>mb_start := mb_start ?b + nat mtu\<rparr>), wp_leftover := Some a\<rparr>"
  have fin: "gathered hdr ?w = gathered hdr w @ take (nat mtu) (mbuf_bytes ?b)" "iov_total ?w = iov_total w + mtu"
    "buf_bytes (wp_mbufs ?w) (Some a) = Some (drop (nat mtu) (mbuf_bytes ?b))" "wtp_moved (Some a) q w q ?w"
    using w1(2) by (simp_all add: Let_def)
  have "a \<notin> set (q_bufs q)" using ok by (simp add: bufs_ok_def)
  with fin(4) have "q_bytes (wp_mbufs ?w) q = Q"
    unfolding d q_bytes_def by (intro map_cong) (auto simp: wtp_moved_def)
  moreover have "wtp_loop oneonly dontfrag mtu (Some a) q w = Inr (q, ?w)"
    using gt True w1(1) by (simp add: wtp_loop.simps Let_def)
  ultimately show ?thesis unfolding fills_def using fin d by (intro exI conjI) auto
qed

text \<open>A buffer that fits, given what the loop does with the rest.\<close>

lemma fills_whole:
  assumes room: "wtp_room (Some a) q w" and ok: "bufs_ok (wp_mbufs w) (held_buf (Some a) @ q_bufs q)" and qok: "mqueue_ok q"
    and lo: "wp_leftover w = None" and mtu: "0 \<le> mtu" "mtu \<le> int MAXBUF"
    and gt: "6 < mtu" and False: "\<not> mtu < MBUF_LEN (wp_mbufs w a)"
    and tx: "tx_loop oneonly dontfrag (nat mtu) (buf_bytes (wp_mbufs w) (Some a)) (q_bytes (wp_mbufs w) q) = (d, lo, Q)"
    and rest: "\<And>m' q' w2 mtu' d'. length (held_buf m' @ q_bufs q') < length (held_buf (Some a) @ q_bufs q) \<Longrightarrow> wtp_room m' q' w2 \<Longrightarrow>
      bufs_ok (wp_mbufs w2) (held_buf m' @ q_bufs q') \<Longrightarrow> mqueue_ok q' \<Longrightarrow> wp_leftover w2 = None \<Longrightarrow> 0 \<le> mtu' \<Longrightarrow> mtu' \<le> int MAXBUF \<Longrightarrow>
      (m' \<noteq> None \<Longrightarrow> 6 < mtu') \<Longrightarrow>
      tx_loop oneonly dontfrag (nat mtu') (buf_bytes (wp_mbufs w2) m') (q_bytes (wp_mbufs w2) q') = (d', lo, Q) \<Longrightarrow>
      fills oneonly dontfrag hdr mtu' m' q' w2 d' lo Q"
  shows "fills oneonly dontfrag hdr mtu (Some a) q w d lo Q"
proof -
  let ?b = "wp_mbufs w a"
  have "mbuf_wf ?b" using ok by (simp add: bufs_ok_def)
  then have len: "MBUF_LEN ?b = int (length (mbuf_bytes ?b))" by (rule MBUF_LEN_bytes)
  obtain m' q' where n: "wtp_next oneonly dontfrag (mtu - MBUF_LEN ?b) (wp_mbufs w) q = (m', q')" by force
  have okq: "bufs_ok (wp_mbufs w) (q_bufs q)" using ok by (simp add: bufs_ok_def)
  note nt = wtp_next_tx [OF qok okq n]
  from room ok have "wtp_room (Some a) q w" "bufs_ok (wp_mbufs w) (a # q_bufs q)" by simp_all
  from wtp_whole_tx [OF this qok n, of hdr] obtain w1 w2 where w2:
    "put_iov (PBuf a (mb_start ?b)) (MBUF_LEN ?b) w = Inr w1" "put_free a w1 = Inr w2"
    "gathered hdr w2 = gathered hdr w @ mbuf_bytes ?b" "iov_total w2 = iov_total w + MBUF_LEN ?b"
    "used_bufs w2 = used_bufs w @ [a]" "wp_mbufs w2 = wp_mbufs w" "wp_leftover w2 = wp_leftover w"
    "wtp_room m' q' w2" "bufs_ok (wp_mbufs w) (held_buf m' @ q_bufs q')" "mqueue_ok q'" "mq_size q' = mq_size q"
    "q_bufs q = held_buf m' @ q_bufs q'" "wp_niov w \<le> wp_niov w2" "take (wp_niov w) (wp_iovecs w2) = take (wp_niov w) (wp_iovecs w)"
    "length (wp_iovecs w2) = length (wp_iovecs w)"
    "length (wp_freem w2) = length (wp_freem w)" by blast
  have nat: "nat (mtu - MBUF_LEN ?b) = nat mtu - length (mbuf_bytes ?b)" using len by simp
  obtain d' where d': "tx_loop oneonly dontfrag (nat (mtu - MBUF_LEN ?b)) (buf_bytes (wp_mbufs w) m')
      (q_bytes (wp_mbufs w) q') = (d', lo, Q)" "d = mbuf_bytes ?b @ d'"
  proof -
    have c: "\<not> nat mtu < length (mbuf_bytes ?b)" "\<not> nat mtu \<le> 6" using gt False len by auto
    show thesis
      by (rule that [of "fst (tx_loop oneonly dontfrag (nat (mtu - MBUF_LEN ?b)) (buf_bytes (wp_mbufs w) m')
            (q_bytes (wp_mbufs w) q'))"])
         (use tx nt(1) c nat in \<open>simp_all add: tx_loop.simps [of oneonly dontfrag "nat mtu"] Let_def prod_eq_iff\<close>)
  qed
  have "length (held_buf m' @ q_bufs q') < length (held_buf (Some a) @ q_bufs q)" using w2(12) by simp
  have p: "bufs_ok (wp_mbufs w2) (held_buf m' @ q_bufs q')" "wp_leftover w2 = None" "0 \<le> mtu - MBUF_LEN ?b"
    "mtu - MBUF_LEN ?b \<le> int MAXBUF" using w2(6,7,9) lo False mtu(2) len by simp_all
  have d2: "tx_loop oneonly dontfrag (nat (mtu - MBUF_LEN ?b)) (buf_bytes (wp_mbufs w2) m')
      (q_bytes (wp_mbufs w2) q') = (d', lo, Q)" using d'(1) w2(6) by simp
  from rest [OF \<open>length _ < length _\<close> w2(8) p(1) w2(10) p(2-4) nt(5) d2] obtain q2 w3 where ih:
    "wtp_loop oneonly dontfrag (mtu - MBUF_LEN ?b) m' q' w2 = Inr (q2, w3)" "gathered hdr w3 = gathered hdr w2 @ d'"
    "iov_total w3 = iov_total w2 + (mtu - MBUF_LEN ?b)" "buf_bytes (wp_mbufs w3) (wp_leftover w3) = lo"
    "q_bytes (wp_mbufs w3) q2 = Q" "wtp_moved m' q' w2 q2 w3" by (auto simp: fills_def)
  have "wtp_loop oneonly dontfrag mtu (Some a) q w = Inr (q2, w3)"
    using gt False w2(1,2,6) n ih(1) by (subst wtp_loop.simps) (simp add: Let_def)
  moreover have "wtp_moved (Some a) q w q2 w3"
    by (rule wtp_moved_whole [OF refl ok w2(12) w2(5,6,11,15,16,13,14) ih(6)])
  ultimately show ?thesis unfolding fills_def using ih w2(3,4) d'(2) by auto
qed

lemma wtp_loop_fills:
  assumes "wtp_room m q w" "bufs_ok (wp_mbufs w) (held_buf m @ q_bufs q)" "mqueue_ok q" "wp_leftover w = None"
    "0 \<le> mtu" "mtu \<le> int MAXBUF" "m \<noteq> None \<Longrightarrow> 6 < mtu"
    "tx_loop oneonly dontfrag (nat mtu) (buf_bytes (wp_mbufs w) m) (q_bytes (wp_mbufs w) q) = (d, lo, Q)"
  shows "fills oneonly dontfrag hdr mtu m q w d lo Q"
  using assms
proof (induction "length (held_buf m @ q_bufs q)" arbitrary: m q w mtu d rule: less_induct)
  case less
  show ?case
  proof (cases m)
    case None
    from fills_pad [OF less.prems(1-6,8) [unfolded None]] None show ?thesis by simp
  next
    case (Some a)
    note prems = less.prems(1-6) [unfolded Some] less.prems(7) [unfolded Some, OF option.distinct(2)]
    show ?thesis
    proof (cases "mtu < MBUF_LEN (wp_mbufs w a)")
      case True
      from fills_split [OF prems True less.prems(8) [unfolded Some]] Some show ?thesis by simp
    next
      case False
      from fills_whole [OF prems False less.prems(8) [unfolded Some] less.hyps [unfolded Some]] Some show ?thesis by blast
    qed
  qed
qed

lemmas wtp_loop_tx = wtp_loop_fills [unfolded fills_def]

end
