(* ===== verification/IngressSys.thy ===== *)
theory IngressSys
  imports IngressSim
begin

text \<open>
  The sending side as a whole: the invariant of its buffers, what one turn of \<open>write_tfs_pkts\<close>
  and of \<open>read_intf_pkts\<close> do to it, and runs of both threads.
\<close>

section \<open>The used buffers go back\<close>

lemma push_all_room:
  assumes "mqueue_ok q" "length (mqueue_contents q) + length as \<le> mq_size q" "distinct as"
    "\<forall>a \<in> set as. mb_refcnt (h a) = 0"
  shows "\<exists>h' q'. push_all h q as = Inr (h', q') \<and> mqueue_ok q' \<and> mqueue_contents q' = mqueue_contents q @ as \<and>
    mq_size q' = mq_size q \<and> mq_hdrspace q' = mq_hdrspace q \<and>
    (\<forall>b. h' b = (if b \<in> set as
                 then (h b)\<lparr>mb_start := mq_hdrspace q, mb_end := mq_hdrspace q, mb_left := 0\<rparr> else h b))"
  using assms
proof (induction as arbitrary: h q)
  case Nil
  then show ?case by simp
next
  case (Cons a as)
  let ?h = "h(a := (h a)\<lparr>mb_start := mq_hdrspace q, mb_end := mq_hdrspace q, mb_left := 0\<rparr>)"
  from mqueue_push_reset [of q h a] Cons.prems obtain q1 where q1:
    "mqueue_push h q a True = Inr (Suc (length (mqueue_contents q)), ?h, q1)" "mqueue_ok q1"
    "mqueue_contents q1 = mqueue_contents q @ [a]" "mq_size q1 = mq_size q" "mq_hdrspace q1 = mq_hdrspace q" by auto
  have p: "\<forall>x \<in> set as. mb_refcnt (?h x) = 0" "length (mqueue_contents q1) + length as \<le> mq_size q1" "distinct as"
    using Cons.prems q1 by auto
  from Cons.IH [OF q1(2) p(2,3,1)] obtain h' q' where
    "push_all ?h q1 as = Inr (h', q')" "mqueue_ok q'" "mqueue_contents q' = mqueue_contents q1 @ as"
    "mq_size q' = mq_size q1" "mq_hdrspace q' = mq_hdrspace q1"
    "\<forall>b. h' b = (if b \<in> set as then (?h b)\<lparr>mb_start := mq_hdrspace q1, mb_end := mq_hdrspace q1, mb_left := 0\<rparr> else ?h b)"
    by blast
  with q1 Cons.prems(3) show ?case by auto
qed

section \<open>The invariant\<close>

text \<open>
  \<open>N\<close> is the size of the pool. Every buffer in the free queue, left over or queued is there
  once; none is referenced, and all are inside their bytes.
\<close>

definition ig_bufs :: "nat option \<Rightarrow> ingress \<Rightarrow> nat list" where
  "ig_bufs lo ig = mqueue_contents (ig_freeq ig) @ held_buf lo @ q_bufs (ig_outq ig)"

definition ig_inv :: "nat \<Rightarrow> nat option \<Rightarrow> ingress \<Rightarrow> bool" where
  "ig_inv N lo ig \<longleftrightarrow>
     mqueue_ok (ig_freeq ig) \<and> mqueue_ok (ig_outq ig) \<and> mq_size (ig_freeq ig) = N \<and> mq_size (ig_outq ig) = N \<and>
     mq_hdrspace (ig_freeq ig) = HDRSPACE \<and> distinct (ig_bufs lo ig) \<and> length (ig_bufs lo ig) \<le> N \<and>
     (\<forall>a \<in> set (ig_bufs lo ig). mbuf_wf (ig_mbufs ig a) \<and> mb_refcnt (ig_mbufs ig a) = 0 \<and>
        length (mb_space (ig_mbufs ig a)) = MAXBUF) \<and>
     (\<forall>a \<in> set (mqueue_contents (ig_freeq ig)). mb_start (ig_mbufs ig a) = HDRSPACE \<and> mb_end (ig_mbufs ig a) = HDRSPACE)"

text \<open>The bytes of the header and of the empty packet that no store reaches stay zero.\<close>

definition hdr_clean :: "bytes \<Rightarrow> bool" where
  "hdr_clean hdr \<longleftrightarrow> length hdr = 8 \<and> hdr ! 4 = 0 \<and> hdr ! 5 = 0"

definition ebytes_clean :: "bytes \<Rightarrow> bool" where
  "ebytes_clean e \<longleftrightarrow> length e = MAXBUF \<and> drop 4 e = replicate (MAXBUF - 4) 0"

definition wt_inv :: "nat \<Rightarrow> wtfs \<Rightarrow> bool" where
  "wt_inv N wt \<longleftrightarrow> ig_inv N (wt_leftover wt) (wt_ig wt) \<and> N + 2 \<le> length (wt_iovecs wt) \<and> N \<le> length (wt_freem wt) \<and>
     wt_iovecs wt ! 0 = \<lparr>iov_base = PHdr, iov_len = 8\<rparr> \<and> hdr_clean (wt_hdr wt) \<and> ebytes_clean (wt_ebytes wt)"

section \<open>The bytes of the two kinds of packet\<close>

lemma put32_start:
  "4 \<le> length e \<Longrightarrow> put32 e 0 v = [ucast (drop_bit 24 v), ucast (drop_bit 16 v), ucast (drop_bit 8 v), ucast v] @ drop 4 e"
  by (rule nth_equalityI) (auto simp: put32_def nth_list_update nth_append less_Suc_eq numeral_eq_Suc nth_Cons split: nat.split)

lemma hdr_bytes:
  assumes "hdr_clean hdr"
  shows "put16 (put32 hdr 0 seq) 6 (ucast off) = put16 (put32 (replicate 8 0) 0 seq) 6 (ucast (off :: u16))"
    "hdr_clean (put16 (put32 hdr 0 seq) 6 (ucast off))"
proof -
  have "length hdr = 8" using assms by (simp add: hdr_clean_def)
  then obtain a b c d e f g i where hdr: "hdr = [a, b, c, d, e, f, g, i]"
    by (auto simp: numeral_eq_Suc length_Suc_conv)
  have "replicate 8 (0 :: u8) = [0, 0, 0, 0, 0, 0, 0, 0]" by (simp add: numeral_eq_Suc)
  with assms show "put16 (put32 hdr 0 seq) 6 (ucast off) = put16 (put32 (replicate 8 0) 0 seq) 6 (ucast off)"
    by (simp add: hdr hdr_clean_def put16_def put32_def)
  show "hdr_clean (put16 (put32 hdr 0 seq) 6 (ucast off))"
    using assms by (simp add: hdr hdr_clean_def put16_def put32_def)
qed

lemma empty_bytes:
  assumes "ebytes_clean e" "8 \<le> mtu" "mtu \<le> MAXBUF"
  shows "take mtu (put32 e 0 seq) = tfs_bytes seq 0 (replicate (mtu - 8) 0)" "ebytes_clean (put32 e 0 seq)"
proof -
  let ?s = "[ucast (drop_bit 24 seq), ucast (drop_bit 16 seq), ucast (drop_bit 8 seq), ucast seq] :: bytes"
  have e: "put32 e 0 seq = ?s @ replicate (MAXBUF - 4) 0"
    using assms(1) put32_start [of e seq] by (simp add: ebytes_clean_def const_defs)
  then show "ebytes_clean (put32 e 0 seq)" by (simp add: ebytes_clean_def const_defs)
  have "replicate (mtu - 4) (0 :: u8) = [0, 0, 0, 0] @ replicate (mtu - 8) 0"
  proof -
    have "mtu - 4 = 4 + (mtu - 8)" using assms(2) by simp
    then show ?thesis by (simp only: replicate_add) (simp add: numeral_eq_Suc)
  qed
  moreover have "tfs_bytes seq 0 (replicate (mtu - 8) 0) = ?s @ [0, 0, 0, 0] @ replicate (mtu - 8) 0"
    by (simp add: tfs_bytes_def put32_start put16_def numeral_eq_Suc)
  moreover have "take mtu (?s @ replicate (MAXBUF - 4) 0) = ?s @ replicate (mtu - 4) 0"
    using assms(2,3) by (simp add: min_absorb1 take_Cons' const_defs)
  ultimately show "take mtu (put32 e 0 seq) = tfs_bytes seq 0 (replicate (mtu - 8) 0)" using e by simp
qed

section \<open>After the filling loop\<close>

text \<open>What the loop leaves, with the free queue \<open>fq\<close> as it is.\<close>

definition sent_bufs :: "mqueue \<Rightarrow> mqueue \<Rightarrow> wtp \<Rightarrow> nat list" where
  "sent_bufs fq q w = mqueue_contents fq @ used_bufs w @ held_buf (wp_leftover w) @ q_bufs q"

definition send_ready :: "nat \<Rightarrow> mqueue \<Rightarrow> mqueue \<Rightarrow> wtp \<Rightarrow> bool" where
  "send_ready N fq q w \<longleftrightarrow>
     mqueue_ok fq \<and> mqueue_ok q \<and> mq_size fq = N \<and> mq_size q = N \<and> mq_hdrspace fq = HDRSPACE \<and>
     distinct (sent_bufs fq q w) \<and> length (sent_bufs fq q w) \<le> N \<and>
     (\<forall>a \<in> set (sent_bufs fq q w). mbuf_wf (wp_mbufs w a) \<and> mb_refcnt (wp_mbufs w a) = 0 \<and>
        length (mb_space (wp_mbufs w a)) = MAXBUF) \<and>
     (\<forall>a \<in> set (mqueue_contents fq). mb_start (wp_mbufs w a) = HDRSPACE \<and> mb_end (wp_mbufs w a) = HDRSPACE) \<and>
     wp_nfree w + length (held_buf (wp_leftover w)) \<le> length (wp_freem w)"

lemma short_write_ready:
  assumes "send_ready N fq q w"
  shows "\<exists>w2. bindE (case wp_leftover w of Some a \<Rightarrow> put_free a w | None \<Rightarrow> Inr w)
      (\<lambda>w1. Inr (w1\<lparr>wp_leftover := None\<rparr>)) = Inr w2 \<and> send_ready N fq q w2 \<and> wp_leftover w2 = None \<and>
    sent_bufs fq q w2 = sent_bufs fq q w \<and> wp_mbufs w2 = wp_mbufs w \<and> wp_iovecs w2 = wp_iovecs w \<and>
    length (wp_freem w2) = length (wp_freem w)"
proof (cases "wp_leftover w")
  case None
  then have e: "w\<lparr>wp_leftover := None\<rparr> = w" by (cases w) simp
  show ?thesis unfolding None option.case bindE_Inr e using assms None by simp
next
  case (Some a)
  with assms have "wp_nfree w < length (wp_freem w)" by (simp add: send_ready_def)
  from put_free_room [OF this, of a] obtain w1 where w1: "put_free a w = Inr w1" "used_bufs w1 = used_bufs w @ [a]"
    "wp_nfree w1 = wp_nfree w + 1" "length (wp_freem w1) = length (wp_freem w)" "wp_mbufs w1 = wp_mbufs w"
    "wp_iovecs w1 = wp_iovecs w" by blast
  let ?w = "w1\<lparr>wp_leftover := None\<rparr>"
  have s: "sent_bufs fq q ?w = sent_bufs fq q w"
    using w1(2) Some by (simp add: sent_bufs_def) (simp add: used_bufs_def)
  have "send_ready N fq q ?w"
    using assms Some w1(3-5) s by (simp add: send_ready_def)
  with s w1 Some show ?thesis by simp
qed

lemma wtp_send_tx:
  assumes "send_ready N (ig_freeq (wt_ig wt)) q w" "iov_total w = tfsmtu"
  shows "\<exists>wt'. wtp_send tfsmtu n wt q w = Inr (Some (gathered (wt_hdr wt) w), wt') \<and>
    wt_leftover wt' = (if n = tfsmtu then wp_leftover w else None) \<and> wt_seq wt' = wt_seq wt + 1 \<and>
    wt_hdr wt' = wt_hdr wt \<and> wt_ebytes wt' = wt_ebytes wt \<and> wt_iovecs wt' = wp_iovecs w \<and>
    length (wt_freem wt') = length (wp_freem w) \<and>
    ig_inv N (wt_leftover wt') (wt_ig wt') \<and>
    set (ig_bufs (wt_leftover wt') (wt_ig wt')) = set (sent_bufs (ig_freeq (wt_ig wt)) q w) \<and>
    buf_bytes (ig_mbufs (wt_ig wt')) (wt_leftover wt') = (if n = tfsmtu then buf_bytes (wp_mbufs w) (wp_leftover w) else None) \<and>
    q_bytes (ig_mbufs (wt_ig wt')) (ig_outq (wt_ig wt')) = q_bytes (wp_mbufs w) q"
proof -
  let ?fq = "ig_freeq (wt_ig wt)"
  obtain w2 where w2: "(if n \<noteq> tfsmtu
      then bindE (case wp_leftover w of Some a \<Rightarrow> put_free a w | None \<Rightarrow> Inr w) (\<lambda>w1. Inr (w1\<lparr>wp_leftover := None\<rparr>))
      else Inr w) = Inr w2" "send_ready N ?fq q w2" "wp_leftover w2 = (if n = tfsmtu then wp_leftover w else None)"
    "sent_bufs ?fq q w2 = sent_bufs ?fq q w" "wp_mbufs w2 = wp_mbufs w" "wp_iovecs w2 = wp_iovecs w"
    "length (wp_freem w2) = length (wp_freem w)"
    using short_write_ready [OF assms(1)] assms(1) by (cases "n = tfsmtu") auto
  have r: "mqueue_ok ?fq" "mq_hdrspace ?fq = HDRSPACE" "length (mqueue_contents ?fq) + length (used_bufs w2) \<le> mq_size ?fq"
    "distinct (used_bufs w2)" "\<forall>a \<in> set (used_bufs w2). mb_refcnt (wp_mbufs w2 a) = 0"
    using w2(2) by (auto simp: send_ready_def sent_bufs_def)
  from push_all_room [OF r(1,3-5)] r(2) obtain h fq where h:
    "push_all (wp_mbufs w2) ?fq (used_bufs w2) = Inr (h, fq)" "mqueue_ok fq"
    "mqueue_contents fq = mqueue_contents ?fq @ used_bufs w2" "mq_size fq = mq_size ?fq" "mq_hdrspace fq = HDRSPACE"
    "\<And>b. h b = (if b \<in> set (used_bufs w2)
       then (wp_mbufs w2 b)\<lparr>mb_start := HDRSPACE, mb_end := HDRSPACE, mb_left := 0\<rparr> else wp_mbufs w2 b)" by auto
  let ?ig = "\<lparr>ig_mbufs = h, ig_freeq = fq, ig_outq = q\<rparr>"
  let ?wt = "wt\<lparr>wt_ig := ?ig, wt_iovecs := wp_iovecs w2, wt_freem := wp_freem w2, wt_seq := wt_seq wt + 1,
    wt_leftover := wp_leftover w2\<rparr>"
  have "wtp_send tfsmtu n wt q w = Inr (Some (gathered (wt_hdr wt) w), ?wt)"
    using assms(2) w2(1) h(1) unfolding wtp_send_def iov_total_def used_bufs_def gathered_def by (simp add: Let_def)
  moreover have all: "ig_bufs (wp_leftover w2) ?ig = sent_bufs ?fq q w2" by (simp add: ig_bufs_def sent_bufs_def h(3))
  have "ig_inv N (wp_leftover w2) ?ig"
    unfolding ig_inv_def all using w2(2) h(2-5) HDR_le_MAXBUF by (auto simp: send_ready_def h(6) mbuf_wf_def)
  moreover have "a \<notin> set (used_bufs w2)" if "a \<in> set (held_buf (wp_leftover w2) @ q_bufs q)" for a
    using that w2(2) by (auto simp: send_ready_def sent_bufs_def)
  then have "buf_bytes h (wp_leftover w2) = buf_bytes (wp_mbufs w2) (wp_leftover w2)"
    "q_bytes h q = q_bytes (wp_mbufs w2) q"
    by (cases "wp_leftover w2", auto simp: h(6) q_bytes_def)
  ultimately show ?thesis using w2(3-7) all by auto
qed

section \<open>One turn of the tunnel writer\<close>

text \<open>What follows the first buffer.\<close>

text \<open>When the loop is done, everything is ready for \<open>sendmsg\<close>, and every buffer is at hand.\<close>

lemma moved_ready:
  assumes inv: "wt_inv N wt" and all: "ig_bufs (wt_leftover wt) (wt_ig wt) = mqueue_contents (ig_freeq (wt_ig wt)) @ a # q_bufs q"
    and q: "mqueue_ok q" "mq_size q = N" and l: "wtp_moved (Some a) q w q' w'"
    and w_def: "w = \<lparr>wp_mbufs = ig_mbufs (wt_ig wt), wp_iovecs = wt_iovecs wt, wp_niov = 1,
                wp_freem = wt_freem wt, wp_nfree = 0, wp_leftover = None\<rparr>"
  shows "send_ready N (ig_freeq (wt_ig wt)) q' w'"
    and "sent_bufs (ig_freeq (wt_ig wt)) q' w' = ig_bufs (wt_leftover wt) (wt_ig wt)"
    and "length (wp_iovecs w') = length (wt_iovecs wt)" "length (wp_freem w') = length (wt_freem wt)"
    and "take 1 (wp_iovecs w') = take 1 (wt_iovecs wt)"
proof -
  let ?h = "ig_mbufs (wt_ig wt)" and ?fq = "ig_freeq (wt_ig wt)"
  have ig: "ig_inv N (wt_leftover wt) (wt_ig wt)" using inv by (simp add: wt_inv_def)
  from l obtain us where us: "used_bufs w' = used_bufs w @ us" "a # q_bufs q = us @ held_buf (wp_leftover w') @ q_bufs q'"
    by (auto simp: wtp_moved_def)
  have "used_bufs w' = us" using us(1) by (simp add: used_bufs_def w_def)
  then show sent: "sent_bufs ?fq q' w' = ig_bufs (wt_leftover wt) (wt_ig wt)" using us(2) all by (simp add: sent_bufs_def)
  have mv: "\<And>b. \<exists>i. wp_mbufs w' b = (?h b)\<lparr>mb_start := i\<rparr>" "\<And>b. wp_leftover w' \<noteq> Some b \<Longrightarrow> wp_mbufs w' b = ?h b"
    "\<forall>b \<in> set (a # q_bufs q). mbuf_wf (wp_mbufs w' b)" "mqueue_ok q'" "mq_size q' = N"
    "length (wp_iovecs w') = length (wt_iovecs wt)" "length (wp_freem w') = length (wt_freem wt)"
    "wp_nfree w' + length (held_buf (wp_leftover w')) \<le> length (wp_freem w')"
    "take 1 (wp_iovecs w') = take 1 (wt_iovecs wt)"
    using l q(2) by (auto simp: wtp_moved_def bufs_ok_def w_def)
  show "send_ready N ?fq q' w'"
    unfolding send_ready_def sent
  proof (intro conjI ballI)
    fix b assume b: "b \<in> set (ig_bufs (wt_leftover wt) (wt_ig wt))"
    with ig have wf: "mbuf_wf (?h b)" "mb_refcnt (?h b) = 0" "length (mb_space (?h b)) = MAXBUF"
      by (auto simp: ig_inv_def)
    from mv(1) obtain i where i: "wp_mbufs w' b = (?h b)\<lparr>mb_start := i\<rparr>" by blast
    with wf show "mb_refcnt (wp_mbufs w' b) = 0" "length (mb_space (wp_mbufs w' b)) = MAXBUF" by simp_all
    show "mbuf_wf (wp_mbufs w' b)"
    proof (cases "b \<in> set (a # q_bufs q)")
      case False
      then have "b \<notin> set (held_buf (wp_leftover w'))" using us(2) by auto
      then have "wp_leftover w' \<noteq> Some b" by auto
      with mv(2) wf show ?thesis by simp
    qed (use mv(3) in blast)
  next
    fix b assume b: "b \<in> set (mqueue_contents ?fq)"
    have "b \<notin> set (a # q_bufs q)" using ig b by (auto simp: ig_inv_def all)
    then have "b \<notin> set (held_buf (wp_leftover w'))" using us(2) by auto
    then have "wp_leftover w' \<noteq> Some b" by auto
    then have "wp_mbufs w' b = ?h b" by (rule mv(2))
    with ig b show "mb_start (wp_mbufs w' b) = HDRSPACE" "mb_end (wp_mbufs w' b) = HDRSPACE"
      by (simp_all add: ig_inv_def)
  qed (use ig mv in \<open>simp_all add: ig_inv_def\<close>)
  show "length (wp_iovecs w') = length (wt_iovecs wt)" "length (wp_freem w') = length (wt_freem wt)"
    "take 1 (wp_iovecs w') = take 1 (wt_iovecs wt)" using mv by blast+
qed

lemma wtp_data_tx:
  assumes inv: "wt_inv N wt" and m: "wt_leftover wt = Some a \<and> q = ig_outq (wt_ig wt) \<or>
      wt_leftover wt = None \<and> q_bufs (ig_outq (wt_ig wt)) = a # q_bufs q \<and> mqueue_ok q \<and> mq_size q = N"
    and mtu: "14 < tfsmtu" "tfsmtu \<le> int MAXBUF"
    and tx: "tx_loop oneonly dontfrag (nat (tfsmtu - 8)) (Some (mbuf_bytes (ig_mbufs (wt_ig wt) a)))
      (q_bytes (ig_mbufs (wt_ig wt)) q) = (d, lo, Q)"
    and wt1: "ig_mbufs (wt_ig wt1) = ig_mbufs (wt_ig wt)" "ig_freeq (wt_ig wt1) = ig_freeq (wt_ig wt)"
      "wt_seq wt1 = wt_seq wt" "wt_ebytes wt1 = wt_ebytes wt" "hdr_clean (wt_hdr wt1)"
  defines "w \<equiv> \<lparr>wp_mbufs = ig_mbufs (wt_ig wt), wp_iovecs = wt_iovecs wt, wp_niov = 1,
                wp_freem = wt_freem wt, wp_nfree = 0, wp_leftover = None\<rparr>"
  shows "\<exists>q' w' wt'. wtp_loop oneonly dontfrag (tfsmtu - 8) (Some a) q w = Inr (q', w') \<and>
    wtp_send tfsmtu n wt1 q' w' = Inr (Some (wt_hdr wt1 @ d), wt') \<and> wt_inv N wt' \<and> wt_seq wt' = wt_seq wt + 1 \<and>
    set (ig_bufs (wt_leftover wt') (wt_ig wt')) = set (ig_bufs (wt_leftover wt) (wt_ig wt)) \<and>
    buf_bytes (ig_mbufs (wt_ig wt')) (wt_leftover wt') = (if n = tfsmtu then lo else None) \<and>
    q_bytes (ig_mbufs (wt_ig wt')) (ig_outq (wt_ig wt')) = Q"
proof -
  let ?h = "ig_mbufs (wt_ig wt)" and ?fq = "ig_freeq (wt_ig wt)"
  have ig: "ig_inv N (wt_leftover wt) (wt_ig wt)" using inv by (simp add: wt_inv_def)
  have all: "ig_bufs (wt_leftover wt) (wt_ig wt) = mqueue_contents ?fq @ a # q_bufs q"
    using m by (auto simp: ig_bufs_def)
  have q: "mqueue_ok q" "mq_size q = N" using m ig by (auto simp: ig_inv_def)
  have len: "length (a # q_bufs q) \<le> N" using ig by (simp add: ig_inv_def all)
  have room: "wtp_room (Some a) q w" using len inv by (simp add: wtp_room_def w_def wt_inv_def)
  have ok: "bufs_ok (wp_mbufs w) (held_buf (Some a) @ q_bufs q)"
    using ig by (simp add: ig_inv_def all bufs_ok_def w_def)
  have p: "wp_leftover w = None" "0 \<le> tfsmtu - 8" "tfsmtu - 8 \<le> int MAXBUF" "6 < tfsmtu - 8"
    "tx_loop oneonly dontfrag (nat (tfsmtu - 8)) (buf_bytes (wp_mbufs w) (Some a)) (q_bytes (wp_mbufs w) q) = (d, lo, Q)"
    using mtu tx by (simp_all add: w_def)
  from wtp_loop_tx [OF room ok q(1) p(1-3) _ p(5), of "wt_hdr wt1"] p(4) obtain q' w' where
    l: "wtp_loop oneonly dontfrag (tfsmtu - 8) (Some a) q w = Inr (q', w')"
      "gathered (wt_hdr wt1) w' = gathered (wt_hdr wt1) w @ d" "iov_total w' = iov_total w + (tfsmtu - 8)"
      "buf_bytes (wp_mbufs w') (wp_leftover w') = lo" "q_bytes (wp_mbufs w') q' = Q" "wtp_moved (Some a) q w q' w'"
    by blast
  note rd = moved_ready [OF inv all q l(6) w_def [THEN meta_eq_to_obj_eq]]
  have iov: "wt_iovecs wt = \<lparr>iov_base = PHdr, iov_len = 8\<rparr> # tl (wt_iovecs wt)" "length (wt_iovecs wt) \<ge> N + 2"
    using inv by (cases "wt_iovecs wt", auto simp: wt_inv_def)
  then have iov': "wp_iovecs w' ! 0 = \<lparr>iov_base = PHdr, iov_len = 8\<rparr>"
    using rd(5) by (cases "wp_iovecs w'"; cases "wt_iovecs wt") auto
  have hdr: "length (wt_hdr wt1) = 8" using wt1(5) by (simp add: hdr_clean_def)
  have tot: "iov_total w = 8"
    unfolding iov_total_def w_def by (subst iov) (simp add: numeral_eq_Suc)
  have gat: "gathered (wt_hdr wt1) w = wt_hdr wt1"
    unfolding gathered_def w_def by (subst iov) (simp add: hdr iov_seg_def)
  have "iov_total w' = tfsmtu" using l(3) tot by simp
  from wtp_send_tx [of N wt1, unfolded wt1(2), OF rd(1) this, of n] obtain wt' where wt':
    "wtp_send tfsmtu n wt1 q' w' = Inr (Some (gathered (wt_hdr wt1) w'), wt')" "wt_seq wt' = wt_seq wt1 + 1"
    "wt_hdr wt' = wt_hdr wt1" "wt_ebytes wt' = wt_ebytes wt1" "wt_iovecs wt' = wp_iovecs w'"
    "length (wt_freem wt') = length (wp_freem w')" "ig_inv N (wt_leftover wt') (wt_ig wt')"
    "set (ig_bufs (wt_leftover wt') (wt_ig wt')) = set (sent_bufs ?fq q' w')"
    "buf_bytes (ig_mbufs (wt_ig wt')) (wt_leftover wt') = (if n = tfsmtu then buf_bytes (wp_mbufs w') (wp_leftover w') else None)"
    "q_bytes (ig_mbufs (wt_ig wt')) (ig_outq (wt_ig wt')) = q_bytes (wp_mbufs w') q'" by blast
  have "wt_inv N wt'"
    using wt' wt1 rd(3,4) iov(2) iov' inv by (simp add: wt_inv_def)
  with l wt' wt1 gat rd(2) show ?thesis by simp
qed

lemma wtp_count_simps [simp]:
  "wt_ig (wtp_count now e wt) = wt_ig wt" "wt_iovecs (wtp_count now e wt) = wt_iovecs wt"
  "wt_freem (wtp_count now e wt) = wt_freem wt" "wt_hdr (wtp_count now e wt) = wt_hdr wt"
  "wt_ebytes (wtp_count now e wt) = wt_ebytes wt" "wt_seq (wtp_count now e wt) = wt_seq wt"
  "wt_leftover (wtp_count now e wt) = wt_leftover wt"
  by (simp_all add: wtp_count_def Let_def split: prod.split)

text \<open>The bytes of the packet of the specification.\<close>

definition tx_wire :: "u32 \<Rightarrow> nat \<times> bytes \<Rightarrow> bytes" where
  "tx_wire seq = (\<lambda>(off, d). wire (seq, of_nat off, d))"

text \<open>The offset field has 16 bits.\<close>

lemma of_nat_mod16: "of_nat (k mod 2 ^ 16) = (of_nat k :: u16)"
  by (rule word_unat_eq_iff [THEN iffD2]) (simp add: unat_of_nat)

lemma write_empty_clean:
  assumes "ebytes_clean e" "8 \<le> tfsmtu" "tfsmtu \<le> int MAXBUF"
  shows "write_empty_tfs_pkt e seq (word_of_int tfsmtu) =
      Inr (tfs_bytes seq 0 (replicate (nat tfsmtu - 8) 0), seq + 1, put32 e 0 seq) \<and> ebytes_clean (put32 e 0 seq)"
proof -
  have k: "unat (word_of_int tfsmtu :: u32) = nat tfsmtu"
    using assms(2,3) by (simp only: unat_eq_nat_uint uint_word_of_int const_defs) simp
  have l: "8 \<le> nat tfsmtu" "nat tfsmtu \<le> MAXBUF" using assms(2,3) by auto
  have "length (put32 e 0 seq) = MAXBUF" using empty_bytes(2) [OF assms(1) l] by (simp add: ebytes_clean_def)
  with l empty_bytes [OF assms(1) l, of seq] show ?thesis by (simp add: write_empty_tfs_pkt_def k Let_def)
qed

text \<open>With a first buffer, the packet is the one of the specification's loop.\<close>

lemma write_data_tx:
  assumes inv: "wt_inv N wt" and mtu: "14 < tfsmtu" "tfsmtu \<le> int MAXBUF"
    and f: "wtp_first wt = (Some a, off, q)"
    and c: "wt_leftover wt = Some a \<and> q = ig_outq (wt_ig wt) \<or>
      wt_leftover wt = None \<and> q_bufs (ig_outq (wt_ig wt)) = a # q_bufs q \<and> mqueue_ok q \<and> mq_size q = N"
    and pk: "pkt = Some (k, d)" "off = of_nat k"
      "tx_loop oneonly dontfrag (nat (tfsmtu - 8)) (Some (mbuf_bytes (ig_mbufs (wt_ig wt) a))) (q_bytes (ig_mbufs (wt_ig wt)) q) = (d, lo, Q)"
  shows "\<exists>wt'. write_tfs_pkt oneonly dontfrag tfsmtu now n wt = Inr (map_option (tx_wire (wt_seq wt)) pkt, wt') \<and>
    wt_inv N wt' \<and> wt_seq wt' = (if pkt = None then wt_seq wt else wt_seq wt + 1) \<and>
    set (ig_bufs (wt_leftover wt') (wt_ig wt')) = set (ig_bufs (wt_leftover wt) (wt_ig wt)) \<and>
    buf_bytes (ig_mbufs (wt_ig wt')) (wt_leftover wt') = (if n = tfsmtu then lo else None) \<and>
    q_bytes (ig_mbufs (wt_ig wt')) (ig_outq (wt_ig wt')) = Q"
proof -
  let ?h = "ig_mbufs (wt_ig wt)" and ?wt1 = "wtp_count now False (wt\<lparr>wt_leftover := None, wt_ig := (wt_ig wt)\<lparr>ig_outq := q\<rparr>\<rparr>)"
  have hc: "hdr_clean (wt_hdr wt)" using inv by (simp add: wt_inv_def)
  let ?wt2 = "?wt1\<lparr>wt_hdr := put16 (put32 (wt_hdr wt) 0 (wt_seq wt)) 6 (ucast off)\<rparr>"
  from wtp_data_tx [OF inv c mtu pk(3), of ?wt2 n] hdr_bytes(2) [OF hc] obtain q' w' wt' where
    "wtp_loop oneonly dontfrag (tfsmtu - 8) (Some a) q
       \<lparr>wp_mbufs = ?h, wp_iovecs = wt_iovecs wt, wp_niov = 1, wp_freem = wt_freem wt, wp_nfree = 0, wp_leftover = None\<rparr> = Inr (q', w')"
    "wtp_send tfsmtu n ?wt2 q' w' = Inr (Some (wt_hdr ?wt2 @ d), wt')" "wt_inv N wt'" "wt_seq wt' = wt_seq wt + 1"
    "set (ig_bufs (wt_leftover wt') (wt_ig wt')) = set (ig_bufs (wt_leftover wt) (wt_ig wt))"
    "buf_bytes (ig_mbufs (wt_ig wt')) (wt_leftover wt') = (if n = tfsmtu then lo else None)"
    "q_bytes (ig_mbufs (wt_ig wt')) (ig_outq (wt_ig wt')) = Q" by auto
  moreover have "wt_hdr ?wt2 @ d = tx_wire (wt_seq wt) (k, d)"
    using hdr_bytes(1) [OF hc, of "wt_seq wt" off] pk(2) by (simp add: tx_wire_def wire_def tfs_bytes_def)
  ultimately show ?thesis
    using f pk(1) by (simp add: write_tfs_pkt_def Let_def)
qed

text \<open>Without one, it is empty, or in one-only mode there is none.\<close>

lemma write_none_tx:
  assumes inv: "wt_inv N wt" and mtu: "14 < tfsmtu" "tfsmtu \<le> int MAXBUF"
    and f: "wtp_first wt = (None, off, ig_outq (wt_ig wt))" and none: "wt_leftover wt = None" "q_bufs (ig_outq (wt_ig wt)) = []"
    and pkt: "pkt = (if oneonly then None else Some (0, replicate (nat (tfsmtu - 8)) 0))" "lo = None" "Q = []"
  shows "\<exists>wt'. write_tfs_pkt oneonly dontfrag tfsmtu now n wt = Inr (map_option (tx_wire (wt_seq wt)) pkt, wt') \<and>
    wt_inv N wt' \<and> wt_seq wt' = (if pkt = None then wt_seq wt else wt_seq wt + 1) \<and>
    set (ig_bufs (wt_leftover wt') (wt_ig wt')) = set (ig_bufs (wt_leftover wt) (wt_ig wt)) \<and>
    buf_bytes (ig_mbufs (wt_ig wt')) (wt_leftover wt') = (if n = tfsmtu then lo else None) \<and>
    q_bytes (ig_mbufs (wt_ig wt')) (ig_outq (wt_ig wt')) = Q"
proof -
  have same: "wt\<lparr>wt_leftover := None\<rparr> = wt" using none(1) by simp
  have Q: "q_bytes (ig_mbufs (wt_ig wt)) (ig_outq (wt_ig wt)) = []" using none(2) by (simp add: q_bytes_def)
  have inv1: "wt_inv N (wtp_count now True wt)" and ec: "ebytes_clean (wt_ebytes wt)" using inv by (simp_all add: wt_inv_def)
  show ?thesis
  proof (cases oneonly)
    case True
    with f pkt Q inv1 none show ?thesis by (simp add: write_tfs_pkt_def Let_def same)
  next
    case False
    note e = write_empty_clean [OF ec, of tfsmtu "wt_seq wt"]
    have "wt_inv N ((wtp_count now True wt)\<lparr>wt_seq := wt_seq wt + 1, wt_ebytes := put32 (wt_ebytes wt) 0 (wt_seq wt)\<rparr>)"
      using inv e mtu by (simp add: wt_inv_def)
    moreover have "nat (tfsmtu - 8) = nat tfsmtu - 8" using mtu by simp
    ultimately show ?thesis
      using f pkt Q none False e mtu by (simp add: write_tfs_pkt_def Let_def tx_wire_def wire_def same)
  qed
qed

lemma write_tfs_pkt_tx:
  assumes inv: "wt_inv N wt" and mtu: "14 < tfsmtu" "tfsmtu \<le> int MAXBUF"
    and tx: "tx_packet oneonly dontfrag (nat (tfsmtu - 8)) (buf_bytes (ig_mbufs (wt_ig wt)) (wt_leftover wt))
      (q_bytes (ig_mbufs (wt_ig wt)) (ig_outq (wt_ig wt))) = (pkt, lo, Q)"
  shows "\<exists>wt'. write_tfs_pkt oneonly dontfrag tfsmtu now n wt = Inr (map_option (tx_wire (wt_seq wt)) pkt, wt') \<and>
    wt_inv N wt' \<and> wt_seq wt' = (if pkt = None then wt_seq wt else wt_seq wt + 1) \<and>
    set (ig_bufs (wt_leftover wt') (wt_ig wt')) = set (ig_bufs (wt_leftover wt) (wt_ig wt)) \<and>
    buf_bytes (ig_mbufs (wt_ig wt')) (wt_leftover wt') = (if n = tfsmtu then lo else None) \<and>
    q_bytes (ig_mbufs (wt_ig wt')) (ig_outq (wt_ig wt')) = Q"
proof -
  let ?h = "ig_mbufs (wt_ig wt)" and ?q0 = "ig_outq (wt_ig wt)"
  have ig: "ig_inv N (wt_leftover wt) (wt_ig wt)" using inv by (simp add: wt_inv_def)
  obtain m off q where f: "wtp_first wt = (m, off, q)" by (metis prod_cases3)
  have bok: "bufs_ok ?h (q_bufs ?q0)" "mqueue_ok ?q0" "mq_size ?q0 = N"
    using ig by (auto simp: ig_inv_def ig_bufs_def bufs_ok_def)
  note data = write_data_tx [OF inv mtu]
  show ?thesis
  proof (cases "wt_leftover wt")
    case (Some a)
    then have fs: "m = Some a" "q = ?q0" "off = word_of_int (MBUF_LEN (?h a))" using f by (simp_all add: wtp_first_def Let_def)
    have "mbuf_wf (?h a)" using ig Some by (simp add: ig_inv_def ig_bufs_def)
    then have "off = of_nat (length (mbuf_bytes (?h a)))" using fs(3) by (simp add: MBUF_LEN_bytes)
    moreover from tx Some obtain d where "pkt = Some (length (mbuf_bytes (?h a)) mod 2 ^ 16, d)"
      "tx_loop oneonly dontfrag (nat (tfsmtu - 8)) (Some (mbuf_bytes (?h a))) (q_bytes ?h q) = (d, lo, Q)"
      by (auto simp: tx_packet_def Let_def fs(2) prod_eq_iff)
    ultimately show ?thesis using data [OF f [unfolded fs(1)]] Some fs(2) of_nat_mod16 by metis
  next
    case None
    then have pop: "mqueue_trypop ?h ?q0 0 = (m, q)" and off: "off = 0"
      using f by (simp_all add: wtp_first_def Let_def case_prod_unfold prod_eq_iff)
    note t = trypop_next [OF bok(2,1) pop]
    show ?thesis
    proof (cases m)
      case (Some a)
      with t have q: "q_bufs ?q0 = a # q_bufs q" "mqueue_ok q" "mq_size q = N" using bok(3) by auto
      from tx None obtain d where "pkt = Some (0, d)"
        "tx_loop oneonly dontfrag (nat (tfsmtu - 8)) (Some (mbuf_bytes (?h a))) (q_bytes ?h q) = (d, lo, Q)"
        by (auto simp: tx_packet_def Let_def q_bytes_def q(1) prod_eq_iff)
      with data [OF f [unfolded Some]] None q off show ?thesis by simp
    next
      case None2: None
      from t None2 have q: "q = ?q0" "q_bufs ?q0 = []" by blast+
      have "pkt = (if oneonly then None else Some (0, replicate (nat (tfsmtu - 8)) 0))" "lo = None" "Q = []"
        using tx None q(2) by (auto simp: tx_packet_def q_bytes_def)
      from write_none_tx [OF inv mtu f [unfolded None2 q(1)] None q(2) this] show ?thesis .
    qed
  qed
qed

end
