(* ===== verification/IngressRun.thy ===== *)
theory IngressRun
  imports IngressSys "HOL-Library.Multiset"
begin

text \<open>
  Runs of the sending side: what a turn of \<open>read_intf_pkts\<close> does, \<open>tfs_tunnel_ingress\<close>, the turns
  of both threads in any order, and the tunnel packets that come out.
\<close>

section \<open>A turn of the interface reader\<close>

definition room_for :: nat where
  "room_for = MAXBUF - HDRSPACE"

text \<open>What a turn adds to the queue.\<close>

fun packet_of :: "read_result \<Rightarrow> bytes list" where
  "packet_of ReadErr = []"
| "packet_of (ReadPkt p) = (if p = [] then [] else [take room_for p])"

lemma free_pop:
  assumes "ig_inv N lo ig" "mqueue_contents (ig_freeq ig) \<noteq> []"
  obtains a fq where "mqueue_pop (ig_freeq ig) = Inr (a, fq)" "mqueue_contents (ig_freeq ig) = mqueue_contents fq @ [a]"
    "ig_inv N lo (ig\<lparr>ig_freeq := fq\<rparr>)" "mqueue_ok fq" "mq_size fq = N" "mq_hdrspace fq = HDRSPACE"
    "mb_start (ig_mbufs ig a) = HDRSPACE" "mb_end (ig_mbufs ig a) = HDRSPACE" "mb_refcnt (ig_mbufs ig a) = 0"
    "length (mb_space (ig_mbufs ig a)) = MAXBUF" "a \<notin> set (ig_bufs lo (ig\<lparr>ig_freeq := fq\<rparr>))"
    "length (ig_bufs lo (ig\<lparr>ig_freeq := fq\<rparr>)) < N"
proof -
  let ?a = "last (mqueue_contents (ig_freeq ig))"
  have "mqueue_ok (ig_freeq ig)" using assms(1) by (simp add: ig_inv_def)
  from mqueue_pop_top [OF this assms(2)] obtain fq where fq: "mqueue_pop (ig_freeq ig) = Inr (?a, fq)" "mqueue_ok fq"
    "mqueue_contents fq = butlast (mqueue_contents (ig_freeq ig))" "mq_size fq = mq_size (ig_freeq ig)"
    "mq_hdrspace fq = mq_hdrspace (ig_freeq ig)" by blast
  have c: "mqueue_contents (ig_freeq ig) = mqueue_contents fq @ [?a]" using assms(2) fq(3) by simp
  have b: "ig_bufs lo ig = mqueue_contents fq @ ?a # held_buf lo @ q_bufs (ig_outq ig)"
    by (subst ig_bufs_def, subst c) simp
  have b': "ig_bufs lo (ig\<lparr>ig_freeq := fq\<rparr>) = mqueue_contents fq @ held_buf lo @ q_bufs (ig_outq ig)"
    by (simp add: ig_bufs_def)
  show thesis
  proof (rule that [OF fq(1) c])
    have f: "\<forall>a \<in> set (mqueue_contents fq @ [?a]). mb_start (ig_mbufs ig a) = HDRSPACE \<and> mb_end (ig_mbufs ig a) = HDRSPACE"
      using assms(1) unfolding ig_inv_def c [symmetric] by blast
    show "ig_inv N lo (ig\<lparr>ig_freeq := fq\<rparr>)"
      using assms(1) fq(2,4,5) f unfolding ig_inv_def b b' by simp
    show "mb_start (ig_mbufs ig ?a) = HDRSPACE" "mb_end (ig_mbufs ig ?a) = HDRSPACE" using f by simp_all
    show "mqueue_ok fq" "mq_size fq = N" "mq_hdrspace fq = HDRSPACE" using assms(1) fq by (simp_all add: ig_inv_def)
    show "mb_refcnt (ig_mbufs ig ?a) = 0" "length (mb_space (ig_mbufs ig ?a)) = MAXBUF"
      "?a \<notin> set (ig_bufs lo (ig\<lparr>ig_freeq := fq\<rparr>))" "length (ig_bufs lo (ig\<lparr>ig_freeq := fq\<rparr>)) < N"
      using assms(1) unfolding ig_inv_def b b' by simp_all
  qed
qed

lemma read_intf_sys:
  assumes inv: "ig_inv N lo ig" and free: "mqueue_contents (ig_freeq ig) \<noteq> []"
  shows "\<exists>ig'. read_intf_step r ig = Inr ig' \<and> ig_inv N lo ig' \<and>
    buf_bytes (ig_mbufs ig') lo = buf_bytes (ig_mbufs ig) lo \<and>
    q_bytes (ig_mbufs ig') (ig_outq ig') = packet_of r @ q_bytes (ig_mbufs ig) (ig_outq ig) \<and>
    set (ig_bufs lo ig') \<subseteq> set (ig_bufs lo ig) \<and>
    (r \<noteq> ReadPkt [] \<longrightarrow> set (ig_bufs lo ig') = set (ig_bufs lo ig))"
proof -
  from free_pop [OF inv free] obtain a fq where f: "mqueue_pop (ig_freeq ig) = Inr (a, fq)"
    "mqueue_contents (ig_freeq ig) = mqueue_contents fq @ [a]"
    "ig_inv N lo (ig\<lparr>ig_freeq := fq\<rparr>)" "mqueue_ok fq" "mq_size fq = N" "mq_hdrspace fq = HDRSPACE"
    "mb_start (ig_mbufs ig a) = HDRSPACE" "mb_end (ig_mbufs ig a) = HDRSPACE" "mb_refcnt (ig_mbufs ig a) = 0"
    "length (mb_space (ig_mbufs ig a)) = MAXBUF" "a \<notin> set (ig_bufs lo (ig\<lparr>ig_freeq := fq\<rparr>))"
    "length (ig_bufs lo (ig\<lparr>ig_freeq := fq\<rparr>)) < N" .
  let ?h = "ig_mbufs ig" and ?b = "ig_mbufs ig a" and ?oq = "ig_outq ig"
  have b': "ig_bufs lo (ig\<lparr>ig_freeq := fq\<rparr>) = mqueue_contents fq @ held_buf lo @ q_bufs ?oq"
    by (simp add: ig_bufs_def)
  have b: "ig_bufs lo ig = mqueue_contents fq @ a # held_buf lo @ q_bufs ?oq"
    by (subst ig_bufs_def, subst f(2)) simp
  have other: "x \<noteq> a" if "x \<in> set (mqueue_contents fq @ held_buf lo @ q_bufs ?oq)" for x
    using f(11) that unfolding b' by auto
  have len: "length (mqueue_contents fq) + length (held_buf lo) + length (q_bufs ?oq) < N" using f(12) by (simp add: b')
  consider (err) "r = ReadErr" | (empty) "r = ReadPkt []" | (pkt) p where "r = ReadPkt p" "p \<noteq> []"
    by (cases r) auto
  then show ?thesis
  proof cases
    case err
    have "length (mqueue_contents fq) < mq_size fq" using len f(5) by simp
    from mqueue_push_reset [of fq ?h a, OF f(4) this f(9)] obtain fq' where fq': "mqueue_push ?h fq a True =
        Inr (Suc (length (mqueue_contents fq)), ?h(a := ?b\<lparr>mb_start := HDRSPACE, mb_end := HDRSPACE, mb_left := 0\<rparr>), fq')"
      "mqueue_ok fq'" "mqueue_contents fq' = mqueue_contents fq @ [a]" "mq_size fq' = N" "mq_hdrspace fq' = HDRSPACE"
      using f(5,6) by auto
    let ?ig = "ig\<lparr>ig_mbufs := ?h(a := ?b\<lparr>mb_start := HDRSPACE, mb_end := HDRSPACE, mb_left := 0\<rparr>), ig_freeq := fq'\<rparr>"
    have all: "ig_bufs lo ?ig = ig_bufs lo ig" by (simp add: ig_bufs_def fq'(3) f(2))
    have "ig_inv N lo ?ig"
      using inv f(7,8) fq' unfolding ig_inv_def all f(2) by (auto simp: mbuf_wf_def)
    moreover have "read_intf_step r ig = Inr ?ig" using err f(1) fq'(1) by (simp add: read_intf_step_def)
    moreover have "buf_bytes (ig_mbufs ?ig) lo = buf_bytes ?h lo" "q_bytes (ig_mbufs ?ig) ?oq = q_bytes ?h ?oq"
      using other by (cases lo, auto simp: q_bytes_def)
    ultimately show ?thesis using err all by auto
  next
    case empty
    then have "read_intf_step r ig = Inr (ig\<lparr>ig_freeq := fq\<rparr>)" using f(1) by (simp add: read_intf_step_def)
    with f(3) empty b b' show ?thesis by auto
  next
    case pkt
    define n where "n = min (length p) room_for"
    have av: "nat (MBUF_AVAIL ?b) = room_for" using f(8,10) by (simp add: MBUF_AVAIL_def room_for_def const_defs)
    have n: "0 < n" "HDRSPACE + n \<le> MAXBUF" "n \<le> length p"
      using pkt(2) by (auto simp: n_def room_for_def const_defs min_def)
    then have tn: "length (take n p) = n" by simp
    have tp: "take room_for p = take n p" by (simp add: n_def min_def)
    let ?b1 = "?b\<lparr>mb_space := splice_at HDRSPACE (take n p) (mb_space ?b), mb_end := HDRSPACE + n\<rparr>"
    have "subseg HDRSPACE (length (take n p)) (splice_at HDRSPACE (take n p) (mb_space ?b)) = take n p"
      by (rule subseg_splice_at) (use n f(10) tn in \<open>simp only: le_refl\<close>)
    then have b1: "mbuf_wf ?b1" "mb_refcnt ?b1 = 0" "length (mb_space ?b1) = MAXBUF" "mbuf_bytes ?b1 = take n p"
      using n(2,3) f(7-10) unfolding tn by (simp_all add: mbuf_wf_def mbuf_bytes_def)
    have "length (mqueue_contents ?oq) < mq_size ?oq" "mqueue_ok ?oq" using len inv by (simp_all add: q_bufs_def ig_inv_def)
    from mqueue_push_plain [OF this(2,1), of "?h(a := ?b1)" a] obtain oq where oq:
      "mqueue_push (?h(a := ?b1)) ?oq a False = Inr (Suc (length (mqueue_contents ?oq)), ?h(a := ?b1), oq)"
      "mqueue_ok oq" "mqueue_contents oq = mqueue_contents ?oq @ [a]" "mq_size oq = mq_size ?oq" by auto
    let ?ig = "ig\<lparr>ig_mbufs := ?h(a := ?b1), ig_freeq := fq, ig_outq := oq\<rparr>"
    have qb: "q_bufs oq = a # q_bufs ?oq" by (simp add: q_bufs_def oq(3))
    then have all: "ig_bufs lo ?ig = mqueue_contents fq @ held_buf lo @ a # q_bufs ?oq" by (simp add: ig_bufs_def)
    have "ig_inv N lo ?ig"
      using f(3-6) inv oq(2,4) b1(1-3) other len unfolding ig_inv_def all b' b by auto
    moreover have "read_intf_step r ig = Inr ?ig"
      using pkt(1) f(1,7) av n(1) oq(1) by (simp add: read_intf_step_def Let_def n_def [symmetric])
    moreover have "buf_bytes (?h(a := ?b1)) lo = buf_bytes ?h lo"
      using other by (cases lo) auto
    moreover have "q_bytes (?h(a := ?b1)) oq = take room_for p # q_bytes ?h ?oq"
      using other b1(4) by (auto simp: q_bytes_def qb tp)
    ultimately show ?thesis using pkt all b by auto
  qed
qed

section \<open>The two threads\<close>

text \<open>
  A turn of the reader with what \<open>read\<close> returns, or of the writer with the clock and what
  \<open>sendmsg\<close> returns. Each step yields the datagrams sent.
\<close>

datatype ingress_event = ReadIntf read_result | WriteTfs timespec int

inductive ingress_step :: "bool \<Rightarrow> bool \<Rightarrow> int \<Rightarrow> wtfs \<Rightarrow> ingress_event \<Rightarrow> bytes list \<Rightarrow> wtfs \<Rightarrow> bool"
  for oneonly dontfrag tfsmtu where
  rd: "read_intf_step r (wt_ig wt) = Inr ig \<Longrightarrow>
    ingress_step oneonly dontfrag tfsmtu wt (ReadIntf r) [] (wt\<lparr>wt_ig := ig\<rparr>)"
| wr: "write_tfs_step oneonly dontfrag tfsmtu now n wt = Inr (pkt, wt') \<Longrightarrow>
    ingress_step oneonly dontfrag tfsmtu wt (WriteTfs now n) (case pkt of None \<Rightarrow> [] | Some d \<Rightarrow> [d]) wt'"

inductive_cases rdE: "ingress_step oneonly dontfrag tfsmtu wt (ReadIntf r) ds wt'"
inductive_cases wrE: "ingress_step oneonly dontfrag tfsmtu wt (WriteTfs now n) ds wt'"

inductive ingress_run :: "bool \<Rightarrow> bool \<Rightarrow> int \<Rightarrow> wtfs \<Rightarrow> ingress_event list \<Rightarrow> bytes list \<Rightarrow> wtfs \<Rightarrow> bool"
  for oneonly dontfrag tfsmtu where
  ig_done: "ingress_run oneonly dontfrag tfsmtu wt [] [] wt"
| ig_step: "ingress_step oneonly dontfrag tfsmtu wt e ds wt1 \<Longrightarrow> ingress_run oneonly dontfrag tfsmtu wt1 es ds' wt2 \<Longrightarrow>
    ingress_run oneonly dontfrag tfsmtu wt (e # es) (ds @ ds') wt2"

text \<open>What the specification sees of the sender: the bytes left over and the queue.\<close>

definition lo_of :: "wtfs \<Rightarrow> bytes option" where
  "lo_of wt = buf_bytes (ig_mbufs (wt_ig wt)) (wt_leftover wt)"

definition queue_of :: "wtfs \<Rightarrow> bytes list" where
  "queue_of wt = q_bytes (ig_mbufs (wt_ig wt)) (ig_outq (wt_ig wt))"

definition bufs_of :: "wtfs \<Rightarrow> nat set" where
  "bufs_of wt = set (ig_bufs (wt_leftover wt) (wt_ig wt))"

fun received :: "ingress_event list \<Rightarrow> bytes list" where
  "received [] = []"
| "received (ReadIntf r # es) = packet_of r @ received es"
| "received (WriteTfs now n # es) = received es"

fun full_writes :: "int \<Rightarrow> ingress_event list \<Rightarrow> bool" where
  "full_writes tfsmtu [] = True"
| "full_writes tfsmtu (ReadIntf r # es) = full_writes tfsmtu es"
| "full_writes tfsmtu (WriteTfs now n # es) = (n = tfsmtu \<and> full_writes tfsmtu es)"

lemma read_intf_step_sys:
  assumes inv: "wt_inv N wt" and ok: "read_intf_step r (wt_ig wt) = Inr ig"
  shows "wt_inv N (wt\<lparr>wt_ig := ig\<rparr>) \<and> lo_of (wt\<lparr>wt_ig := ig\<rparr>) = lo_of wt \<and>
    queue_of (wt\<lparr>wt_ig := ig\<rparr>) = packet_of r @ queue_of wt \<and> bufs_of (wt\<lparr>wt_ig := ig\<rparr>) \<subseteq> bufs_of wt \<and>
    (r \<noteq> ReadPkt [] \<longrightarrow> bufs_of (wt\<lparr>wt_ig := ig\<rparr>) = bufs_of wt)"
proof -
  have ig: "ig_inv N (wt_leftover wt) (wt_ig wt)" using inv by (simp add: wt_inv_def)
  have "mqueue_contents (ig_freeq (wt_ig wt)) \<noteq> []"
  proof
    assume "mqueue_contents (ig_freeq (wt_ig wt)) = []"
    with ig have "mqueue_pop (ig_freeq (wt_ig wt)) = Inl Blocked"
      using mqs.pop_empty [of "ig_freeq (wt_ig wt)"] by (simp add: ig_inv_def)
    with ok show False by (simp add: read_intf_step_def)
  qed
  from read_intf_sys [OF ig this, of r] ok inv show ?thesis
    by (auto simp: wt_inv_def lo_of_def queue_of_def bufs_of_def)
qed

lemma write_tfs_step_sys:
  assumes inv: "wt_inv N wt" and mtu: "14 < tfsmtu" "tfsmtu \<le> int MAXBUF"
    and ok: "write_tfs_step oneonly dontfrag tfsmtu now n wt = Inr (pkt, wt')"
  shows "\<exists>p lo. tx_packet oneonly dontfrag (nat (tfsmtu - 8)) (lo_of wt) (queue_of wt) = (p, lo, queue_of wt') \<and>
    pkt = map_option (tx_wire (wt_seq wt)) p \<and> lo_of wt' = (if n = tfsmtu then lo else None) \<and>
    wt_inv N wt' \<and> wt_seq wt' = (if p = None then wt_seq wt else wt_seq wt + 1) \<and> bufs_of wt' = bufs_of wt"
proof -
  obtain p lo Q where tx: "tx_packet oneonly dontfrag (nat (tfsmtu - 8)) (lo_of wt) (queue_of wt) = (p, lo, Q)"
    by (metis prod_cases3)
  have "write_tfs_pkt oneonly dontfrag tfsmtu now n wt = Inr (pkt, wt')"
    using ok by (auto simp: write_tfs_step_def mqueue_wait_def res_simps split: if_splits)
  with write_tfs_pkt_tx [OF inv mtu tx [unfolded lo_of_def queue_of_def], of now n] show ?thesis
    using tx by (auto simp: lo_of_def queue_of_def bufs_of_def)
qed

lemma ingress_step_inv:
  assumes "ingress_step oneonly dontfrag tfsmtu wt e ds wt'" "wt_inv N wt" "14 < tfsmtu" "tfsmtu \<le> int MAXBUF"
  shows "wt_inv N wt' \<and> bufs_of wt' \<subseteq> bufs_of wt \<and> (e \<noteq> ReadIntf (ReadPkt []) \<longrightarrow> bufs_of wt' = bufs_of wt)"
  using assms(1)
proof cases
  case (rd r ig)
  with read_intf_step_sys [OF assms(2)] show ?thesis by auto
next
  case (wr now n pkt)
  with write_tfs_step_sys [OF assms(2-4)] show ?thesis by blast
qed

lemma ingress_run_inv:
  assumes "ingress_run oneonly dontfrag tfsmtu wt es ds wt'" "wt_inv N wt" "14 < tfsmtu" "tfsmtu \<le> int MAXBUF"
  shows "wt_inv N wt' \<and> bufs_of wt' \<subseteq> bufs_of wt \<and> (ReadIntf (ReadPkt []) \<notin> set es \<longrightarrow> bufs_of wt' = bufs_of wt)"
  using assms
proof (induction rule: ingress_run.induct)
  case (ig_done wt)
  then show ?case by simp
next
  case (ig_step wt e ds wt1 es ds' wt2)
  from ingress_step_inv [OF ig_step.hyps(1) ig_step.prems] ig_step.IH ig_step.prems(2,3) show ?case by auto
qed

section \<open>What a run sends\<close>

lemma tx_packet_off:
  "tx_packet one dont room lo q = (Some (off, d), lo', q') \<Longrightarrow> off < 2 ^ 16"
  by (auto simp: tx_packet_def Let_def split: option.splits list.splits if_splits)

lemma tx_packet_queue_ok:
  assumes "tx_packet one dont room lo q = (pkt, lo', q')" "\<forall>p \<in> set q. inner_ok p"
  shows "\<forall>p \<in> set q'. inner_ok p"
proof -
  obtain us where "q = us @ q'" using tx_packet_suffix [of q one dont room lo] assms(1) by auto
  with assms(2) show ?thesis by auto
qed

lemma unat_succ:
  assumes "unat seq + Suc k < 2 ^ 32"
  shows "unat (seq + 1 :: u32) = unat seq + 1"
proof -
  have "unat (seq + 1) = (unat seq + 1) mod 2 ^ 32" by (simp add: unat_word_ariths)
  with assms show ?thesis by simp
qed

section \<open>Set-up\<close>

text \<open>
  \<open>tfs_tunnel_ingress\<close> allocates the queues; the arguments are the memory \<open>malloc\<close> returned: buffer
  headers, bytes, the slots of both queues and the output queue's \<open>hdrspace\<close>, which is never set.
\<close>

definition tfs_tunnel_ingress :: "mheap \<Rightarrow> bytes \<Rightarrow> nat list \<Rightarrow> nat list \<Rightarrow> nat \<Rightarrow> ingress" where
  "tfs_tunnel_ingress raw space slots oslots hs =
     (let (h, freeq) = mqueue_new_freeq raw space slots INNERQSZ MAXBUF HDRSPACE
      in \<lparr>ig_mbufs = h, ig_freeq = freeq, ig_outq = mqueue_new oslots hs INNERQSZ\<rparr>)"

text \<open>Memory of the right sizes, with the counts zero that the code does not clear.\<close>

definition ig_memory :: "mheap \<Rightarrow> bytes \<Rightarrow> nat list \<Rightarrow> nat list \<Rightarrow> iovec list \<Rightarrow> nat list \<Rightarrow> bool" where
  "ig_memory raw space slots oslots iovecs freem \<longleftrightarrow>
     length space = INNERQSZ * MAXBUF \<and> length slots = INNERQSZ \<and> length oslots = INNERQSZ \<and>
     length iovecs = g_max_inner_pkt \<and> length freem = g_max_inner_pkt \<and> (\<forall>a. mb_refcnt (raw a) = 0)"

lemma start_ingress:
  fixes now :: timespec and hs :: nat
  assumes mem: "ig_memory raw space slots oslots iovecs freem"
  defines "wt \<equiv> write_tfs_start now iovecs freem (tfs_tunnel_ingress raw space slots oslots hs)"
  shows "wt_inv INNERQSZ wt" "lo_of wt = None" "queue_of wt = []" "bufs_of wt = {..<INNERQSZ}" "wt_seq wt = 1"
    "wt_leftover wt = None" "mqueue_contents (ig_freeq (wt_ig wt)) = [0..<INNERQSZ]"
proof -
  define hq where "hq = mqueue_new_freeq raw space slots INNERQSZ MAXBUF HDRSPACE"
  have sl: "length slots = INNERQSZ" using mem by (simp add: ig_memory_def)
  note hs = mqueue_new_freeq_state [OF sl, where raw = raw and space = space and maxbuf = MAXBUF and hdr = HDRSPACE, folded hq_def]
  have ig: "wt_ig wt = \<lparr>ig_mbufs = fst hq, ig_freeq = snd hq, ig_outq = mqueue_new oslots hs INNERQSZ\<rparr>"
    and wt: "wt_leftover wt = None" "wt_seq wt = 1" "wt_hdr wt = replicate 8 0" "wt_ebytes wt = replicate MAXBUF 0"
      "wt_iovecs wt = iovecs[0 := \<lparr>iov_base = PHdr, iov_len = 8\<rparr>]" "wt_freem wt = freem"
    by (simp_all add: wt_def write_tfs_start_def tfs_tunnel_ingress_def hq_def case_prod_unfold Let_def)
  have oq: "mqueue_ok (mqueue_new oslots hs INNERQSZ)" "mq_size (mqueue_new oslots hs INNERQSZ) = INNERQSZ"
    "q_bufs (mqueue_new oslots hs INNERQSZ) = []"
    using mem by (simp_all add: ig_memory_def mqueue_new_def mqueue_abs_defs q_bufs_def)
  have all: "ig_bufs None (wt_ig wt) = [0..<INNERQSZ]" by (simp add: ig_bufs_def ig oq hs(2))
  have len: "length (subseg (i * MAXBUF) MAXBUF space) = MAXBUF" if "i < INNERQSZ" for i
  proof (rule length_subseg)
    have "(i + 1) * MAXBUF \<le> INNERQSZ * MAXBUF" using that by (intro mult_le_mono1) simp
    then show "i * MAXBUF + MAXBUF \<le> length space" using mem by (simp add: ig_memory_def)
  qed
  have buf: "mbuf_wf (fst hq a) \<and> mb_refcnt (fst hq a) = 0 \<and> length (mb_space (fst hq a)) = MAXBUF \<and>
      mb_start (fst hq a) = HDRSPACE \<and> mb_end (fst hq a) = HDRSPACE" if "a < INNERQSZ" for a
    using hs(5) [OF that] len [OF that] mem HDR_le_MAXBUF by (simp add: mbuf_wf_def ig_memory_def)
  have "ig_inv INNERQSZ None (wt_ig wt)"
    unfolding ig_inv_def all unfolding ig using hs(1-4) oq buf by simp
  moreover have "hdr_clean (replicate 8 0)" "ebytes_clean (replicate MAXBUF 0)"
    by (simp_all add: hdr_clean_def ebytes_clean_def)
  moreover have "0 < length iovecs" "INNERQSZ + 2 \<le> length iovecs" "INNERQSZ \<le> length freem"
    using mem by (simp_all add: ig_memory_def g_max_inner_pkt_def const_defs)
  ultimately show "wt_inv INNERQSZ wt" by (simp add: wt_inv_def wt)
  show "lo_of wt = None" "queue_of wt = []" using oq(3) by (simp_all add: lo_of_def queue_of_def wt ig q_bytes_def)
  show "bufs_of wt = {..<INNERQSZ}" using all by (auto simp: bufs_of_def wt)
  show "wt_seq wt = 1" "wt_leftover wt = None" by (rule wt)+
  show "mqueue_contents (ig_freeq (wt_ig wt)) = [0..<INNERQSZ]" by (simp add: ig hs(2))
qed

text \<open>A start for the examples, and what one packet read and one turn of the writer give.\<close>

definition ingress_demo :: wtfs where
  "ingress_demo = write_tfs_start (Timespec 1 0) (replicate g_max_inner_pkt \<lparr>iov_base = PPad, iov_len = 0\<rparr>)
     (replicate g_max_inner_pkt 0)
     (tfs_tunnel_ingress (\<lambda>_. mbuf_new 0 0) (replicate (INNERQSZ * MAXBUF) 0) (replicate INNERQSZ 0) (replicate INNERQSZ 0) 0)"

definition demo_inner :: bytes where
  "demo_inner = [0x45, 0, 0, 7, 10, 20, 30]"

lemma demo_memory:
  "ig_memory (\<lambda>_. mbuf_new 0 0) (replicate (INNERQSZ * MAXBUF) 0) (replicate INNERQSZ 0) (replicate INNERQSZ 0)
     (replicate g_max_inner_pkt \<lparr>iov_base = PPad, iov_len = 0\<rparr>) (replicate g_max_inner_pkt 0)"
  by (simp add: ig_memory_def mbuf_new_def)

lemmas ingress_demo_start = start_ingress [OF demo_memory, where now = "Timespec 1 0" and hs = 0, folded ingress_demo_def]

lemma demo_inner_ok: "inner_ok demo_inner"
  by (simp add: demo_inner_def inner_ok_def is_pad_def block_len_def get16_def)

lemma demo_tx_loop:
  "tx_loop False False 32 (Some demo_inner) [] = (demo_inner @ replicate 25 0, None, [])"
  by (simp add: tx_loop.simps tx_next_def demo_inner_def)

lemma ingress_demo_run:
  "\<exists>wt'. ingress_run False False 40 ingress_demo [ReadIntf (ReadPkt demo_inner), WriteTfs (Timespec 1 500) 40]
     [wire (1, 0, demo_inner @ replicate 25 0)] wt' \<and> queue_of wt' = [] \<and> lo_of wt' = None"
proof -
  note st = ingress_demo_start
  have ig: "ig_inv INNERQSZ None (wt_ig ingress_demo)" using st(1,6) by (simp add: wt_inv_def)
  from read_intf_sys [OF ig, of "ReadPkt demo_inner"] st(7) obtain ig where
    rd: "read_intf_step (ReadPkt demo_inner) (wt_ig ingress_demo) = Inr ig" by (auto simp: INNERQSZ_def)
  let ?wt = "ingress_demo\<lparr>wt_ig := ig\<rparr>"
  have "packet_of (ReadPkt demo_inner) = [demo_inner]" by (simp add: demo_inner_def room_for_def const_defs)
  with read_intf_step_sys [OF st(1) rd] st have 1: "wt_inv INNERQSZ ?wt" "lo_of ?wt = None" "queue_of ?wt = [demo_inner]"
    by simp_all
  have tx: "tx_packet False False 32 (lo_of ?wt) (queue_of ?wt) = (Some (0, demo_inner @ replicate 25 0), None, [])"
    using demo_tx_loop by (simp add: 1 tx_packet_def)
  from write_tfs_pkt_tx [OF 1(1), of 40 False False "Some (0, demo_inner @ replicate 25 0)" None "[]" "Timespec 1 500" 40]
    tx st(5) obtain wt' where
    "write_tfs_step False False 40 (Timespec 1 500) 40 ?wt = Inr (Some (wire (1, 0, demo_inner @ replicate 25 0)), wt')"
    "lo_of wt' = None" "queue_of wt' = []"
    by (auto simp: lo_of_def queue_of_def const_defs write_tfs_step_def tx_wire_def)
  with ig_step [OF ingress_step.rd [OF rd] ig_step [OF ingress_step.wr ig_done]] show ?thesis by force
qed

end
