(* ===== verification/Interleave.thy ===== *)
theory Interleave
  imports IngressRun
begin

text \<open>
  The sending side at the grain of its queue operations. The code locks a queue for one operation only, so the
  interface reader can come between any two operations of the writer, and the writer runs on while the reader
  waits in \<open>read\<close>. Here a step of either thread is what it does up to and including its next queue
  operation; the turns of \<open>IngressRun\<close> are the runs in which no other thread comes between.
\<close>

section \<open>Steps of the interface reader\<close>

text \<open>After the pop, the reader holds a buffer; then comes what it does with the result of \<open>read\<close>.\<close>

definition read_into :: "read_result \<Rightarrow> nat \<Rightarrow> ingress \<Rightarrow> ingress res" where
  "read_into r a ig =
     (case r of
       ReadErr \<Rightarrow> bindE (mqueue_push (ig_mbufs ig) (ig_freeq ig) a True) (\<lambda>(_, h, fq).
         Inr (ig\<lparr>ig_mbufs := h, ig_freeq := fq\<rparr>))
     | ReadPkt p \<Rightarrow>
         (let b = ig_mbufs ig a; n = min (length p) (nat (MBUF_AVAIL b)) in
          if n = 0 then Inr ig
          else
            (let b' = b\<lparr>mb_space := splice_at (mb_start b) (take n p) (mb_space b), mb_end := mb_start b + n\<rparr>
             in bindE (mqueue_push ((ig_mbufs ig)(a := b')) (ig_outq ig) a False) (\<lambda>(_, h, oq).
                Inr (ig\<lparr>ig_mbufs := h, ig_outq := oq\<rparr>)))))"

lemma read_intf_step_into:
  "read_intf_step r ig = bindE (mqueue_pop (ig_freeq ig)) (\<lambda>(a, fq). read_into r a (ig\<lparr>ig_freeq := fq\<rparr>))"
  by (cases ig) (simp add: read_intf_step_def read_into_def Let_def case_prod_unfold cong: if_cong read_result.case_cong)

section \<open>Steps of the tunnel writer\<close>

text \<open>One round of the filling loop; \<open>Some\<close> holds the room and the buffer of the next round.\<close>

definition wtp_iter :: "bool \<Rightarrow> bool \<Rightarrow> int \<Rightarrow> nat option \<Rightarrow> mqueue \<Rightarrow> wtp \<Rightarrow> (mqueue \<times> wtp \<times> (int \<times> nat option) option) res" where
  "wtp_iter oneonly dontfrag mtu m q w =
     (if mtu \<le> 0 then Inr (q, w, None)
      else case m of
        None \<Rightarrow> bindE (requireE OutOfBounds (mtu \<le> int MAXBUF)) (\<lambda>_. bindE (put_iov PPad mtu w) (\<lambda>w1. Inr (q, w1, None)))
      | Some a \<Rightarrow>
          if mtu \<le> 6 then bindE (put_iov PPad mtu w) (\<lambda>w1. Inr (q, w1, None))
          else
            (let b = wp_mbufs w a; mlen = MBUF_LEN b in
             if mlen > mtu
             then bindE (put_iov (PBuf a (mb_start b)) mtu w) (\<lambda>w1.
                  Inr (q, w1\<lparr>wp_mbufs := (wp_mbufs w1)(a := b\<lparr>mb_start := mb_start b + nat mtu\<rparr>), wp_leftover := Some a\<rparr>, None))
             else bindE (put_iov (PBuf a (mb_start b)) mlen w) (\<lambda>w1.
                  bindE (put_free a w1) (\<lambda>w2.
                  let n = wtp_next oneonly dontfrag (mtu - mlen) (wp_mbufs w2) q
                  in Inr (snd n, w2, Some (mtu - mlen, fst n))))))"

lemma wtp_loop_iter:
  "wtp_loop oneonly dontfrag mtu m q w =
     bindE (wtp_iter oneonly dontfrag mtu m q w) (\<lambda>(q', w', k).
       case k of None \<Rightarrow> Inr (q', w') | Some (mtu', m') \<Rightarrow> wtp_loop oneonly dontfrag mtu' m' q' w')"
  by (subst wtp_loop.simps) (simp add: wtp_iter_def bindE_assoc Let_def split: option.split)

text \<open>The length check, \<open>sendmsg\<close>, and what a short write does; the buffers still have to go back.\<close>

definition wtp_sendmsg :: "int \<Rightarrow> int \<Rightarrow> bytes \<Rightarrow> wtp \<Rightarrow> (bytes \<times> wtp) res" where
  "wtp_sendmsg tfsmtu n hdr w =
     bindE (requireE Errx (iovlen (wp_iovecs w) (wp_niov w) = tfsmtu)) (\<lambda>_.
     let pkt = concat (map (iov_seg hdr (wp_mbufs w)) (take (wp_niov w) (wp_iovecs w)))
     in bindE (if n \<noteq> tfsmtu
               then bindE (case wp_leftover w of Some a \<Rightarrow> put_free a w | None \<Rightarrow> Inr w)
                      (\<lambda>w1. Inr (w1\<lparr>wp_leftover := None\<rparr>))
               else Inr w) (\<lambda>w2. Inr (pkt, w2)))"

lemma wtp_send_sendmsg:
  "wtp_send tfsmtu n wt q w =
     bindE (wtp_sendmsg tfsmtu n (wt_hdr wt) w) (\<lambda>(pkt, w2).
       bindE (push_all (wp_mbufs w2) (ig_freeq (wt_ig wt)) (take (wp_nfree w2) (wp_freem w2))) (\<lambda>(h, fq).
       Inr (Some pkt, wt\<lparr>wt_ig := \<lparr>ig_mbufs = h, ig_freeq = fq, ig_outq = q\<rparr>, wt_iovecs := wp_iovecs w2,
                         wt_freem := wp_freem w2, wt_seq := wt_seq wt + 1, wt_leftover := wp_leftover w2\<rparr>)))"
  by (simp add: wtp_send_def wtp_sendmsg_def bindE_assoc Let_def)

text \<open>
  Where the writer is: between two packets; in the filling loop; before \<open>sendmsg\<close>; before the next
  push of a used buffer. Its local state has no buffers of its own, \<open>wp_mbufs\<close> is the common memory at each step.
\<close>

datatype wphase = WIdle | WFill int "nat option" wtp | WSend wtp | WFree "nat list"

definition wtp_begin :: "bool \<Rightarrow> int \<Rightarrow> timespec \<Rightarrow> wtfs \<Rightarrow> (bytes option \<times> wtfs \<times> wphase) res" where
  "wtp_begin oneonly tfsmtu now wt =
     (let (m, offset, q) = wtp_first wt;
          wt1 = wtp_count now (m = None) (wt\<lparr>wt_leftover := None, wt_ig := (wt_ig wt)\<lparr>ig_outq := q\<rparr>\<rparr>)
      in case m of
           None \<Rightarrow>
             if oneonly then Inr (None, wt1, WIdle)
             else bindE (write_empty_tfs_pkt (wt_ebytes wt1) (wt_seq wt1) (word_of_int tfsmtu)) (\<lambda>(pkt, seq, e).
                  Inr (Some pkt, wt1\<lparr>wt_seq := seq, wt_ebytes := e\<rparr>, WIdle))
         | Some a \<Rightarrow>
             Inr (None, wt1\<lparr>wt_hdr := put16 (put32 (wt_hdr wt1) 0 (wt_seq wt1)) 6 (ucast offset)\<rparr>,
               WFill (tfsmtu - 8) (Some a) \<lparr>wp_mbufs = ig_mbufs (wt_ig wt1), wp_iovecs = wt_iovecs wt1, wp_niov = 1,
                                          wp_freem = wt_freem wt1, wp_nfree = 0, wp_leftover = None\<rparr>))"

definition writer_step :: "bool \<Rightarrow> bool \<Rightarrow> int \<Rightarrow> timespec \<Rightarrow> int \<Rightarrow> wtfs \<Rightarrow> wphase \<Rightarrow> (bytes option \<times> wtfs \<times> wphase) res" where
  "writer_step oneonly dontfrag tfsmtu now n wt ph =
     (let ig = wt_ig wt; h = ig_mbufs ig in
      case ph of
        WIdle \<Rightarrow>
          if oneonly then bindE (mqueue_wait (ig_outq ig)) (\<lambda>_. wtp_begin oneonly tfsmtu now wt)
          else wtp_begin oneonly tfsmtu now wt
      | WFill mtu m w \<Rightarrow>
          bindE (wtp_iter oneonly dontfrag mtu m (ig_outq ig) (w\<lparr>wp_mbufs := h\<rparr>)) (\<lambda>(q, w', k).
          Inr (None, wt\<lparr>wt_ig := ig\<lparr>ig_mbufs := wp_mbufs w', ig_outq := q\<rparr>\<rparr>,
            case k of None \<Rightarrow> WSend w' | Some (mtu', m') \<Rightarrow> WFill mtu' m' w'))
      | WSend w \<Rightarrow>
          bindE (wtp_sendmsg tfsmtu n (wt_hdr wt) (w\<lparr>wp_mbufs := h\<rparr>)) (\<lambda>(pkt, w2).
          Inr (Some pkt, wt\<lparr>wt_iovecs := wp_iovecs w2, wt_freem := wp_freem w2, wt_seq := wt_seq wt + 1,
                           wt_leftover := wp_leftover w2\<rparr>, WFree (take (wp_nfree w2) (wp_freem w2))))
      | WFree [] \<Rightarrow> Inr (None, wt, WIdle)
      | WFree (a # as) \<Rightarrow>
          bindE (mqueue_push h (ig_freeq ig) a True) (\<lambda>(_, h', fq).
          Inr (None, wt\<lparr>wt_ig := ig\<lparr>ig_mbufs := h', ig_freeq := fq\<rparr>\<rparr>, WFree as)))"

section \<open>Interleaved runs\<close>

record fine =
  fi_wt :: wtfs
  fi_reader :: "nat option"
  fi_writer :: wphase

text \<open>A step of the reader, with what \<open>read\<close> returned, or of the writer, with the clock and what \<open>sendmsg\<close> returns.\<close>

datatype fine_event = FPop | FRead read_result | FWrite timespec int

inductive fine_step :: "bool \<Rightarrow> bool \<Rightarrow> int \<Rightarrow> fine \<Rightarrow> fine_event \<Rightarrow> bytes list \<Rightarrow> fine \<Rightarrow> bool"
  for oneonly dontfrag tfsmtu where
  f_pop: "fi_reader s = None \<Longrightarrow> mqueue_pop (ig_freeq (wt_ig (fi_wt s))) = Inr (a, fq) \<Longrightarrow>
    fine_step oneonly dontfrag tfsmtu s FPop []
      (s\<lparr>fi_wt := (fi_wt s)\<lparr>wt_ig := (wt_ig (fi_wt s))\<lparr>ig_freeq := fq\<rparr>\<rparr>, fi_reader := Some a\<rparr>)"
| f_read: "fi_reader s = Some a \<Longrightarrow> read_into r a (wt_ig (fi_wt s)) = Inr ig \<Longrightarrow>
    fine_step oneonly dontfrag tfsmtu s (FRead r) [] (s\<lparr>fi_wt := (fi_wt s)\<lparr>wt_ig := ig\<rparr>, fi_reader := None\<rparr>)"
| f_write: "writer_step oneonly dontfrag tfsmtu now n (fi_wt s) (fi_writer s) = Inr (pkt, wt, ph) \<Longrightarrow>
    fine_step oneonly dontfrag tfsmtu s (FWrite now n) (emitted pkt) (s\<lparr>fi_wt := wt, fi_writer := ph\<rparr>)"

inductive fine_run :: "bool \<Rightarrow> bool \<Rightarrow> int \<Rightarrow> fine \<Rightarrow> fine_event list \<Rightarrow> bytes list \<Rightarrow> fine \<Rightarrow> bool"
  for oneonly dontfrag tfsmtu where
  f_done: "fine_run oneonly dontfrag tfsmtu s [] [] s"
| f_more: "fine_step oneonly dontfrag tfsmtu s e ds s1 \<Longrightarrow> fine_run oneonly dontfrag tfsmtu s1 es ds' s2 \<Longrightarrow>
    fine_run oneonly dontfrag tfsmtu s (e # es) (ds @ ds') s2"

fun taken_in :: "fine_event list \<Rightarrow> bytes list" where
  "taken_in [] = []"
| "taken_in (FRead r # es) = packet_of r @ taken_in es"
| "taken_in (e # es) = taken_in es"

fun full_sends :: "int \<Rightarrow> fine_event list \<Rightarrow> bool" where
  "full_sends tfsmtu [] = True"
| "full_sends tfsmtu (FWrite now n # es) = (n = tfsmtu \<and> full_sends tfsmtu es)"
| "full_sends tfsmtu (e # es) = full_sends tfsmtu es"

lemma fine_run_append:
  assumes "fine_run oneonly dontfrag tfsmtu s es ds s1" "fine_run oneonly dontfrag tfsmtu s1 es' ds' s2"
  shows "fine_run oneonly dontfrag tfsmtu s (es @ es') (ds @ ds') s2"
  using assms
proof (induction rule: fine_run.induct)
  case (f_more s e ds s1 es ds1 s3)
  from fine_run.f_more [OF f_more.hyps(1) f_more.IH [OF f_more.prems]] show ?case by simp
qed simp

section \<open>A turn is a run\<close>

definition writes :: "int \<Rightarrow> fine_event list \<Rightarrow> bool" where
  "writes n es \<longleftrightarrow> (\<forall>e \<in> set es. \<exists>now. e = FWrite now n)"

lemma writes_events:
  assumes "writes n es"
  shows "taken_in (es @ es') = taken_in es'" "full_sends tfsmtu es' \<and> n = tfsmtu \<Longrightarrow> full_sends tfsmtu (es @ es')"
  using assms by (induction es) (auto simp: writes_def)

lemma f_one:
  assumes "fine_step oneonly dontfrag tfsmtu s e ds s'"
  shows "fine_run oneonly dontfrag tfsmtu s [e] ds s'"
  using f_more [OF assms f_done] by simp

lemma write_one:
  assumes "writer_step oneonly dontfrag tfsmtu now n wt ph = Inr (pkt, wt', ph')"
  shows "fine_step oneonly dontfrag tfsmtu \<lparr>fi_wt = wt, fi_reader = rd, fi_writer = ph\<rparr> (FWrite now n) (emitted pkt)
    \<lparr>fi_wt = wt', fi_reader = rd, fi_writer = ph'\<rparr>"
proof -
  let ?s = "\<lparr>fi_wt = wt, fi_reader = rd, fi_writer = ph\<rparr>"
  have "writer_step oneonly dontfrag tfsmtu now n (fi_wt ?s) (fi_writer ?s) = Inr (pkt, wt', ph')" using assms by simp
  from f_write [OF this] show ?thesis by simp
qed

text \<open>The steps of the writer from one place to another, without passing the end of a packet between.\<close>

inductive write_run :: "bool \<Rightarrow> bool \<Rightarrow> int \<Rightarrow> int \<Rightarrow> wtfs \<Rightarrow> wphase \<Rightarrow> bytes list \<Rightarrow> wtfs \<Rightarrow> wphase \<Rightarrow> bool"
  for oneonly dontfrag tfsmtu n where
  wr_one: "writer_step oneonly dontfrag tfsmtu now n wt ph = Inr (pkt, wt', ph') \<Longrightarrow>
    write_run oneonly dontfrag tfsmtu n wt ph (emitted pkt) wt' ph'"
| wr_more: "writer_step oneonly dontfrag tfsmtu now n wt ph = Inr (pkt, wt1, ph1) \<Longrightarrow> ph1 \<noteq> WIdle \<Longrightarrow>
    write_run oneonly dontfrag tfsmtu n wt1 ph1 ds wt' ph' \<Longrightarrow>
    write_run oneonly dontfrag tfsmtu n wt ph (emitted pkt @ ds) wt' ph'"

lemma write_run_append:
  assumes "write_run oneonly dontfrag tfsmtu n wt ph ds wt1 ph1" "write_run oneonly dontfrag tfsmtu n wt1 ph1 ds' wt' ph'" "ph1 \<noteq> WIdle"
  shows "write_run oneonly dontfrag tfsmtu n wt ph (ds @ ds') wt' ph'"
  using assms
proof (induction rule: write_run.induct)
  case (wr_one now wt ph pkt wt1 ph1)
  from wr_more [OF wr_one.hyps wr_one.prems(2,1)] show ?case .
next
  case (wr_more now wt ph pkt wt1 ph1 ds wt2 ph2)
  from write_run.wr_more [OF wr_more.hyps(1,2) wr_more.IH [OF wr_more.prems]] show ?case by simp
qed

lemma write_run_fine:
  assumes "write_run oneonly dontfrag tfsmtu n wt ph ds wt' ph'"
  shows "\<exists>es. fine_run oneonly dontfrag tfsmtu \<lparr>fi_wt = wt, fi_reader = rd, fi_writer = ph\<rparr> es ds
    \<lparr>fi_wt = wt', fi_reader = rd, fi_writer = ph'\<rparr> \<and> writes n es"
  using assms
proof (induction rule: write_run.induct)
  case (wr_one now wt ph pkt wt' ph')
  from f_one [OF write_one [OF wr_one.hyps]] show ?case by (intro exI [of _ "[FWrite now n]"]) (simp add: writes_def)
next
  case (wr_more now wt ph pkt wt1 ph1 ds wt' ph')
  from wr_more.IH obtain es where r: "fine_run oneonly dontfrag tfsmtu \<lparr>fi_wt = wt1, fi_reader = rd, fi_writer = ph1\<rparr> es ds
    \<lparr>fi_wt = wt', fi_reader = rd, fi_writer = ph'\<rparr>" "writes n es" by blast
  from f_more [OF write_one [OF wr_more.hyps(1)] r(1)] r(2) show ?case
    by (intro exI [of _ "FWrite now n # es"]) (simp add: writes_def)
qed

lemma put_iov_mbufs: "put_iov p n w = Inr w1 \<Longrightarrow> wp_mbufs w1 = wp_mbufs w"
  by (auto simp: put_iov_def res_simps)

lemma put_free_mbufs: "put_free a w = Inr w1 \<Longrightarrow> wp_mbufs w1 = wp_mbufs w"
  by (auto simp: put_free_def res_simps)

lemma loop_run:
  assumes "wtp_loop oneonly dontfrag mtu m (ig_outq (wt_ig wt)) w = Inr (q', w')" "wp_mbufs w = ig_mbufs (wt_ig wt)"
  shows "write_run oneonly dontfrag tfsmtu n wt (WFill mtu m w) []
    (wt\<lparr>wt_ig := (wt_ig wt)\<lparr>ig_mbufs := wp_mbufs w', ig_outq := q'\<rparr>\<rparr>) (WSend w')"
  using assms
proof (induction "mq_depth (ig_outq (wt_ig wt)) + (if m = None then 0 else 1)" arbitrary: mtu m wt w rule: less_induct)
  case less
  let ?q = "ig_outq (wt_ig wt)"
  from less.prems(1) obtain q1 w1 k where it: "wtp_iter oneonly dontfrag mtu m ?q w = Inr (q1, w1, k)"
    and rest: "case k of None \<Rightarrow> q1 = q' \<and> w1 = w' | Some (mtu', m') \<Rightarrow> wtp_loop oneonly dontfrag mtu' m' q1 w1 = Inr (q', w')"
    by (subst (asm) wtp_loop_iter) (auto simp: res_simps split: option.splits)
  have same: "w\<lparr>wp_mbufs := ig_mbufs (wt_ig wt)\<rparr> = w" using less.prems(2) [symmetric] by simp
  let ?wt1 = "wt\<lparr>wt_ig := (wt_ig wt)\<lparr>ig_mbufs := wp_mbufs w1, ig_outq := q1\<rparr>\<rparr>"
  have st: "writer_step oneonly dontfrag tfsmtu (Timespec 0 0) n wt (WFill mtu m w) = Inr (None, ?wt1,
      case k of None \<Rightarrow> WSend w1 | Some (mtu', m') \<Rightarrow> WFill mtu' m' w1)"
    using it same by (simp add: writer_step_def Let_def)
  show ?case
  proof (cases k)
    case None
    with wr_one [OF st] rest show ?thesis by simp
  next
    case (Some km)
    then obtain mtu' m' where k: "k = Some (mtu', m')" by (cases km) auto
    from it k obtain a where a: "m = Some a" "wp_mbufs w1 = wp_mbufs w" "(m', q1) = wtp_next oneonly dontfrag mtu' (wp_mbufs w1) ?q"
      by (auto simp: wtp_iter_def Let_def res_simps prod_eq_iff dest!: put_iov_mbufs put_free_mbufs split: option.splits if_splits)
    have "mq_depth q1 + (if m' = None then 0 else 1) \<le> mq_depth ?q"
      using wtp_next_less [OF a(3) [symmetric]] by simp
    then have lt: "mq_depth (ig_outq (wt_ig ?wt1)) + (if m' = None then 0 else 1) < mq_depth ?q + (if m = None then 0 else 1)"
      using a(1) by simp
    have "wtp_loop oneonly dontfrag mtu' m' (ig_outq (wt_ig ?wt1)) w1 = Inr (q', w')" "wp_mbufs w1 = ig_mbufs (wt_ig ?wt1)"
      using rest k by simp_all
    from wr_more [OF st [unfolded k, simplified] _ less.hyps [OF lt this]] show ?thesis by simp
  qed
qed

lemma free_run:
  assumes "push_all (ig_mbufs (wt_ig wt)) (ig_freeq (wt_ig wt)) as = Inr (h', q')"
  shows "write_run oneonly dontfrag tfsmtu n wt (WFree as) []
    (wt\<lparr>wt_ig := (wt_ig wt)\<lparr>ig_mbufs := h', ig_freeq := q'\<rparr>\<rparr>) WIdle"
  using assms
proof (induction as arbitrary: wt)
  case Nil
  have "writer_step oneonly dontfrag tfsmtu (Timespec 0 0) n wt (WFree []) = Inr (None, wt, WIdle)"
    by (simp add: writer_step_def Let_def)
  from wr_one [OF this] Nil show ?case by (auto dest!: sym [where t = h'] sym [where t = q'])
next
  case (Cons a as)
  from Cons.prems obtain d h1 q1 where 1: "mqueue_push (ig_mbufs (wt_ig wt)) (ig_freeq (wt_ig wt)) a True = Inr (d, h1, q1)"
    "push_all h1 q1 as = Inr (h', q')" by (auto simp: res_simps)
  let ?wt = "wt\<lparr>wt_ig := (wt_ig wt)\<lparr>ig_mbufs := h1, ig_freeq := q1\<rparr>\<rparr>"
  have st: "writer_step oneonly dontfrag tfsmtu (Timespec 0 0) n wt (WFree (a # as)) = Inr (None, ?wt, WFree as)"
    using 1(1) by (simp add: writer_step_def Let_def)
  from Cons.IH [of ?wt] 1(2) have "write_run oneonly dontfrag tfsmtu n ?wt (WFree as) []
      (?wt\<lparr>wt_ig := (wt_ig ?wt)\<lparr>ig_mbufs := h', ig_freeq := q'\<rparr>\<rparr>) WIdle" by simp
  from wr_more [OF st _ this] show ?case by simp
qed

lemma sendmsg_mbufs: "wtp_sendmsg tfsmtu n hdr w = Inr (pkt, w2) \<Longrightarrow> wp_mbufs w2 = wp_mbufs w"
  by (auto simp: wtp_sendmsg_def Let_def res_simps dest!: put_free_mbufs split: if_splits option.splits)

lemma turn_run:
  assumes "write_tfs_step oneonly dontfrag tfsmtu now n wt = Inr (pkt, wt')"
  shows "write_run oneonly dontfrag tfsmtu n wt WIdle (emitted pkt) wt' WIdle"
proof -
  have pkt: "write_tfs_pkt oneonly dontfrag tfsmtu now n wt = Inr (pkt, wt')"
    using assms by (auto simp: write_tfs_step_def res_simps split: if_splits)
  obtain m off q where f: "wtp_first wt = (m, off, q)" by (metis prod_cases3)
  define wt1 where "wt1 = wtp_count now (m = None) (wt\<lparr>wt_leftover := None, wt_ig := (wt_ig wt)\<lparr>ig_outq := q\<rparr>\<rparr>)"
  have bg: "writer_step oneonly dontfrag tfsmtu now n wt WIdle = wtp_begin oneonly tfsmtu now wt"
    using assms by (auto simp: write_tfs_step_def writer_step_def res_simps Let_def)
  show ?thesis
  proof (cases m)
    case None
    have "wtp_begin oneonly tfsmtu now wt = Inr (pkt, wt', WIdle)"
      using pkt f None by (auto simp: write_tfs_pkt_def wtp_begin_def Let_def res_simps split: if_splits)
    with bg have "writer_step oneonly dontfrag tfsmtu now n wt WIdle = Inr (pkt, wt', WIdle)" by simp
    from wr_one [OF this] show ?thesis .
  next
    case (Some a)
    let ?wt2 = "wt1\<lparr>wt_hdr := put16 (put32 (wt_hdr wt1) 0 (wt_seq wt1)) 6 (ucast off)\<rparr>"
    let ?w = "\<lparr>wp_mbufs = ig_mbufs (wt_ig wt1), wp_iovecs = wt_iovecs wt1, wp_niov = 1, wp_freem = wt_freem wt1, wp_nfree = 0,
      wp_leftover = None\<rparr>"
    have q: "ig_outq (wt_ig wt1) = q" by (simp add: wt1_def)
    from pkt f Some obtain q' w' where l: "wtp_loop oneonly dontfrag (tfsmtu - 8) (Some a) q ?w = Inr (q', w')"
      "wtp_send tfsmtu n ?wt2 q' w' = Inr (pkt, wt')"
      by (auto simp: write_tfs_pkt_def wt1_def Let_def res_simps)
    from l(2) obtain d w2 h fq where s: "wtp_sendmsg tfsmtu n (wt_hdr ?wt2) w' = Inr (d, w2)"
      "push_all (wp_mbufs w2) (ig_freeq (wt_ig ?wt2)) (take (wp_nfree w2) (wp_freem w2)) = Inr (h, fq)" "pkt = Some d"
      "wt' = ?wt2\<lparr>wt_ig := \<lparr>ig_mbufs = h, ig_freeq = fq, ig_outq = q'\<rparr>, wt_iovecs := wp_iovecs w2, wt_freem := wp_freem w2,
        wt_seq := wt_seq ?wt2 + 1, wt_leftover := wp_leftover w2\<rparr>"
      unfolding wtp_send_sendmsg by (auto simp: res_simps)
    have r1: "writer_step oneonly dontfrag tfsmtu now n wt WIdle = Inr (None, ?wt2, WFill (tfsmtu - 8) (Some a) ?w)"
      using bg f Some by (simp add: wtp_begin_def wt1_def Let_def)
    let ?wt3 = "?wt2\<lparr>wt_ig := (wt_ig ?wt2)\<lparr>ig_mbufs := wp_mbufs w', ig_outq := q'\<rparr>\<rparr>"
    have "wtp_loop oneonly dontfrag (tfsmtu - 8) (Some a) (ig_outq (wt_ig ?wt2)) ?w = Inr (q', w')" "wp_mbufs ?w = ig_mbufs (wt_ig ?wt2)"
      using l(1) q by simp_all
    note r2 = loop_run [OF this]
    let ?wt4 = "?wt3\<lparr>wt_iovecs := wp_iovecs w2, wt_freem := wp_freem w2, wt_seq := wt_seq ?wt3 + 1, wt_leftover := wp_leftover w2\<rparr>"
    have same: "w'\<lparr>wp_mbufs := ig_mbufs (wt_ig ?wt3)\<rparr> = w'" by simp
    have r3: "writer_step oneonly dontfrag tfsmtu now n ?wt3 (WSend w') = Inr (Some d, ?wt4, WFree (take (wp_nfree w2) (wp_freem w2)))"
      using s(1) same by (simp add: writer_step_def Let_def)
    have "push_all (ig_mbufs (wt_ig ?wt4)) (ig_freeq (wt_ig ?wt4)) (take (wp_nfree w2) (wp_freem w2)) = Inr (h, fq)"
      using s(2) sendmsg_mbufs [OF s(1)] by simp
    note r4 = wr_more [OF r3 _ free_run [OF this]]
    have "?wt4\<lparr>wt_ig := (wt_ig ?wt4)\<lparr>ig_mbufs := h, ig_freeq := fq\<rparr>\<rparr> = wt'" by (simp add: s(4))
    with wr_more [OF r1 _ write_run_append [OF r2 r4]] s(3) show ?thesis by simp
  qed
qed

lemma ingress_run_fine:
  assumes "ingress_run oneonly dontfrag tfsmtu wt es ds wt'"
  shows "\<exists>es'. fine_run oneonly dontfrag tfsmtu \<lparr>fi_wt = wt, fi_reader = None, fi_writer = WIdle\<rparr> es' ds
    \<lparr>fi_wt = wt', fi_reader = None, fi_writer = WIdle\<rparr> \<and> taken_in es' = received es \<and>
    (full_writes tfsmtu es \<longrightarrow> full_sends tfsmtu es')"
  using assms
proof (induction rule: ingress_run.induct)
  case (ig_done wt)
  then show ?case using f_done by fastforce
next
  case (ig_step wt e ds wt1 es ds' wt2)
  from ig_step.IH obtain es' where ih: "fine_run oneonly dontfrag tfsmtu \<lparr>fi_wt = wt1, fi_reader = None, fi_writer = WIdle\<rparr> es' ds'
      \<lparr>fi_wt = wt2, fi_reader = None, fi_writer = WIdle\<rparr>" "taken_in es' = received es"
    "full_writes tfsmtu es \<longrightarrow> full_sends tfsmtu es'" by blast
  from ig_step.hyps(1) show ?case
  proof cases
    case (rd r ig)
    from rd(4) obtain a fq where p: "mqueue_pop (ig_freeq (wt_ig wt)) = Inr (a, fq)"
      "read_into r a ((wt_ig wt)\<lparr>ig_freeq := fq\<rparr>) = Inr ig" by (auto simp: read_intf_step_into res_simps)
    let ?s = "\<lparr>fi_wt = wt, fi_reader = None, fi_writer = WIdle\<rparr>"
    let ?s1 = "\<lparr>fi_wt = wt\<lparr>wt_ig := (wt_ig wt)\<lparr>ig_freeq := fq\<rparr>\<rparr>, fi_reader = Some a, fi_writer = WIdle\<rparr>"
    have 1: "fine_step oneonly dontfrag tfsmtu ?s FPop [] ?s1" using f_pop [of ?s a fq] p(1) by simp
    have "fine_step oneonly dontfrag tfsmtu ?s1 (FRead r) [] \<lparr>fi_wt = wt1, fi_reader = None, fi_writer = WIdle\<rparr>"
      using f_read [of ?s1 a r ig] p(2) rd(3) by simp
    from f_more [OF 1 f_more [OF this ih(1)]] ih(2,3) rd(1,2) show ?thesis
      by (intro exI [of _ "FPop # FRead r # es'"]) auto
  next
    case (wr now n pkt)
    from write_run_fine [OF turn_run [OF wr(3)]] obtain es1 where 1: "fine_run oneonly dontfrag tfsmtu
        \<lparr>fi_wt = wt, fi_reader = None, fi_writer = WIdle\<rparr> es1 (emitted pkt) \<lparr>fi_wt = wt1, fi_reader = None, fi_writer = WIdle\<rparr>"
      "writes n es1" by blast
    have "emitted pkt = ds" using wr(2) by (cases pkt) auto
    with fine_run_append [OF 1(1) ih(1)] writes_events [OF 1(2)] ih(2,3) wr(1) show ?thesis
      by (intro exI [of _ "es1 @ es'"]) auto
  qed
qed

end
