(* ===== verification/InterleaveInv.thy ===== *)
theory InterleaveInv
  imports Interleave
begin

text \<open>
  The invariant of the interleaved runs: every buffer is in exactly one place, the thread that holds
  it or a queue; and what each step does to it.
\<close>

section \<open>Who holds which buffer\<close>

definition buf_ok :: "mheap \<Rightarrow> nat \<Rightarrow> bool" where
  "buf_ok h a \<longleftrightarrow> mbuf_wf (h a) \<and> mb_refcnt (h a) = 0 \<and> length (mb_space (h a)) = MAXBUF"

definition buf_free :: "mheap \<Rightarrow> nat \<Rightarrow> bool" where
  "buf_free h a \<longleftrightarrow> mb_start (h a) = HDRSPACE \<and> mb_end (h a) = HDRSPACE"

definition all_bufs :: "nat option \<Rightarrow> nat list \<Rightarrow> ingress \<Rightarrow> nat list" where
  "all_bufs rd held ig = mqueue_contents (ig_freeq ig) @ held_buf rd @ held @ q_bufs (ig_outq ig)"

definition sh_inv :: "nat \<Rightarrow> nat option \<Rightarrow> nat list \<Rightarrow> ingress \<Rightarrow> bool" where
  "sh_inv N rd held ig \<longleftrightarrow>
     mqueue_ok (ig_freeq ig) \<and> mqueue_ok (ig_outq ig) \<and> mq_size (ig_freeq ig) = N \<and> mq_size (ig_outq ig) = N \<and>
     mq_hdrspace (ig_freeq ig) = HDRSPACE \<and> distinct (all_bufs rd held ig) \<and> length (all_bufs rd held ig) \<le> N \<and>
     (\<forall>a \<in> set (all_bufs rd held ig). buf_ok (ig_mbufs ig) a) \<and>
     (\<forall>a \<in> set (mqueue_contents (ig_freeq ig) @ held_buf rd). buf_free (ig_mbufs ig) a)"

lemma ig_inv_sh_inv: "ig_inv N lo ig \<longleftrightarrow> sh_inv N None (held_buf lo) ig"
  by (auto simp: ig_inv_def sh_inv_def ig_bufs_def all_bufs_def buf_ok_def buf_free_def)

text \<open>Moving buffers between the places keeps the invariant.\<close>

lemma sh_inv_move:
  assumes "sh_inv N rd held ig" "mset (all_bufs rd' held' ig') = mset (all_bufs rd held ig)"
    and "mqueue_ok (ig_freeq ig')" "mqueue_ok (ig_outq ig')" "mq_size (ig_freeq ig') = N" "mq_size (ig_outq ig') = N"
      "mq_hdrspace (ig_freeq ig') = HDRSPACE"
    and "\<And>a. a \<in> set (all_bufs rd held ig) \<Longrightarrow> buf_ok (ig_mbufs ig') a"
    and "\<And>a. a \<in> set (mqueue_contents (ig_freeq ig') @ held_buf rd') \<Longrightarrow> buf_free (ig_mbufs ig') a"
  shows "sh_inv N rd' held' ig'"
proof -
  have "set (all_bufs rd' held' ig') = set (all_bufs rd held ig)" "length (all_bufs rd' held' ig') = length (all_bufs rd held ig)"
    "distinct (all_bufs rd' held' ig') = distinct (all_bufs rd held ig)"
    using assms(2) by (metis mset_eq_setD, metis mset_eq_length, metis mset_eq_imp_distinct_iff)
  with assms show ?thesis unfolding sh_inv_def by simp
qed

section \<open>The reader's steps\<close>

lemma pop_step:
  assumes inv: "sh_inv N None held ig" and pop: "mqueue_pop (ig_freeq ig) = Inr (a, fq)"
  shows "sh_inv N (Some a) held (ig\<lparr>ig_freeq := fq\<rparr>) \<and>
    set (all_bufs (Some a) held (ig\<lparr>ig_freeq := fq\<rparr>)) = set (all_bufs None held ig)"
proof -
  have ok: "mqueue_ok (ig_freeq ig)" using inv by (simp add: sh_inv_def)
  have "mqueue_contents (ig_freeq ig) \<noteq> []"
    using mqs.pop_empty [OF ok] pop by auto
  from mqueue_pop_top [OF ok this] pop have fq: "a = last (mqueue_contents (ig_freeq ig))" "mqueue_ok fq"
    "mqueue_contents fq = butlast (mqueue_contents (ig_freeq ig))" "mq_size fq = mq_size (ig_freeq ig)"
    "mq_hdrspace fq = mq_hdrspace (ig_freeq ig)" by auto
  then have c: "mqueue_contents (ig_freeq ig) = mqueue_contents fq @ [a]"
    using \<open>mqueue_contents (ig_freeq ig) \<noteq> []\<close> by simp
  have m: "mset (all_bufs (Some a) held (ig\<lparr>ig_freeq := fq\<rparr>)) = mset (all_bufs None held ig)"
    by (simp add: all_bufs_def c)
  have "sh_inv N (Some a) held (ig\<lparr>ig_freeq := fq\<rparr>)"
    by (rule sh_inv_move [OF inv m]) (use inv fq(2,4,5) in \<open>auto simp: sh_inv_def c\<close>)
  with m show ?thesis by (metis mset_eq_setD)
qed

lemma read_step:
  assumes inv: "sh_inv N (Some a) held ig"
  shows "\<exists>ig'. read_into r a ig = Inr ig' \<and> sh_inv N None held ig' \<and>
    q_bytes (ig_mbufs ig') (ig_outq ig') = packet_of r @ q_bytes (ig_mbufs ig) (ig_outq ig) \<and>
    (\<forall>b. b \<noteq> a \<longrightarrow> ig_mbufs ig' b = ig_mbufs ig b) \<and>
    set (all_bufs None held ig') \<subseteq> set (all_bufs (Some a) held ig) \<and>
    (r \<noteq> ReadPkt [] \<longrightarrow> set (all_bufs None held ig') = set (all_bufs (Some a) held ig))"
proof -
  let ?h = "ig_mbufs ig" and ?fq = "ig_freeq ig" and ?oq = "ig_outq ig" and ?b = "ig_mbufs ig a"
  have all: "all_bufs (Some a) held ig = mqueue_contents ?fq @ a # held @ q_bufs ?oq" by (simp add: all_bufs_def)
  have b: "mb_start ?b = HDRSPACE" "mb_end ?b = HDRSPACE" "mbuf_wf ?b" "mb_refcnt ?b = 0" "length (mb_space ?b) = MAXBUF"
    using inv by (simp_all add: sh_inv_def all buf_ok_def buf_free_def)
  have other: "x \<noteq> a" if "x \<in> set (mqueue_contents ?fq @ held @ q_bufs ?oq)" for x
    using inv that by (auto simp: sh_inv_def all)
  have len: "length (mqueue_contents ?fq) < N" "length (mqueue_contents ?oq) < N"
    using inv by (auto simp: sh_inv_def all q_bufs_def)
  consider (err) "r = ReadErr" | (empty) "r = ReadPkt []" | (pkt) p where "r = ReadPkt p" "p \<noteq> []"
    by (cases r) auto
  then show ?thesis
  proof cases
    case err
    from mqueue_push_reset [of ?fq ?h a] len(1) inv b(4) obtain fq' where fq': "mqueue_push ?h ?fq a True =
        Inr (Suc (length (mqueue_contents ?fq)), ?h(a := ?b\<lparr>mb_start := HDRSPACE, mb_end := HDRSPACE, mb_left := 0\<rparr>), fq')"
      "mqueue_ok fq'" "mqueue_contents fq' = mqueue_contents ?fq @ [a]" "mq_size fq' = N" "mq_hdrspace fq' = HDRSPACE"
      by (auto simp: sh_inv_def)
    let ?ig = "ig\<lparr>ig_mbufs := ?h(a := ?b\<lparr>mb_start := HDRSPACE, mb_end := HDRSPACE, mb_left := 0\<rparr>), ig_freeq := fq'\<rparr>"
    have m: "mset (all_bufs None held ?ig) = mset (all_bufs (Some a) held ig)" by (simp add: all_bufs_def fq'(3))
    have "sh_inv N None held ?ig"
      by (rule sh_inv_move [OF inv m]) (use inv fq' b in \<open>auto simp: sh_inv_def all buf_ok_def buf_free_def mbuf_wf_def\<close>)
    moreover have "read_into r a ig = Inr ?ig" using err fq'(1) by (simp add: read_into_def)
    moreover have "q_bytes (ig_mbufs ?ig) ?oq = q_bytes ?h ?oq" using other by (auto simp: q_bytes_def)
    ultimately show ?thesis using err m by (auto dest: mset_eq_setD)
  next
    case empty
    then have "read_into r a ig = Inr ig" by (simp add: read_into_def)
    moreover have "sh_inv N None held ig" using inv by (auto simp: sh_inv_def all_bufs_def)
    ultimately show ?thesis using empty by (auto simp: all_bufs_def)
  next
    case pkt
    define n where "n = min (length p) room_for"
    have av: "nat (MBUF_AVAIL ?b) = room_for" using b by (simp add: MBUF_AVAIL_def room_for_def const_defs)
    have n: "0 < n" "HDRSPACE + n \<le> MAXBUF" "n \<le> length p"
      using pkt(2) by (auto simp: n_def room_for_def const_defs min_def)
    then have tn: "length (take n p) = n" by simp
    have tp: "take room_for p = take n p" by (simp add: n_def min_def)
    let ?b1 = "?b\<lparr>mb_space := splice_at HDRSPACE (take n p) (mb_space ?b), mb_end := HDRSPACE + n\<rparr>"
    have "subseg HDRSPACE (length (take n p)) (splice_at HDRSPACE (take n p) (mb_space ?b)) = take n p"
      by (rule subseg_splice_at) (use n b tn in \<open>simp only: le_refl\<close>)
    then have b1: "mbuf_wf ?b1" "mb_refcnt ?b1 = 0" "length (mb_space ?b1) = MAXBUF" "mbuf_bytes ?b1 = take n p"
      using n(2,3) b unfolding tn by (simp_all add: mbuf_wf_def mbuf_bytes_def)
    have "mqueue_ok ?oq" "length (mqueue_contents ?oq) < mq_size ?oq" using inv len(2) by (simp_all add: sh_inv_def)
    from mqueue_push_plain [OF this, of "?h(a := ?b1)" a] obtain oq where oq:
      "mqueue_push (?h(a := ?b1)) ?oq a False = Inr (Suc (length (mqueue_contents ?oq)), ?h(a := ?b1), oq)"
      "mqueue_ok oq" "mqueue_contents oq = mqueue_contents ?oq @ [a]" "mq_size oq = mq_size ?oq" by auto
    let ?ig = "ig\<lparr>ig_mbufs := ?h(a := ?b1), ig_outq := oq\<rparr>"
    have qb: "q_bufs oq = a # q_bufs ?oq" by (simp add: q_bufs_def oq(3))
    have m: "mset (all_bufs None held ?ig) = mset (all_bufs (Some a) held ig)" by (simp add: all_bufs_def qb)
    have "sh_inv N None held ?ig"
      by (rule sh_inv_move [OF inv m]) (use inv oq b1 other in \<open>auto simp: sh_inv_def all buf_ok_def buf_free_def\<close>)
    moreover have "read_into r a ig = Inr ?ig"
      using pkt(1) b(1) av n(1) oq(1) by (simp add: read_into_def Let_def n_def [symmetric])
    moreover have "q_bytes (?h(a := ?b1)) oq = take room_for p # q_bytes ?h ?oq"
      using other b1(4) by (auto simp: q_bytes_def qb tp)
    ultimately show ?thesis using pkt m by (auto dest: mset_eq_setD)
  qed
qed

section \<open>A packet being filled\<close>

text \<open>
  The writer has taken the packets \<open>P\<close> and filled in \<open>d\<close>; \<open>cur\<close> comes next, and \<open>room\<close> bytes are
  left. Whatever it would take from here on gives the packet that the specification makes of \<open>P\<close> and the rest.
\<close>

definition off_of :: "bytes option \<Rightarrow> nat" where
  "off_of lo = (case lo of None \<Rightarrow> 0 | Some l \<Rightarrow> length l mod 2 ^ 16)"

definition filling :: "bool \<Rightarrow> bool \<Rightarrow> nat \<Rightarrow> bytes option \<Rightarrow> bytes list \<Rightarrow> bytes \<Rightarrow> bytes option \<Rightarrow> nat \<Rightarrow> bool" where
  "filling one dont room0 lo P d cur room \<longleftrightarrow>
     (\<forall>W out lo' Q. (cur = None \<longrightarrow> W = []) \<longrightarrow> tx_loop one dont room cur W = (out, lo', Q) \<longrightarrow>
        tx_packet one dont room0 lo (P @ W) = (Some (off_of lo, d @ out), lo', Q))"

lemma filling_start:
  "filling one dont room (Some l) [] [] (Some l) room" "filling one dont room None [p] [] (Some p) room"
  by (simp_all add: filling_def tx_packet_def off_of_def Let_def)

lemma filling_next:
  assumes "filling one dont room0 lo P d (Some c) room" "6 < room" "length c \<le> room"
    and "tx_next one dont (room - length c) (p # ps) = (Some p, ps)"
  shows "filling one dont room0 lo (P @ [p]) (d @ c) (Some p) (room - length c)"
  unfolding filling_def
proof (intro allI impI)
  fix W out lo' Q
  assume t: "tx_loop one dont (room - length c) (Some p) W = (out, lo', Q)"
  have "tx_next one dont (room - length c) (p # W) = (Some p, W)"
    using assms(4) by (auto simp: tx_next_def split: if_splits)
  with t assms(2,3) have "tx_loop one dont room (Some c) (p # W) = (c @ out, lo', Q)"
    by (subst tx_loop.simps) (simp add: Let_def)
  with assms(1) show "tx_packet one dont room0 lo ((P @ [p]) @ W) = (Some (off_of lo, (d @ c) @ out), lo', Q)"
    by (simp add: filling_def)
qed

lemma filling_last:
  assumes "filling one dont room0 lo P d (Some c) room" "6 < room" "length c \<le> room"
  shows "filling one dont room0 lo P (d @ c) None (room - length c)"
  unfolding filling_def
proof (intro allI impI)
  fix W out lo' Q
  assume t: "tx_loop one dont (room - length c) None W = (out, lo', Q)" and w: "None = None \<longrightarrow> W = []"
  have "tx_next one dont (room - length c) [] = (None, [])" by (simp add: tx_next_def)
  with t w assms(2,3) have "tx_loop one dont room (Some c) [] = (c @ out, lo', Q)"
    by (subst tx_loop.simps) (simp add: Let_def)
  with assms(1) w show "tx_packet one dont room0 lo (P @ W) = (Some (off_of lo, (d @ c) @ out), lo', Q)"
    unfolding filling_def by fastforce
qed

lemma filling_pad:
  "filling one dont room0 lo P d None room \<Longrightarrow> tx_packet one dont room0 lo P = (Some (off_of lo, d @ replicate room 0), None, [])"
  unfolding filling_def by (drule spec [of _ "[]"]) (simp add: tx_loop.simps)

lemma filling_cut:
  assumes "filling one dont room0 lo P d (Some c) room" "6 < room" "room < length c"
  shows "tx_packet one dont room0 lo P = (Some (off_of lo, d @ take room c), Some (drop room c), [])"
proof -
  have "tx_loop one dont room (Some c) [] = (take room c, Some (drop room c), [])"
    using assms(2,3) by (simp add: tx_loop.simps)
  with assms(1) show ?thesis unfolding filling_def by fastforce
qed

section \<open>The arrays\<close>

definition owned :: "nat set \<Rightarrow> iovec \<Rightarrow> bool" where
  "owned A iv \<longleftrightarrow> (case iov_base iv of PBuf a i \<Rightarrow> a \<in> A | _ \<Rightarrow> True)"

lemma owned_mono: "owned A iv \<Longrightarrow> A \<subseteq> B \<Longrightarrow> owned B iv"
  by (auto simp: owned_def split: ptr.splits)

lemma gathered_cong:
  assumes "\<forall>iv \<in> set (take (wp_niov w) (wp_iovecs w)). owned A iv" "\<And>a. a \<in> A \<Longrightarrow> mb_space (h' a) = mb_space (h a)"
  shows "gathered hdr (w\<lparr>wp_mbufs := h'\<rparr>) = gathered hdr (w\<lparr>wp_mbufs := h\<rparr>)"
proof -
  have "iov_seg hdr h' iv = iov_seg hdr h iv" if "iv \<in> set (take (wp_niov w) (wp_iovecs w))" for iv
    using that assms by (auto simp: owned_def iov_seg_def split: ptr.splits)
  then show ?thesis by (simp add: gathered_def cong: map_cong)
qed

lemma gathered_self: "wp_mbufs w = h \<Longrightarrow> gathered hdr (w\<lparr>wp_mbufs := h\<rparr>) = gathered hdr w"
  by (simp add: gathered_def)

definition wp_ok :: "nat \<Rightarrow> wtp \<Rightarrow> bool" where
  "wp_ok N w \<longleftrightarrow> N + 2 \<le> length (wp_iovecs w) \<and> N \<le> length (wp_freem w) \<and> 0 < wp_niov w \<and> wp_niov w \<le> length (wp_iovecs w) \<and>
     wp_nfree w \<le> length (wp_freem w) \<and> wp_iovecs w ! 0 = \<lparr>iov_base = PHdr, iov_len = 8\<rparr> \<and>
     (\<forall>iv \<in> set (take (wp_niov w) (wp_iovecs w)). owned (set (used_bufs w @ held_buf (wp_leftover w))) iv)"

lemma put_iov_ok:
  assumes "wp_ok N w" "wp_niov w < length (wp_iovecs w)" "owned A \<lparr>iov_base = p, iov_len = n\<rparr>"
  shows "\<exists>w1. put_iov p n w = Inr w1 \<and> wp_niov w1 = Suc (wp_niov w) \<and> wp_nfree w1 = wp_nfree w \<and> wp_freem w1 = wp_freem w \<and>
    wp_leftover w1 = wp_leftover w \<and> wp_mbufs w1 = wp_mbufs w \<and> length (wp_iovecs w1) = length (wp_iovecs w) \<and>
    wp_iovecs w1 ! 0 = wp_iovecs w ! 0 \<and> iov_total w1 = iov_total w + n \<and>
    gathered hdr w1 = gathered hdr w @ iov_seg hdr (wp_mbufs w) \<lparr>iov_base = p, iov_len = n\<rparr> \<and>
    (\<forall>iv \<in> set (take (wp_niov w1) (wp_iovecs w1)). owned (set (used_bufs w @ held_buf (wp_leftover w)) \<union> A) iv)"
proof -
  from put_iov_room [OF assms(2), of p n hdr] obtain w1 where w1: "put_iov p n w = Inr w1"
    "gathered hdr w1 = gathered hdr w @ iov_seg hdr (wp_mbufs w) \<lparr>iov_base = p, iov_len = n\<rparr>" "iov_total w1 = iov_total w + n" by blast
  then have e: "w1 = w\<lparr>wp_iovecs := (wp_iovecs w)[wp_niov w := \<lparr>iov_base = p, iov_len = n\<rparr>], wp_niov := Suc (wp_niov w)\<rparr>"
    using assms(2) by (simp add: put_iov_def)
  have "owned (set (used_bufs w @ held_buf (wp_leftover w)) \<union> A) iv" if "iv \<in> set (take (wp_niov w1) (wp_iovecs w1))" for iv
    using that assms owned_mono by (auto simp: e take_Suc_update wp_ok_def intro: owned_mono)
  with w1 e assms(1) show ?thesis by (simp add: wp_ok_def)
qed

section \<open>One round of the filling loop\<close>

text \<open>In the loop, and before \<open>sendmsg\<close>. The bytes gathered are those of the header and \<open>d\<close>.\<close>

definition fill_inv :: "bool \<Rightarrow> bool \<Rightarrow> nat \<Rightarrow> int \<Rightarrow> bytes \<Rightarrow> nat option \<Rightarrow> ingress \<Rightarrow> bytes option \<Rightarrow> bytes list \<Rightarrow>
    int \<Rightarrow> nat option \<Rightarrow> wtp \<Rightarrow> bool" where
  "fill_inv one dont N tfsmtu hdr rd ig lo P mtu m w \<longleftrightarrow>
     sh_inv N rd (used_bufs w @ held_buf m) ig \<and> wp_ok N w \<and> wp_leftover w = None \<and> wp_niov w = Suc (wp_nfree w) \<and>
     0 \<le> mtu \<and> mtu \<le> int MAXBUF \<and> (m \<noteq> None \<longrightarrow> 6 < mtu) \<and> iov_total w + mtu = tfsmtu \<and>
     (\<exists>d. gathered hdr (w\<lparr>wp_mbufs := ig_mbufs ig\<rparr>) = hdr @ d \<and>
        filling one dont (nat (tfsmtu - 8)) lo P d (buf_bytes (ig_mbufs ig) m) (nat mtu))"

definition send_inv :: "bool \<Rightarrow> bool \<Rightarrow> nat \<Rightarrow> int \<Rightarrow> bytes \<Rightarrow> nat option \<Rightarrow> ingress \<Rightarrow> bytes option \<Rightarrow> bytes list \<Rightarrow> wtp \<Rightarrow> bool" where
  "send_inv one dont N tfsmtu hdr rd ig lo P w \<longleftrightarrow>
     sh_inv N rd (used_bufs w @ held_buf (wp_leftover w)) ig \<and> wp_ok N w \<and> iov_total w = tfsmtu \<and>
     (\<exists>d. gathered hdr (w\<lparr>wp_mbufs := ig_mbufs ig\<rparr>) = hdr @ d \<and>
        tx_packet one dont (nat (tfsmtu - 8)) lo P = (Some (off_of lo, d), buf_bytes (ig_mbufs ig) (wp_leftover w), []))"

lemma fill_invI:
  assumes "sh_inv N rd (used_bufs w @ held_buf m) ig" "wp_ok N w" "wp_leftover w = None" "wp_niov w = Suc (wp_nfree w)"
    "0 \<le> mtu" "mtu \<le> int MAXBUF" "m \<noteq> None \<Longrightarrow> 6 < mtu" "iov_total w + mtu = tfsmtu" "wp_mbufs w = ig_mbufs ig"
    "gathered hdr w = hdr @ d" "filling one dont (nat (tfsmtu - 8)) lo P d (buf_bytes (ig_mbufs ig) m) (nat mtu)"
  shows "fill_inv one dont N tfsmtu hdr rd ig lo P mtu m w"
  using assms by (auto simp: fill_inv_def gathered_self)

lemma send_invI:
  assumes "sh_inv N rd (used_bufs w @ held_buf (wp_leftover w)) ig" "wp_ok N w" "iov_total w = tfsmtu" "wp_mbufs w = ig_mbufs ig"
    "gathered hdr w = hdr @ d"
    "tx_packet one dont (nat (tfsmtu - 8)) lo P = (Some (off_of lo, d), buf_bytes (ig_mbufs ig) (wp_leftover w), [])"
  shows "send_inv one dont N tfsmtu hdr rd ig lo P w"
  using assms by (simp add: send_inv_def gathered_self)

lemma used_length: "wp_ok N w \<Longrightarrow> length (used_bufs w) = wp_nfree w"
  by (simp add: wp_ok_def used_bufs_def)

lemma fill_room:
  assumes "sh_inv N rd (used_bufs w @ held) ig" "wp_ok N w"
  shows "wp_nfree w + length held \<le> N"
  using assms(1) used_length [OF assms(2)] by (simp add: sh_inv_def all_bufs_def)

lemma iter_pad:
  assumes inv: "fill_inv one dont N tfsmtu hdr rd ig lo P mtu None w" and mtu: "0 < mtu"
  defines "w0 \<equiv> w\<lparr>wp_mbufs := ig_mbufs ig\<rparr>"
  shows "\<exists>w'. wtp_iter one dont mtu None q w0 = Inr (q, w', None) \<and> wp_mbufs w' = ig_mbufs ig \<and> used_bufs w' = used_bufs w \<and>
    send_inv one dont N tfsmtu hdr rd ig lo P w'"
proof -
  have i: "sh_inv N rd (used_bufs w) ig" "wp_ok N w" "wp_leftover w = None" "wp_niov w = Suc (wp_nfree w)" "mtu \<le> int MAXBUF"
    "iov_total w + mtu = tfsmtu" using inv by (simp_all add: fill_inv_def)
  from inv obtain d where d: "gathered hdr w0 = hdr @ d" "filling one dont (nat (tfsmtu - 8)) lo P d None (nat mtu)"
    by (auto simp: fill_inv_def w0_def)
  have ok: "wp_ok N w0" "wp_leftover w0 = None" "iov_total w0 = iov_total w" "used_bufs w0 = used_bufs w" "wp_mbufs w0 = ig_mbufs ig"
    using i(2,3) by (simp_all add: wp_ok_def w0_def used_bufs_def iov_total_def)
  have "wp_niov w0 < length (wp_iovecs w0)"
    using fill_room [of N rd w "[]" ig] i(1,2,4) by (simp add: wp_ok_def w0_def)
  from put_iov_ok [OF ok(1) this, of "{}" PPad mtu hdr] obtain w1 where w1: "put_iov PPad mtu w0 = Inr w1"
    "wp_niov w1 = Suc (wp_niov w0)" "wp_nfree w1 = wp_nfree w0" "wp_freem w1 = wp_freem w0" "wp_leftover w1 = wp_leftover w0"
    "wp_mbufs w1 = wp_mbufs w0" "length (wp_iovecs w1) = length (wp_iovecs w0)" "wp_iovecs w1 ! 0 = wp_iovecs w0 ! 0"
    "iov_total w1 = iov_total w0 + mtu" "gathered hdr w1 = gathered hdr w0 @ iov_seg hdr (wp_mbufs w0) \<lparr>iov_base = PPad, iov_len = mtu\<rparr>"
    "\<forall>iv \<in> set (take (wp_niov w1) (wp_iovecs w1)). owned (set (used_bufs w0 @ held_buf (wp_leftover w0))) iv"
    by (auto simp: owned_def)
  have u: "used_bufs w1 = used_bufs w" using w1(3,4) ok(4) by (simp add: used_bufs_def)
  have "wp_ok N w1" using ok(1) w1 u ok(4) \<open>wp_niov w0 < length (wp_iovecs w0)\<close> by (simp add: wp_ok_def)
  moreover have "iov_seg hdr (wp_mbufs w0) \<lparr>iov_base = PPad, iov_len = mtu\<rparr> = replicate (nat mtu) 0" by (simp add: iov_seg_def)
  ultimately have "send_inv one dont N tfsmtu hdr rd ig lo P w1"
    using i u w1 d ok filling_pad [OF d(2)] by (simp add: send_inv_def gathered_self)
  moreover have "wtp_iter one dont mtu None q w0 = Inr (q, w1, None)" using mtu i(5) w1(1) by (simp add: wtp_iter_def requireE_def)
  ultimately show ?thesis using w1(6) ok(5) u by auto
qed

text \<open>A buffer longer than the room is split.\<close>

lemma iter_split:
  assumes inv: "fill_inv one dont N tfsmtu hdr rd ig lo P mtu (Some a) w" and mtu: "mtu < MBUF_LEN (ig_mbufs ig a)"
  defines "w0 \<equiv> w\<lparr>wp_mbufs := ig_mbufs ig\<rparr>" and "b \<equiv> ig_mbufs ig a"
  shows "\<exists>w'. wtp_iter one dont mtu (Some a) q w0 = Inr (q, w', None) \<and> wp_leftover w' = Some a \<and> used_bufs w' = used_bufs w \<and>
    wp_mbufs w' = (ig_mbufs ig)(a := b\<lparr>mb_start := mb_start b + nat mtu\<rparr>) \<and>
    send_inv one dont N tfsmtu hdr rd (ig\<lparr>ig_mbufs := wp_mbufs w'\<rparr>) lo P w'"
proof -
  let ?h = "(ig_mbufs ig)(a := b\<lparr>mb_start := mb_start b + nat mtu\<rparr>)"
  have i: "sh_inv N rd (used_bufs w @ [a]) ig" "wp_ok N w" "wp_leftover w = None" "wp_niov w = Suc (wp_nfree w)" "mtu \<le> int MAXBUF"
    "iov_total w + mtu = tfsmtu" "6 < mtu" using inv by (simp_all add: fill_inv_def)
  from inv obtain d where d: "gathered hdr w0 = hdr @ d"
    "filling one dont (nat (tfsmtu - 8)) lo P d (Some (mbuf_bytes b)) (nat mtu)"
    by (auto simp: fill_inv_def w0_def b_def)
  have bk: "mbuf_wf b" "mb_refcnt b = 0" "length (mb_space b) = MAXBUF"
    using i(1) by (simp_all add: sh_inv_def all_bufs_def buf_ok_def b_def)
  have len: "nat mtu \<le> mb_end b - mb_start b" "nat mtu < length (mbuf_bytes b)" "6 < nat mtu"
    using bk(1) mtu i(7) by (auto simp: MBUF_LEN_def mbuf_wf_def mbuf_bytes_def b_def)
  have ok: "wp_ok N w0" "wp_leftover w0 = None" "iov_total w0 = iov_total w" "used_bufs w0 = used_bufs w" "wp_mbufs w0 = ig_mbufs ig"
    using i(2,3) by (simp_all add: wp_ok_def w0_def used_bufs_def iov_total_def)
  have "wp_niov w0 < length (wp_iovecs w0)"
    using fill_room [of N rd w "[a]" ig] i(1,2,4) by (simp add: wp_ok_def w0_def)
  from put_iov_ok [OF ok(1) this, of "{a}" "PBuf a (mb_start b)" mtu hdr] obtain w1 where
    w1: "put_iov (PBuf a (mb_start b)) mtu w0 = Inr w1"
    "wp_niov w1 = Suc (wp_niov w0)" "wp_nfree w1 = wp_nfree w0" "wp_freem w1 = wp_freem w0" "wp_leftover w1 = wp_leftover w0"
    "wp_mbufs w1 = wp_mbufs w0" "length (wp_iovecs w1) = length (wp_iovecs w0)" "wp_iovecs w1 ! 0 = wp_iovecs w0 ! 0"
    "iov_total w1 = iov_total w0 + mtu"
    "gathered hdr w1 = gathered hdr w0 @ iov_seg hdr (wp_mbufs w0) \<lparr>iov_base = PBuf a (mb_start b), iov_len = mtu\<rparr>"
    "\<forall>iv \<in> set (take (wp_niov w1) (wp_iovecs w1)). owned (set (used_bufs w0 @ held_buf (wp_leftover w0)) \<union> {a}) iv"
    by (auto simp: owned_def)
  let ?w = "w1\<lparr>wp_mbufs := ?h, wp_leftover := Some a\<rparr>"
  have u: "used_bufs ?w = used_bufs w" using w1(3,4) ok(4) by (simp add: used_bufs_def)
  have "wp_ok N ?w" using ok(1,2) w1 u ok(4) \<open>wp_niov w0 < length (wp_iovecs w0)\<close> by (simp add: wp_ok_def insert_commute)
  moreover have "gathered hdr ?w = gathered hdr w1"
  proof -
    have "iov_seg hdr ?h = iov_seg hdr (ig_mbufs ig)"
      by (rule ext, rule iov_seg_cong) (simp add: b_def)
    with w1(6) ok(5) show ?thesis by (simp add: gathered_def)
  qed
  moreover have "iov_seg hdr (wp_mbufs w0) \<lparr>iov_base = PBuf a (mb_start b), iov_len = mtu\<rparr> = take (nat mtu) (mbuf_bytes b)"
    using len ok(5) by (simp add: iov_seg_def mbuf_bytes_def subseg_def b_def min_absorb1)
  moreover have "mbuf_bytes (b\<lparr>mb_start := mb_start b + nat mtu\<rparr>) = drop (nat mtu) (mbuf_bytes b)"
    by (simp add: mbuf_bytes_def subseg_def drop_take add.commute)
  moreover have "sh_inv N rd (used_bufs w @ [a]) (ig\<lparr>ig_mbufs := ?h\<rparr>)"
    by (rule sh_inv_move [OF i(1)])
       (use i(1) bk len in \<open>auto simp: sh_inv_def all_bufs_def buf_ok_def buf_free_def mbuf_wf_def b_def\<close>)
  moreover have "iov_total ?w = tfsmtu" using w1(9) ok(3) i(6) by (simp add: iov_total_def)
  ultimately have "send_inv one dont N tfsmtu hdr rd (ig\<lparr>ig_mbufs := ?h\<rparr>) lo P ?w"
    by (intro send_invI) (use i u w1 d ok filling_cut [OF d(2) len(3,2)] in simp_all)
  moreover have "wtp_iter one dont mtu (Some a) q w0 = Inr (q, ?w, None)"
    using mtu i(7) w1(1,6) ok(5) by (simp add: wtp_iter_def Let_def b_def)
  ultimately show ?thesis using u by (intro exI [of _ ?w]) simp
qed

text \<open>A buffer that fits is used whole, and the next one is popped if there is one and room for it.\<close>

text \<open>A buffer that fits goes into both arrays.\<close>

lemma put_whole:
  assumes ok: "wp_ok N w0" "wp_leftover w0 = None" "wp_niov w0 = Suc (wp_nfree w0)" and room: "wp_nfree w0 < N"
    and bk: "mbuf_wf (wp_mbufs w0 a)"
  shows "\<exists>w1 w2. put_iov (PBuf a (mb_start (wp_mbufs w0 a))) (MBUF_LEN (wp_mbufs w0 a)) w0 = Inr w1 \<and> put_free a w1 = Inr w2 \<and>
    wp_mbufs w1 = wp_mbufs w0 \<and> wp_mbufs w2 = wp_mbufs w0 \<and> used_bufs w2 = used_bufs w0 @ [a] \<and> wp_ok N w2 \<and>
    wp_leftover w2 = None \<and> wp_niov w2 = Suc (wp_nfree w2) \<and>
    iov_total w2 = iov_total w0 + MBUF_LEN (wp_mbufs w0 a) \<and> gathered hdr w2 = gathered hdr w0 @ mbuf_bytes (wp_mbufs w0 a)"
proof -
  let ?b = "wp_mbufs w0 a"
  have "wp_niov w0 < length (wp_iovecs w0)" using room ok(1,3) by (simp add: wp_ok_def)
  from put_iov_ok [OF ok(1) this, of "{a}" "PBuf a (mb_start ?b)" "MBUF_LEN ?b" hdr] obtain w1 where
    w1: "put_iov (PBuf a (mb_start ?b)) (MBUF_LEN ?b) w0 = Inr w1"
    "wp_niov w1 = Suc (wp_niov w0)" "wp_nfree w1 = wp_nfree w0" "wp_freem w1 = wp_freem w0" "wp_leftover w1 = wp_leftover w0"
    "wp_mbufs w1 = wp_mbufs w0" "length (wp_iovecs w1) = length (wp_iovecs w0)" "wp_iovecs w1 ! 0 = wp_iovecs w0 ! 0"
    "iov_total w1 = iov_total w0 + MBUF_LEN ?b"
    "gathered hdr w1 = gathered hdr w0 @ iov_seg hdr (wp_mbufs w0) \<lparr>iov_base = PBuf a (mb_start ?b), iov_len = MBUF_LEN ?b\<rparr>"
    "\<forall>iv \<in> set (take (wp_niov w1) (wp_iovecs w1)). owned (set (used_bufs w0 @ held_buf (wp_leftover w0)) \<union> {a}) iv"
    by (auto simp: owned_def)
  have "wp_nfree w1 < length (wp_freem w1)" using room ok(1) w1(3,4) by (simp add: wp_ok_def)
  from put_free_room [OF this, of a] obtain w2 where
    w2: "put_free a w1 = Inr w2" "used_bufs w2 = used_bufs w1 @ [a]" "wp_nfree w2 = wp_nfree w1 + 1"
    "length (wp_freem w2) = length (wp_freem w1)" "wp_mbufs w2 = wp_mbufs w1" "wp_iovecs w2 = wp_iovecs w1"
    "wp_niov w2 = wp_niov w1" "wp_leftover w2 = wp_leftover w1" by blast
  have u: "used_bufs w2 = used_bufs w0 @ [a]" using w2(2) w1(3,4) by (simp add: used_bufs_def)
  have wok: "wp_ok N w2"
    using ok(1,2) w1 w2 u \<open>wp_niov w0 < length (wp_iovecs w0)\<close> \<open>wp_nfree w1 < length (wp_freem w1)\<close>
    by (simp add: wp_ok_def insert_commute)
  have "iov_seg hdr (wp_mbufs w0) \<lparr>iov_base = PBuf a (mb_start ?b), iov_len = MBUF_LEN ?b\<rparr> = mbuf_bytes ?b"
    using bk by (simp add: iov_seg_def mbuf_bytes_def MBUF_LEN_def mbuf_wf_def nat_diff_distrib')
  moreover have "gathered hdr w2 = gathered hdr w1" using w2 by (simp add: gathered_def)
  ultimately have "gathered hdr w2 = gathered hdr w0 @ mbuf_bytes ?b" using w1(10) by simp
  moreover have "iov_total w2 = iov_total w0 + MBUF_LEN ?b" using w1(9) w2(6,7) by (simp add: iov_total_def)
  ultimately show ?thesis using u wok w1 w2 ok by simp
qed

lemma iter_whole:
  assumes inv: "fill_inv one dont N tfsmtu hdr rd ig lo P mtu (Some a) w" and mtu: "MBUF_LEN (ig_mbufs ig a) \<le> mtu"
  defines "w0 \<equiv> w\<lparr>wp_mbufs := ig_mbufs ig\<rparr>"
  shows "\<exists>q w' mtu' m' P'. wtp_iter one dont mtu (Some a) (ig_outq ig) w0 = Inr (q, w', Some (mtu', m')) \<and>
    wp_mbufs w' = ig_mbufs ig \<and> fill_inv one dont N tfsmtu hdr rd (ig\<lparr>ig_outq := q\<rparr>) lo P' mtu' m' w' \<and>
    mset (all_bufs rd (used_bufs w' @ held_buf m') (ig\<lparr>ig_outq := q\<rparr>)) = mset (all_bufs rd (used_bufs w @ [a]) ig) \<and>
    P' @ q_bytes (ig_mbufs ig) q = P @ q_bytes (ig_mbufs ig) (ig_outq ig)"
proof -
  let ?h = "ig_mbufs ig" and ?b = "ig_mbufs ig a" and ?q0 = "ig_outq ig"
  have i: "sh_inv N rd (used_bufs w @ [a]) ig" "wp_ok N w" "wp_leftover w = None" "wp_niov w = Suc (wp_nfree w)" "mtu \<le> int MAXBUF"
    "iov_total w + mtu = tfsmtu" "6 < mtu" using inv by (simp_all add: fill_inv_def)
  from inv obtain d where d: "gathered hdr w0 = hdr @ d"
    "filling one dont (nat (tfsmtu - 8)) lo P d (Some (mbuf_bytes ?b)) (nat mtu)"
    by (auto simp: fill_inv_def w0_def)
  have bk: "mbuf_wf ?b" using i(1) by (simp add: sh_inv_def all_bufs_def buf_ok_def)
  have q: "mqueue_ok ?q0" "bufs_ok ?h (q_bufs ?q0)" "mq_size ?q0 = N"
    using i(1) by (auto simp: sh_inv_def all_bufs_def buf_ok_def bufs_ok_def)
  have len: "MBUF_LEN ?b = int (length (mbuf_bytes ?b))" "length (mbuf_bytes ?b) \<le> nat mtu" "6 < nat mtu"
    using MBUF_LEN_bytes [OF bk] mtu i(7) by auto
  have ok: "wp_ok N w0" "wp_leftover w0 = None" "iov_total w0 = iov_total w" "used_bufs w0 = used_bufs w" "wp_mbufs w0 = ?h"
    "wp_niov w0 = Suc (wp_nfree w0)" using i(2-4) by (simp_all add: wp_ok_def w0_def used_bufs_def iov_total_def)
  have room: "wp_nfree w0 < N" using fill_room [of N rd w "[a]" ig] i(1,2) by (simp add: w0_def)
  from put_whole [OF ok(1,2,6) room, of a hdr, unfolded ok(5), OF bk] obtain w1 w2 where
    p: "put_iov (PBuf a (mb_start ?b)) (MBUF_LEN ?b) w0 = Inr w1" "put_free a w1 = Inr w2" "wp_mbufs w1 = ?h" "wp_mbufs w2 = ?h"
    "used_bufs w2 = used_bufs w0 @ [a]" "wp_ok N w2" "wp_leftover w2 = None" "wp_niov w2 = Suc (wp_nfree w2)"
    "iov_total w2 = iov_total w0 + MBUF_LEN ?b" "gathered hdr w2 = gathered hdr w0 @ mbuf_bytes ?b" by blast
  have u: "used_bufs w2 = used_bufs w @ [a]" using p(5) ok(4) by simp
  define mtu' where "mtu' = mtu - MBUF_LEN ?b"
  obtain m' q' where n: "wtp_next one dont mtu' ?h ?q0 = (m', q')" by force
  note nt = wtp_next_tx [OF q(1,2) n]
  have nat: "nat mtu' = nat mtu - length (mbuf_bytes ?b)" using len by (simp add: mtu'_def)
  have m: "mset (all_bufs rd (used_bufs w2 @ held_buf m') (ig\<lparr>ig_outq := q'\<rparr>)) = mset (all_bufs rd (used_bufs w @ [a]) ig)"
    by (simp add: all_bufs_def u nt(4))
  have sh: "sh_inv N rd (used_bufs w2 @ held_buf m') (ig\<lparr>ig_outq := q'\<rparr>)"
    by (rule sh_inv_move [OF i(1) m]) (use i(1) nt(2,3) q(3) in \<open>auto simp: sh_inv_def\<close>)
  have tot: "iov_total w2 + mtu' = tfsmtu"
    using p(9) ok(3) i(6) by (simp add: mtu'_def)
  have "\<exists>P'. filling one dont (nat (tfsmtu - 8)) lo P' (d @ mbuf_bytes ?b) (buf_bytes ?h m') (nat mtu') \<and>
      P' @ q_bytes ?h q' = P @ q_bytes ?h ?q0"
  proof (cases m')
    case None
    with filling_last [OF d(2) len(3,2)] nat nt(4) show ?thesis by (intro exI [of _ P]) (simp add: q_bytes_def)
  next
    case (Some c)
    then have "q_bytes ?h ?q0 = mbuf_bytes (?h c) # q_bytes ?h q'" using nt(4) by (simp add: q_bytes_def)
    with filling_next [OF d(2) len(3,2), of "mbuf_bytes (?h c)" "q_bytes ?h q'"] nt(1) Some nat show ?thesis
      by (intro exI [of _ "P @ [mbuf_bytes (?h c)]"]) simp
  qed
  then obtain P' where P': "filling one dont (nat (tfsmtu - 8)) lo P' (d @ mbuf_bytes ?b) (buf_bytes ?h m') (nat mtu')"
    "P' @ q_bytes ?h q' = P @ q_bytes ?h ?q0" by blast
  have "0 \<le> mtu'" "mtu' \<le> int MAXBUF" "m' \<noteq> None \<Longrightarrow> 6 < mtu'"
    using mtu i(5) len(1) nt(5) by (simp_all add: mtu'_def)
  then have fin: "fill_inv one dont N tfsmtu hdr rd (ig\<lparr>ig_outq := q'\<rparr>) lo P' mtu' m' w2"
    by (intro fill_invI) (use sh p(4,6-8,10) d(1) tot P'(1) in simp_all)
  have "wtp_iter one dont mtu (Some a) ?q0 w0 = Inr (q', w2, Some (mtu', m'))"
    using mtu i(7) p(1-4) ok(5) n by (simp add: wtp_iter_def Let_def mtu'_def)
  with fin m P'(2) p(4) show ?thesis by auto
qed

section \<open>The invariant of a run\<close>

text \<open>
  \<open>lo\<close> is what was left over when the writer began its packet, \<open>P\<close> what it has taken from the queue
  since; between two packets these are what is left over now, and nothing.
\<close>

definition arrays_ok :: "nat \<Rightarrow> wtfs \<Rightarrow> bool" where
  "arrays_ok N wt \<longleftrightarrow> N + 2 \<le> length (wt_iovecs wt) \<and> N \<le> length (wt_freem wt) \<and>
     wt_iovecs wt ! 0 = \<lparr>iov_base = PHdr, iov_len = 8\<rparr>"

definition hdr_set :: "u32 \<Rightarrow> bytes option \<Rightarrow> bytes" where
  "hdr_set seq lo = put16 (put32 (replicate 8 0) 0 seq) 6 (ucast (of_nat (off_of lo) :: u16))"

lemma hdr_set_clean [simp]: "hdr_clean (hdr_set seq lo)"
  unfolding hdr_set_def by (rule hdr_bytes(2)) (simp add: hdr_clean_def)

fun wheld :: "wtfs \<Rightarrow> wphase \<Rightarrow> nat list" where
  "wheld wt WIdle = held_buf (wt_leftover wt)"
| "wheld wt (WFill mtu m w) = used_bufs w @ held_buf m"
| "wheld wt (WSend w) = used_bufs w @ held_buf (wp_leftover w)"
| "wheld wt (WFree as) = as @ held_buf (wt_leftover wt)"

fun phase_inv :: "bool \<Rightarrow> bool \<Rightarrow> nat \<Rightarrow> int \<Rightarrow> wtfs \<Rightarrow> nat option \<Rightarrow> bytes option \<Rightarrow> bytes list \<Rightarrow> wphase \<Rightarrow> bool" where
  "phase_inv one dont N tfsmtu wt rd lo P (WFill mtu m w) \<longleftrightarrow> wt_leftover wt = None \<and> wt_hdr wt = hdr_set (wt_seq wt) lo \<and>
     fill_inv one dont N tfsmtu (wt_hdr wt) rd (wt_ig wt) lo P mtu m w"
| "phase_inv one dont N tfsmtu wt rd lo P (WSend w) \<longleftrightarrow> wt_leftover wt = None \<and> wt_hdr wt = hdr_set (wt_seq wt) lo \<and>
     send_inv one dont N tfsmtu (wt_hdr wt) rd (wt_ig wt) lo P w"
| "phase_inv one dont N tfsmtu wt rd lo P ph \<longleftrightarrow> sh_inv N rd (wheld wt ph) (wt_ig wt) \<and> arrays_ok N wt \<and> lo = lo_of wt \<and> P = []"

definition fine_inv :: "bool \<Rightarrow> bool \<Rightarrow> nat \<Rightarrow> int \<Rightarrow> wtfs \<Rightarrow> nat option \<Rightarrow> wphase \<Rightarrow> bytes option \<Rightarrow> bytes list \<Rightarrow> bool" where
  "fine_inv one dont N tfsmtu wt rd ph lo P \<longleftrightarrow>
     hdr_clean (wt_hdr wt) \<and> ebytes_clean (wt_ebytes wt) \<and> phase_inv one dont N tfsmtu wt rd lo P ph"

lemma fine_inv_shared: "fine_inv one dont N tfsmtu wt rd ph lo P \<Longrightarrow> sh_inv N rd (wheld wt ph) (wt_ig wt)"
  by (cases ph) (auto simp: fine_inv_def fill_inv_def send_inv_def)

lemma wt_inv_fine: "wt_inv N wt \<longleftrightarrow> fine_inv one dont N tfsmtu wt None WIdle (lo_of wt) []"
  by (auto simp: wt_inv_def fine_inv_def arrays_ok_def ig_inv_sh_inv)

text \<open>What a step of the writer does, seen from the specification.\<close>

definition writer_effect :: "bool \<Rightarrow> bool \<Rightarrow> int \<Rightarrow> int \<Rightarrow> wtfs \<Rightarrow> bytes option \<Rightarrow> bytes list \<Rightarrow> bytes option \<Rightarrow>
    wtfs \<Rightarrow> bytes option \<Rightarrow> bytes list \<Rightarrow> bool" where
  "writer_effect one dont tfsmtu n wt lo P pkt wt' lo' P' \<longleftrightarrow>
     (case pkt of
        None \<Rightarrow> lo' = lo \<and> P' @ queue_of wt' = P @ queue_of wt \<and> wt_seq wt' = wt_seq wt
      | Some x \<Rightarrow> \<exists>off d lo1. x = wire (wt_seq wt, of_nat off, d) \<and>
          tx_packet one dont (nat (tfsmtu - 8)) lo P = (Some (off, d), lo1, []) \<and> lo' = (if n = tfsmtu then lo1 else None) \<and>
          P' = [] \<and> queue_of wt' = queue_of wt \<and> wt_seq wt' = wt_seq wt + 1)"

lemma free_step:
  assumes inv: "fine_inv one dont N tfsmtu wt rd (WFree as) lo P"
  shows "\<exists>wt' ph'. writer_step one dont tfsmtu now n wt (WFree as) = Inr (None, wt', ph') \<and>
    fine_inv one dont N tfsmtu wt' rd ph' lo P \<and> writer_effect one dont tfsmtu n wt lo P None wt' lo P \<and>
    mset (all_bufs rd (wheld wt' ph') (wt_ig wt')) = mset (all_bufs rd (wheld wt (WFree as)) (wt_ig wt))"
proof (cases as)
  case Nil
  with inv show ?thesis by (simp add: writer_step_def fine_inv_def writer_effect_def Let_def)
next
  case (Cons a as')
  let ?ig = "wt_ig wt" and ?h = "ig_mbufs (wt_ig wt)" and ?fq = "ig_freeq (wt_ig wt)"
  have sh: "sh_inv N rd (a # as' @ held_buf (wt_leftover wt)) ?ig" using inv Cons by (simp add: fine_inv_def)
  then have all: "all_bufs rd (a # as' @ held_buf (wt_leftover wt)) ?ig =
      mqueue_contents ?fq @ held_buf rd @ a # as' @ held_buf (wt_leftover wt) @ q_bufs (ig_outq ?ig)" by (simp add: all_bufs_def)
  have b: "buf_ok ?h a" "mqueue_ok ?fq" "length (mqueue_contents ?fq) < mq_size ?fq"
    using sh by (simp_all add: sh_inv_def all)
  then have "mb_refcnt (?h a) = 0" by (simp add: buf_ok_def)
  from mqueue_push_reset [of ?fq ?h a, OF b(2,3) this] sh obtain fq' where fq': "mqueue_push ?h ?fq a True =
      Inr (Suc (length (mqueue_contents ?fq)), ?h(a := (?h a)\<lparr>mb_start := HDRSPACE, mb_end := HDRSPACE, mb_left := 0\<rparr>), fq')"
    "mqueue_ok fq'" "mqueue_contents fq' = mqueue_contents ?fq @ [a]" "mq_size fq' = N" "mq_hdrspace fq' = HDRSPACE"
    by (auto simp: sh_inv_def)
  let ?h' = "?h(a := (?h a)\<lparr>mb_start := HDRSPACE, mb_end := HDRSPACE, mb_left := 0\<rparr>)"
  let ?wt = "wt\<lparr>wt_ig := ?ig\<lparr>ig_mbufs := ?h', ig_freeq := fq'\<rparr>\<rparr>"
  have step: "writer_step one dont tfsmtu now n wt (WFree as) = Inr (None, ?wt, WFree as')"
    using Cons fq'(1) by (simp add: writer_step_def Let_def)
  have m: "mset (all_bufs rd (wheld ?wt (WFree as')) (wt_ig ?wt)) = mset (all_bufs rd (a # as' @ held_buf (wt_leftover wt)) ?ig)"
    by (simp add: all_bufs_def fq'(3))
  have other: "x \<noteq> a" if "x \<in> set (held_buf (wt_leftover wt) @ q_bufs (ig_outq ?ig))" for x
    using sh that by (auto simp: sh_inv_def all)
  have "sh_inv N rd (wheld ?wt (WFree as')) (wt_ig ?wt)"
    by (rule sh_inv_move [OF sh m])
       (use sh fq' b(1) in \<open>auto simp: sh_inv_def all_bufs_def buf_ok_def buf_free_def mbuf_wf_def HDR_le_MAXBUF\<close>)
  moreover have q: "lo_of ?wt = lo_of wt" "queue_of ?wt = queue_of wt"
    using other by (cases "wt_leftover wt", auto simp: lo_of_def queue_of_def q_bytes_def)
  ultimately have "fine_inv one dont N tfsmtu ?wt rd (WFree as') lo P"
    using inv Cons by (simp add: fine_inv_def arrays_ok_def)
  with step m q(2) Cons show ?thesis by (simp add: writer_effect_def)
qed

lemma send_step:
  assumes inv: "fine_inv one dont N tfsmtu wt rd (WSend w) lo P"
  shows "\<exists>x wt' ph' lo'. writer_step one dont tfsmtu now n wt (WSend w) = Inr (Some x, wt', ph') \<and>
    fine_inv one dont N tfsmtu wt' rd ph' lo' [] \<and> writer_effect one dont tfsmtu n wt lo P (Some x) wt' lo' [] \<and>
    mset (all_bufs rd (wheld wt' ph') (wt_ig wt')) = mset (all_bufs rd (wheld wt (WSend w)) (wt_ig wt))"
proof -
  let ?h = "ig_mbufs (wt_ig wt)" and ?w = "w\<lparr>wp_mbufs := ig_mbufs (wt_ig wt)\<rparr>"
  have hdr: "hdr_clean (wt_hdr wt)" "ebytes_clean (wt_ebytes wt)" "wt_hdr wt = hdr_set (wt_seq wt) lo"
    and si: "send_inv one dont N tfsmtu (wt_hdr wt) rd (wt_ig wt) lo P w"
    using inv unfolding fine_inv_def phase_inv.simps by blast+
  from si have sh: "sh_inv N rd (used_bufs w @ held_buf (wp_leftover w)) (wt_ig wt)" and ok: "wp_ok N w" "iov_total w = tfsmtu"
    by (simp_all add: send_inv_def)
  from si obtain d where d: "gathered (wt_hdr wt) ?w = wt_hdr wt @ d"
    "tx_packet one dont (nat (tfsmtu - 8)) lo P = (Some (off_of lo, d), buf_bytes ?h (wp_leftover w), [])"
    by (auto simp: send_inv_def)
  obtain w2 where w2: "(if n \<noteq> tfsmtu
      then bindE (case wp_leftover ?w of Some a \<Rightarrow> put_free a ?w | None \<Rightarrow> Inr ?w) (\<lambda>w1. Inr (w1\<lparr>wp_leftover := None\<rparr>))
      else Inr ?w) = Inr w2" "wp_leftover w2 = (if n = tfsmtu then wp_leftover w else None)" "wp_iovecs w2 = wp_iovecs w"
    "used_bufs w2 @ held_buf (wp_leftover w2) = used_bufs w @ held_buf (wp_leftover w)" "length (wp_freem w2) = length (wp_freem w)"
  proof (cases "n = tfsmtu")
    case True
    then show thesis by (intro that [of ?w]) (simp_all add: used_bufs_def)
  next
    case False
    show thesis
    proof (cases "wp_leftover w")
      case None
      with False show thesis by (intro that [of "?w\<lparr>wp_leftover := None\<rparr>"]) (simp_all add: used_bufs_def)
    next
      case (Some a)
      have "wp_nfree ?w < length (wp_freem ?w)" using fill_room [OF sh ok(1)] ok(1) Some by (simp add: wp_ok_def)
      from put_free_room [OF this, of a] obtain w1 where w1: "put_free a ?w = Inr w1" "used_bufs w1 = used_bufs ?w @ [a]"
        "length (wp_freem w1) = length (wp_freem ?w)" "wp_iovecs w1 = wp_iovecs ?w" by blast
      with False Some show thesis by (intro that [of "w1\<lparr>wp_leftover := None\<rparr>"]) (simp_all add: used_bufs_def)
    qed
  qed
  let ?wt = "wt\<lparr>wt_iovecs := wp_iovecs w2, wt_freem := wp_freem w2, wt_seq := wt_seq wt + 1, wt_leftover := wp_leftover w2\<rparr>"
  have "wtp_sendmsg tfsmtu n (wt_hdr wt) ?w = Inr (wt_hdr wt @ d, w2)"
    unfolding wtp_sendmsg_def using ok(2) d(1) w2(1) by (simp add: iov_total_def gathered_def Let_def)
  then have step: "writer_step one dont tfsmtu now n wt (WSend w) = Inr (Some (wt_hdr wt @ d), ?wt, WFree (used_bufs w2))"
    by (simp add: writer_step_def Let_def used_bufs_def)
  have held: "wheld ?wt (WFree (used_bufs w2)) = wheld wt (WSend w)" using w2(4) by simp
  have arr: "arrays_ok N ?wt" using ok(1) w2(3,5) by (simp add: wp_ok_def arrays_ok_def)
  have lo: "lo_of ?wt = (if n = tfsmtu then buf_bytes ?h (wp_leftover w) else None)" using w2(2) by (simp add: lo_of_def)
  have "fine_inv one dont N tfsmtu ?wt rd (WFree (used_bufs w2)) (lo_of ?wt) []"
    using hdr(1,2) arr sh held by (simp add: fine_inv_def)
  moreover have "wt_hdr wt @ d = wire (wt_seq wt, of_nat (off_of lo), d)"
    by (simp add: hdr(3) hdr_set_def wire_def tfs_bytes_def)
  then have "writer_effect one dont tfsmtu n wt lo P (Some (wt_hdr wt @ d)) ?wt (lo_of ?wt) []"
    using d(2) lo by (auto simp: writer_effect_def queue_of_def)
  moreover have "mset (all_bufs rd (wheld ?wt (WFree (used_bufs w2))) (wt_ig ?wt)) = mset (all_bufs rd (wheld wt (WSend w)) (wt_ig wt))"
    unfolding held by simp
  ultimately show ?thesis using step by blast
qed

lemma idle_phase:
  assumes "fine_inv one dont N tfsmtu wt rd WIdle lo P"
  shows "hdr_clean (wt_hdr wt)" "ebytes_clean (wt_ebytes wt)" "sh_inv N rd (held_buf (wt_leftover wt)) (wt_ig wt)"
    "arrays_ok N wt" "lo = lo_of wt" "P = []"
  using assms by (simp_all add: fine_inv_def)

text \<open>What the writer has set once it has taken the first buffer, or found none.\<close>

definition begun :: "timespec \<Rightarrow> nat option \<Rightarrow> mqueue \<Rightarrow> wtfs \<Rightarrow> wtfs" where
  "begun now m q wt = wtp_count now (m = None) (wt\<lparr>wt_leftover := None, wt_ig := (wt_ig wt)\<lparr>ig_outq := q\<rparr>\<rparr>)"

lemma begun_parts [simp]:
  "wt_ig (begun now m q wt) = (wt_ig wt)\<lparr>ig_outq := q\<rparr>" "wt_leftover (begun now m q wt) = None"
  "wt_seq (begun now m q wt) = wt_seq wt" "wt_hdr (begun now m q wt) = wt_hdr wt" "wt_ebytes (begun now m q wt) = wt_ebytes wt"
  "wt_iovecs (begun now m q wt) = wt_iovecs wt" "wt_freem (begun now m q wt) = wt_freem wt"
  by (simp_all add: begun_def)

text \<open>A first buffer.\<close>

lemma begin_fill:
  assumes inv: "fine_inv one dont N tfsmtu wt rd WIdle lo P" and mtu: "14 < tfsmtu" "tfsmtu \<le> int MAXBUF"
    and f: "wtp_first wt = (Some a, off, q)" and off: "off = of_nat (off_of lo)"
    and fl: "filling one dont (nat (tfsmtu - 8)) lo P' [] (Some (mbuf_bytes (ig_mbufs (wt_ig wt) a))) (nat (tfsmtu - 8))"
    and qs: "P' @ q_bytes (ig_mbufs (wt_ig wt)) q = queue_of wt" "mqueue_ok q" "mq_size q = N"
      "held_buf (wt_leftover wt) @ q_bufs (ig_outq (wt_ig wt)) = a # q_bufs q"
  shows "\<exists>pkt wt' ph' lo' P'. wtp_begin one tfsmtu now wt = Inr (pkt, wt', ph') \<and>
    fine_inv one dont N tfsmtu wt' rd ph' lo' P' \<and> writer_effect one dont tfsmtu n wt lo P pkt wt' lo' P' \<and>
    mset (all_bufs rd (wheld wt' ph') (wt_ig wt')) = mset (all_bufs rd (wheld wt WIdle) (wt_ig wt))"
proof -
  let ?h = "ig_mbufs (wt_ig wt)" and ?q0 = "ig_outq (wt_ig wt)" and ?wt1 = "begun now (Some a) q wt"
  note i = idle_phase [OF inv]
  let ?hdr = "put16 (put32 (wt_hdr ?wt1) 0 (wt_seq ?wt1)) 6 (ucast off)" and ?wt = "?wt1\<lparr>wt_hdr := put16 (put32 (wt_hdr ?wt1) 0 (wt_seq ?wt1)) 6 (ucast off)\<rparr>"
  let ?w = "\<lparr>wp_mbufs = ?h, wp_iovecs = wt_iovecs wt, wp_niov = 1, wp_freem = wt_freem wt, wp_nfree = 0, wp_leftover = None\<rparr>"
  have hdr: "?hdr = hdr_set (wt_seq wt) lo" "hdr_clean ?hdr"
    using hdr_bytes [OF i(1), of "wt_seq wt" off] by (simp_all add: hdr_set_def off)
  then have hl: "length ?hdr = 8" by (simp add: hdr_clean_def)
  have iov: "wt_iovecs wt = \<lparr>iov_base = PHdr, iov_len = 8\<rparr> # tl (wt_iovecs wt)" "N + 2 \<le> length (wt_iovecs wt)"
    using i(4) by (cases "wt_iovecs wt", auto simp: arrays_ok_def)
  have t1: "take (Suc 0) (wt_iovecs wt) = [\<lparr>iov_base = PHdr, iov_len = 8\<rparr>]" by (subst iov(1)) simp
  have wok: "wp_ok N ?w" using i(4) iov(2) t1 by (simp add: wp_ok_def arrays_ok_def owned_def)
  have m1: "mset (all_bufs rd (used_bufs ?w @ held_buf (Some a)) (wt_ig ?wt)) = mset (all_bufs rd (held_buf (wt_leftover wt)) (wt_ig wt))"
    using arg_cong [OF qs(4), of mset] by (simp add: all_bufs_def used_bufs_def ac_simps)
  have sh: "sh_inv N rd (used_bufs ?w @ held_buf (Some a)) (wt_ig ?wt)"
    by (rule sh_inv_move [OF i(3) m1]) (use i(3) qs(2,3) begun_parts(1) in \<open>auto simp: sh_inv_def\<close>)
  have tot: "iov_total ?w = 8" using iov(1) by (simp add: iov_total_def) (metis nth_Cons_0 iovec.select_convs(2))
  have gat: "gathered ?hdr ?w = ?hdr @ []" using t1 hl by (simp add: gathered_def iov_seg_def)
  have "fill_inv one dont N tfsmtu ?hdr rd (wt_ig ?wt) lo P' (tfsmtu - 8) (Some a) ?w"
    by (intro fill_invI [OF sh wok]) (use mtu tot gat fl begun_parts(1) in simp_all)
  then have "fine_inv one dont N tfsmtu ?wt rd (WFill (tfsmtu - 8) (Some a) ?w) lo P'"
    using hdr i(2) by (simp add: fine_inv_def)
  moreover have "wtp_begin one tfsmtu now wt = Inr (None, ?wt, WFill (tfsmtu - 8) (Some a) ?w)"
    using f by (simp add: wtp_begin_def Let_def begun_def)
  moreover have "writer_effect one dont tfsmtu n wt lo P None ?wt lo P'"
    using qs(1) i(6) by (simp add: writer_effect_def queue_of_def)
  moreover have "mset (all_bufs rd (wheld ?wt (WFill (tfsmtu - 8) (Some a) ?w)) (wt_ig ?wt)) =
      mset (all_bufs rd (wheld wt WIdle) (wt_ig wt))" using m1 by simp
  ultimately show ?thesis by blast
qed

text \<open>Nothing to send: an empty packet, or in one-only mode nothing.\<close>

lemma begin_empty:
  assumes inv: "fine_inv one dont N tfsmtu wt rd WIdle lo P" and mtu: "14 < tfsmtu" "tfsmtu \<le> int MAXBUF"
    and f: "wtp_first wt = (None, off, q)" and q: "wt_leftover wt = None" "q = ig_outq (wt_ig wt)" "q_bufs (ig_outq (wt_ig wt)) = []"
  shows "\<exists>pkt wt' ph' lo' P'. wtp_begin one tfsmtu now wt = Inr (pkt, wt', ph') \<and>
    fine_inv one dont N tfsmtu wt' rd ph' lo' P' \<and> writer_effect one dont tfsmtu n wt lo P pkt wt' lo' P' \<and>
    mset (all_bufs rd (wheld wt' ph') (wt_ig wt')) = mset (all_bufs rd (wheld wt WIdle) (wt_ig wt))"
proof -
  let ?wt1 = "begun now None q wt"
  note i = idle_phase [OF inv]
  have lo: "lo = None" using i(5) q(1) by (simp add: lo_of_def)
  have same: "wt_ig ?wt1 = wt_ig wt" "lo_of ?wt1 = lo_of wt" "queue_of ?wt1 = queue_of wt"
    using q(1,2) by (simp_all add: lo_of_def queue_of_def)
  have held: "wheld ?wt1 WIdle = wheld wt WIdle" using q(1) by simp
  show ?thesis
  proof (cases one)
    case True
    have "wtp_begin one tfsmtu now wt = Inr (None, ?wt1, WIdle)" using f True by (simp add: wtp_begin_def begun_def Let_def)
    moreover have "fine_inv one dont N tfsmtu ?wt1 rd WIdle lo []"
      using i same held q(1) by (simp add: fine_inv_def arrays_ok_def)
    moreover have "writer_effect one dont tfsmtu n wt lo P None ?wt1 lo []"
      using i(6) same by (simp add: writer_effect_def)
    ultimately show ?thesis using held same(1) by metis
  next
    case False
    have "8 \<le> tfsmtu" using mtu(1) by simp
    note e = write_empty_clean [OF i(2) this mtu(2), of "wt_seq wt"]
    let ?wt = "?wt1\<lparr>wt_seq := wt_seq wt + 1, wt_ebytes := put32 (wt_ebytes wt) 0 (wt_seq wt)\<rparr>"
    let ?x = "tfs_bytes (wt_seq wt) 0 (replicate (nat tfsmtu - 8) 0)"
    have "wtp_begin one tfsmtu now wt = Inr (Some ?x, ?wt, WIdle)"
      using f False e by (simp add: wtp_begin_def begun_def Let_def)
    moreover have "fine_inv one dont N tfsmtu ?wt rd WIdle lo []"
      using i same q(1) e by (simp add: fine_inv_def arrays_ok_def lo_of_def)
    moreover have "nat (tfsmtu - 8) = nat tfsmtu - 8" using mtu by simp
    then have "writer_effect one dont tfsmtu n wt lo P (Some ?x) ?wt lo []"
      using i(6) same lo False by (simp add: writer_effect_def tx_packet_def wire_def queue_of_def)
    moreover have "mset (all_bufs rd (wheld ?wt WIdle) (wt_ig ?wt)) = mset (all_bufs rd (wheld wt WIdle) (wt_ig wt))"
      using held same(1) by simp
    ultimately show ?thesis by blast
  qed
qed

lemma begin_step:
  assumes inv: "fine_inv one dont N tfsmtu wt rd WIdle lo P" and mtu: "14 < tfsmtu" "tfsmtu \<le> int MAXBUF"
  shows "\<exists>pkt wt' ph' lo' P'. wtp_begin one tfsmtu now wt = Inr (pkt, wt', ph') \<and>
    fine_inv one dont N tfsmtu wt' rd ph' lo' P' \<and> writer_effect one dont tfsmtu n wt lo P pkt wt' lo' P' \<and>
    mset (all_bufs rd (wheld wt' ph') (wt_ig wt')) = mset (all_bufs rd (wheld wt WIdle) (wt_ig wt))"
proof -
  let ?h = "ig_mbufs (wt_ig wt)" and ?q0 = "ig_outq (wt_ig wt)"
  note i = idle_phase [OF inv]
  have bok: "bufs_ok ?h (q_bufs ?q0)" "mqueue_ok ?q0" "mq_size ?q0 = N"
    using i(3) by (auto simp: sh_inv_def all_bufs_def buf_ok_def bufs_ok_def)
  obtain m off q where f: "wtp_first wt = (m, off, q)" by (metis prod_cases3)
  show ?thesis
  proof (cases "wt_leftover wt")
    case (Some a)
    then have fs: "m = Some a" "q = ?q0" "off = word_of_int (MBUF_LEN (?h a))" using f by (simp_all add: wtp_first_def Let_def)
    have "mbuf_wf (?h a)" using i(3) Some by (simp add: sh_inv_def all_bufs_def buf_ok_def)
    then have o: "off = of_nat (length (mbuf_bytes (?h a)))" using fs(3) by (simp add: MBUF_LEN_bytes)
    have "off = of_nat (off_of lo)" using o Some i(5) by (simp add: off_of_def lo_of_def of_nat_mod16 [simplified])
    then show ?thesis
      by (intro begin_fill [OF inv mtu f [unfolded fs(1)], of "[]"])
         (use filling_start(1) i(5) Some fs(2) bok(2,3) in \<open>simp_all add: lo_of_def queue_of_def\<close>)
  next
    case None
    then have pop: "mqueue_trypop ?h ?q0 0 = (m, q)" and off: "off = 0"
      using f by (simp_all add: wtp_first_def Let_def case_prod_unfold prod_eq_iff)
    note t = trypop_next [OF bok(2,1) pop]
    have lo: "lo = None" using i(5) None by (simp add: lo_of_def)
    show ?thesis
    proof (cases m)
      case (Some a)
      with t bok(3) have q: "q_bufs ?q0 = a # q_bufs q" "mqueue_ok q" "mq_size q = N" by auto
      show ?thesis
        by (rule begin_fill [OF inv mtu f [unfolded Some], of "[mbuf_bytes (?h a)]"])
           (use off lo filling_start(2) q None in \<open>simp_all add: off_of_def queue_of_def q_bytes_def\<close>)
    next
      case None2: None
      from t None2 have "q = ?q0" "q_bufs ?q0 = []" by blast+
      from begin_empty [OF inv mtu f [unfolded None2] None this] show ?thesis .
    qed
  qed
qed

lemma fill_phase:
  assumes "fine_inv one dont N tfsmtu wt rd (WFill mtu m w) lo P"
  shows "hdr_clean (wt_hdr wt)" "ebytes_clean (wt_ebytes wt)" "wt_leftover wt = None" "wt_hdr wt = hdr_set (wt_seq wt) lo"
    and "fill_inv one dont N tfsmtu (wt_hdr wt) rd (wt_ig wt) lo P mtu m w"
  using assms unfolding fine_inv_def phase_inv.simps by blast+

text \<open>The rounds of the filling loop as steps: padding, a full packet, a buffer that is split and one that fits.\<close>

lemma iter_step_pad:
  assumes inv: "fine_inv one dont N tfsmtu wt rd (WFill mtu m w) lo P" and pad: "m = None" "0 < mtu"
  shows "\<exists>wt' ph' P'. writer_step one dont tfsmtu now n wt (WFill mtu m w) = Inr (None, wt', ph') \<and>
    fine_inv one dont N tfsmtu wt' rd ph' lo P' \<and> writer_effect one dont tfsmtu n wt lo P None wt' lo P' \<and>
    mset (all_bufs rd (wheld wt' ph') (wt_ig wt')) = mset (all_bufs rd (wheld wt (WFill mtu m w)) (wt_ig wt))"
proof -
  let ?ig = "wt_ig wt" and ?w = "w\<lparr>wp_mbufs := ig_mbufs (wt_ig wt)\<rparr>" and ?hdr = "wt_hdr wt"
  note h = fill_phase [OF inv]
  note fi = h(5)
  have self: "wt\<lparr>wt_ig := ?ig\<lparr>ig_mbufs := ig_mbufs ?ig, ig_outq := ig_outq ?ig\<rparr>\<rparr> = wt" by simp
  from iter_pad [OF fi [unfolded pad(1)] pad(2), of "ig_outq ?ig"] obtain w' where
    w': "wtp_iter one dont mtu None (ig_outq ?ig) ?w = Inr (ig_outq ?ig, w', None)" "wp_mbufs w' = ig_mbufs ?ig"
    "used_bufs w' = used_bufs w" "send_inv one dont N tfsmtu ?hdr rd ?ig lo P w'" by blast
  have "writer_step one dont tfsmtu now n wt (WFill mtu m w) = Inr (None, wt, WSend w')"
    using w'(1,2) pad self by (simp add: writer_step_def Let_def)
  moreover have "fine_inv one dont N tfsmtu wt rd (WSend w') lo P"
    unfolding fine_inv_def phase_inv.simps using h w'(4) by blast
  moreover have "mset (all_bufs rd (wheld wt (WSend w')) ?ig) = mset (all_bufs rd (wheld wt (WFill mtu m w)) ?ig)"
  proof -
    have "length (used_bufs w' @ held_buf (wp_leftover w')) \<le> length (used_bufs w)"
      using w'(1) fi by (auto simp: wtp_iter_def put_iov_def fill_inv_def res_simps pad(1) used_bufs_def split: if_splits)
    then have "wp_leftover w' = None" using w'(3) by (cases "wp_leftover w'") auto
    then show ?thesis using w'(3) pad(1) by simp
  qed
  ultimately show ?thesis by (auto simp: writer_effect_def)
qed

lemma iter_step_full:
  assumes inv: "fine_inv one dont N tfsmtu wt rd (WFill mtu m w) lo P" and full: "m = None" "mtu \<le> 0"
  shows "\<exists>wt' ph' P'. writer_step one dont tfsmtu now n wt (WFill mtu m w) = Inr (None, wt', ph') \<and>
    fine_inv one dont N tfsmtu wt' rd ph' lo P' \<and> writer_effect one dont tfsmtu n wt lo P None wt' lo P' \<and>
    mset (all_bufs rd (wheld wt' ph') (wt_ig wt')) = mset (all_bufs rd (wheld wt (WFill mtu m w)) (wt_ig wt))"
proof -
  let ?ig = "wt_ig wt" and ?w = "w\<lparr>wp_mbufs := ig_mbufs (wt_ig wt)\<rparr>" and ?hdr = "wt_hdr wt"
  note h = fill_phase [OF inv]
  note fi = h(5)
  have self: "wt\<lparr>wt_ig := ?ig\<lparr>ig_mbufs := ig_mbufs ?ig, ig_outq := ig_outq ?ig\<rparr>\<rparr> = wt" by simp
  from fi obtain d where d: "gathered ?hdr ?w = ?hdr @ d" "filling one dont (nat (tfsmtu - 8)) lo P d None 0"
    "sh_inv N rd (used_bufs w) ?ig" "wp_ok N w" "wp_leftover w = None" "iov_total w = tfsmtu"
    using full by (auto simp: fill_inv_def)
  have "send_inv one dont N tfsmtu ?hdr rd ?ig lo P ?w"
    by (intro send_invI [where d = d])
       (use d filling_pad [OF d(2)] in \<open>simp_all add: used_bufs_def wp_ok_def iov_total_def\<close>)
  then have "fine_inv one dont N tfsmtu wt rd (WSend ?w) lo P"
    unfolding fine_inv_def phase_inv.simps using h by blast
  moreover have "writer_step one dont tfsmtu now n wt (WFill mtu m w) = Inr (None, wt, WSend ?w)"
    using full self by (simp add: writer_step_def wtp_iter_def Let_def)
  moreover have "wheld wt (WSend ?w) = wheld wt (WFill mtu m w)" using d(5) full(1) by (simp add: used_bufs_def)
  ultimately show ?thesis by (auto simp: writer_effect_def)
qed

lemma iter_step_split:
  assumes inv: "fine_inv one dont N tfsmtu wt rd (WFill mtu m w) lo P" and split: "m = Some a" "mtu < MBUF_LEN (ig_mbufs (wt_ig wt) a)"
  shows "\<exists>wt' ph' P'. writer_step one dont tfsmtu now n wt (WFill mtu m w) = Inr (None, wt', ph') \<and>
    fine_inv one dont N tfsmtu wt' rd ph' lo P' \<and> writer_effect one dont tfsmtu n wt lo P None wt' lo P' \<and>
    mset (all_bufs rd (wheld wt' ph') (wt_ig wt')) = mset (all_bufs rd (wheld wt (WFill mtu m w)) (wt_ig wt))"
proof -
  let ?ig = "wt_ig wt" and ?w = "w\<lparr>wp_mbufs := ig_mbufs (wt_ig wt)\<rparr>" and ?hdr = "wt_hdr wt"
  note h = fill_phase [OF inv]
  note fi = h(5)
  from iter_split [OF fi [unfolded split(1)] split(2), of "ig_outq ?ig"] obtain w' where
    w': "wtp_iter one dont mtu (Some a) (ig_outq ?ig) ?w = Inr (ig_outq ?ig, w', None)" "wp_leftover w' = Some a"
    "used_bufs w' = used_bufs w"
    "wp_mbufs w' = (ig_mbufs ?ig)(a := ig_mbufs ?ig a\<lparr>mb_start := mb_start (ig_mbufs ?ig a) + nat mtu\<rparr>)"
    "send_inv one dont N tfsmtu ?hdr rd (?ig\<lparr>ig_mbufs := wp_mbufs w'\<rparr>) lo P w'" by blast
  let ?wt = "wt\<lparr>wt_ig := ?ig\<lparr>ig_mbufs := wp_mbufs w'\<rparr>\<rparr>"
  have "writer_step one dont tfsmtu now n wt (WFill mtu m w) = Inr (None, ?wt, WSend w')"
    using w'(1) split(1) by (simp add: writer_step_def Let_def)
  moreover have "fine_inv one dont N tfsmtu ?wt rd (WSend w') lo P"
    unfolding fine_inv_def phase_inv.simps using h w'(5) by simp
  moreover have held: "wheld ?wt (WSend w') = wheld wt (WFill mtu m w)" using w'(2,3) split(1) by simp
  then have "mset (all_bufs rd (wheld ?wt (WSend w')) (wt_ig ?wt)) = mset (all_bufs rd (wheld wt (WFill mtu m w)) ?ig)"
    by (simp add: all_bufs_def)
  moreover have "queue_of ?wt = queue_of wt"
  proof -
    have "a \<notin> set (q_bufs (ig_outq ?ig))" using fi split(1) by (auto simp: fill_inv_def sh_inv_def all_bufs_def)
    then show ?thesis by (auto simp: queue_of_def q_bytes_def w'(4))
  qed
  ultimately show ?thesis by (auto simp: writer_effect_def)
qed

lemma iter_step_whole:
  assumes inv: "fine_inv one dont N tfsmtu wt rd (WFill mtu m w) lo P" and whole: "m = Some a" "MBUF_LEN (ig_mbufs (wt_ig wt) a) \<le> mtu"
  shows "\<exists>wt' ph' P'. writer_step one dont tfsmtu now n wt (WFill mtu m w) = Inr (None, wt', ph') \<and>
    fine_inv one dont N tfsmtu wt' rd ph' lo P' \<and> writer_effect one dont tfsmtu n wt lo P None wt' lo P' \<and>
    mset (all_bufs rd (wheld wt' ph') (wt_ig wt')) = mset (all_bufs rd (wheld wt (WFill mtu m w)) (wt_ig wt))"
proof -
  let ?ig = "wt_ig wt" and ?w = "w\<lparr>wp_mbufs := ig_mbufs (wt_ig wt)\<rparr>" and ?hdr = "wt_hdr wt"
  note h = fill_phase [OF inv]
  note fi = h(5)
  from iter_whole [OF fi [unfolded whole(1)] whole(2)] obtain q w' mtu' m' P' where
    w': "wtp_iter one dont mtu (Some a) (ig_outq ?ig) ?w = Inr (q, w', Some (mtu', m'))" "wp_mbufs w' = ig_mbufs ?ig"
    "fill_inv one dont N tfsmtu ?hdr rd (?ig\<lparr>ig_outq := q\<rparr>) lo P' mtu' m' w'"
    "mset (all_bufs rd (used_bufs w' @ held_buf m') (?ig\<lparr>ig_outq := q\<rparr>)) = mset (all_bufs rd (used_bufs w @ [a]) ?ig)"
    "P' @ q_bytes (ig_mbufs ?ig) q = P @ q_bytes (ig_mbufs ?ig) (ig_outq ?ig)" by blast
  let ?wt = "wt\<lparr>wt_ig := ?ig\<lparr>ig_outq := q\<rparr>\<rparr>"
  have "writer_step one dont tfsmtu now n wt (WFill mtu m w) = Inr (None, ?wt, WFill mtu' m' w')"
    using w'(1,2) whole(1) by (simp add: writer_step_def Let_def)
  moreover have "fine_inv one dont N tfsmtu ?wt rd (WFill mtu' m' w') lo P'"
    unfolding fine_inv_def phase_inv.simps using h w'(3) by simp
  moreover have "mset (all_bufs rd (wheld ?wt (WFill mtu' m' w')) (wt_ig ?wt)) = mset (all_bufs rd (wheld wt (WFill mtu m w)) ?ig)"
    using w'(4) whole(1) by simp
  moreover have "writer_effect one dont tfsmtu n wt lo P None ?wt lo P'"
    using w'(5) by (simp add: writer_effect_def queue_of_def)
  ultimately show ?thesis by blast
qed

lemma iter_step:
  assumes inv: "fine_inv one dont N tfsmtu wt rd (WFill mtu m w) lo P"
  shows "\<exists>wt' ph' P'. writer_step one dont tfsmtu now n wt (WFill mtu m w) = Inr (None, wt', ph') \<and>
    fine_inv one dont N tfsmtu wt' rd ph' lo P' \<and> writer_effect one dont tfsmtu n wt lo P None wt' lo P' \<and>
    mset (all_bufs rd (wheld wt' ph') (wt_ig wt')) = mset (all_bufs rd (wheld wt (WFill mtu m w)) (wt_ig wt))"
proof -
  consider "m = None" "0 < mtu" | "m = None" "mtu \<le> 0" | a where "m = Some a" "mtu < MBUF_LEN (ig_mbufs (wt_ig wt) a)"
    | a where "m = Some a" "MBUF_LEN (ig_mbufs (wt_ig wt) a) \<le> mtu" by fastforce
  then show ?thesis
    by cases (rule iter_step_pad [OF inv] iter_step_full [OF inv] iter_step_split [OF inv] iter_step_whole [OF inv]; assumption)+
qed

text \<open>
  Together: a step of the writer waits in one-only mode for a packet, and otherwise returns, keeps the
  invariant and is what the specification says.
\<close>

lemma writer_step_ok:
  assumes inv: "fine_inv one dont N tfsmtu wt rd ph lo P" and mtu: "14 < tfsmtu" "tfsmtu \<le> int MAXBUF"
  shows "if one \<and> ph = WIdle \<and> queue_of wt = [] then writer_step one dont tfsmtu now n wt ph = Inl Blocked
    else \<exists>pkt wt' ph' lo' P'. writer_step one dont tfsmtu now n wt ph = Inr (pkt, wt', ph') \<and>
      fine_inv one dont N tfsmtu wt' rd ph' lo' P' \<and> writer_effect one dont tfsmtu n wt lo P pkt wt' lo' P' \<and>
      mset (all_bufs rd (wheld wt' ph') (wt_ig wt')) = mset (all_bufs rd (wheld wt ph) (wt_ig wt))"
proof (cases ph)
  case WIdle
  have "mqueue_ok (ig_outq (wt_ig wt))" using fine_inv_shared [OF inv] by (simp add: sh_inv_def)
  then have "mqueue_wait (ig_outq (wt_ig wt)) = (if queue_of wt = [] then Inl Blocked else Inr ())"
    by (auto simp: mqueue_wait_def queue_of_def q_bytes_def q_bufs_def mqueue_abs_defs requireE_def)
  then have w: "writer_step one dont tfsmtu now n wt ph =
      (if one \<and> queue_of wt = [] then Inl Blocked else wtp_begin one tfsmtu now wt)"
    using WIdle by (simp add: writer_step_def Let_def)
  show ?thesis
  proof (cases "one \<and> queue_of wt = []")
    case True
    with w WIdle show ?thesis by simp
  next
    case False
    with begin_step [OF inv [unfolded WIdle] mtu, of now n] w WIdle show ?thesis by (simp only: if_False simp_thms)
  qed
next
  case (WFill mtu m w)
  with iter_step [OF inv [unfolded WFill]] show ?thesis by (simp, blast)
next
  case (WSend w)
  with send_step [OF inv [unfolded WSend]] show ?thesis by (simp, blast)
next
  case (WFree as)
  with free_step [OF inv [unfolded WFree]] show ?thesis by (simp, blast)
qed

end
