(* ===== verification/IngressProps.thy ===== *)
theory IngressProps
  imports IngressRun
begin

text \<open>
  The properties of the sending side: a turn of the writer is a step of the framing specification,
  no buffer is lost by whole runs, and the two ways in which buffers or packets are lost after all.
\<close>

section \<open>Correctness\<close>

text \<open>C2: one call of \<open>write_tfs_pkt\<close> sends exactly the packet of the framing specification: its
  sequence number, offset and payload are those of \<open>tx_packet\<close> for the bytes left over and the
  queued inner packets, it returns without overrunning its arrays, and the rest and the queue afterwards are the
  specification's (a short write drops the rest); every buffer is in one of the queues again.\<close>

theorem write_tfs_pkt_refines_framing:
  assumes "wt_inv N wt" "14 < tfsmtu" "tfsmtu \<le> int MAXBUF"
    and "tx_packet oneonly dontfrag (nat (tfsmtu - 8)) (lo_of wt) (queue_of wt) = (pkt, lo, Q)"
  shows "\<exists>wt'. write_tfs_pkt oneonly dontfrag tfsmtu now n wt =
      Inr (map_option (\<lambda>(off, d). tfs_bytes (wt_seq wt) (of_nat off) d) pkt, wt') \<and>
    wt_inv N wt' \<and> wt_seq wt' = (if pkt = None then wt_seq wt else wt_seq wt + 1) \<and> bufs_of wt' = bufs_of wt \<and>
    lo_of wt' = (if n = tfsmtu then lo else None) \<and> queue_of wt' = Q"
proof -
  have "tx_wire (wt_seq wt) = (\<lambda>(off, d). tfs_bytes (wt_seq wt) (of_nat off) d)"
    by (auto simp: tx_wire_def wire_def)
  with write_tfs_pkt_tx [OF assms(1-3) assms(4) [unfolded lo_of_def queue_of_def]] show ?thesis
    by (auto simp: lo_of_def queue_of_def bufs_of_def)
qed

theorem write_tfs_pkt_refines_framing_witness:
  "\<exists>wt'. write_tfs_pkt False False 40 (Timespec 1 500) 40 ingress_demo =
     Inr (Some (tfs_bytes 1 0 (replicate 32 0)), wt') \<and> wt_seq wt' = 2 \<and> wt_inv INNERQSZ wt'"
proof -
  have "tx_packet False False (nat (40 - 8)) (lo_of ingress_demo) (queue_of ingress_demo) = (Some (0, replicate 32 0), None, [])"
    by (simp add: ingress_demo_start tx_packet_def)
  from write_tfs_pkt_refines_framing [OF ingress_demo_start(1) _ _ this, of "Timespec 1 500" 40] show ?thesis
    by (auto simp: ingress_demo_start const_defs)
qed

text \<open>The sending side keeps its buffers. From set-up on, whatever is read from the interface and in
  whatever order the two threads take their turns, the queues stay well formed and hold no buffer
  twice; and as long as no read returns zero bytes, all \<open>INNERQSZ\<close> buffers stay in them.\<close>

theorem ingress_run_keeps_buffers:
  assumes "ig_memory raw space slots oslots iovecs freem" "14 < tfsmtu" "tfsmtu \<le> int MAXBUF"
    and "ingress_run oneonly dontfrag tfsmtu
      (write_tfs_start now iovecs freem (tfs_tunnel_ingress raw space slots oslots hs)) es ds wt'"
  shows "wt_inv INNERQSZ wt' \<and> bufs_of wt' \<subseteq> {..<INNERQSZ} \<and>
    (ReadIntf (ReadPkt []) \<notin> set es \<longrightarrow> bufs_of wt' = {..<INNERQSZ})"
  using ingress_run_inv [OF assms(4) start_ingress(1) [OF assms(1)] assms(2,3)]
  by (simp add: start_ingress(4) [OF assms(1)])

theorem ingress_run_keeps_buffers_witness:
  "\<exists>wt'. ingress_run False False 40 ingress_demo [ReadIntf (ReadPkt demo_inner), WriteTfs (Timespec 1 500) 40]
     [wire (1, 0, demo_inner @ replicate 25 0)] wt' \<and> bufs_of wt' = {..<INNERQSZ}"
proof -
  from ingress_demo_run obtain wt' where
    "ingress_run False False 40 ingress_demo [ReadIntf (ReadPkt demo_inner), WriteTfs (Timespec 1 500) 40]
       [wire (1, 0, demo_inner @ replicate 25 0)] wt'" by blast
  with ingress_run_keeps_buffers [OF demo_memory _ _ this [unfolded ingress_demo_def]] show ?thesis
    by (auto simp: const_defs demo_inner_def)
qed

section \<open>Losses\<close>

lemma zero_read:
  assumes "wt_inv N wt" "mqueue_contents (ig_freeq (wt_ig wt)) = cs @ [a]"
  shows "\<exists>wt'. ingress_step oneonly dontfrag tfsmtu wt (ReadIntf (ReadPkt [])) [] wt' \<and> wt_inv N wt' \<and>
    mqueue_contents (ig_freeq (wt_ig wt')) = cs \<and> bufs_of wt' = bufs_of wt - {a}"
proof -
  have ig: "ig_inv N (wt_leftover wt) (wt_ig wt)" and ne: "mqueue_contents (ig_freeq (wt_ig wt)) \<noteq> []"
    using assms by (simp_all add: wt_inv_def)
  from free_pop [OF ig ne] assms(2) obtain fq where fq: "mqueue_pop (ig_freeq (wt_ig wt)) = Inr (a, fq)"
    "mqueue_contents fq = cs" "ig_inv N (wt_leftover wt) ((wt_ig wt)\<lparr>ig_freeq := fq\<rparr>)" by force
  then have "read_intf_step (ReadPkt []) (wt_ig wt) = Inr ((wt_ig wt)\<lparr>ig_freeq := fq\<rparr>)"
    by (simp add: read_intf_step_def)
  from ingress_step.rd [OF this] have
    "ingress_step oneonly dontfrag tfsmtu wt (ReadIntf (ReadPkt [])) [] (wt\<lparr>wt_ig := (wt_ig wt)\<lparr>ig_freeq := fq\<rparr>\<rparr>)" .
  moreover have "distinct (ig_bufs (wt_leftover wt) (wt_ig wt))" using ig by (simp add: ig_inv_def)
  then have "bufs_of (wt\<lparr>wt_ig := (wt_ig wt)\<lparr>ig_freeq := fq\<rparr>\<rparr>) = bufs_of wt - {a}"
    using assms(2) fq(2) by (auto simp: bufs_of_def ig_bufs_def)
  ultimately show ?thesis using fq assms(1) by (intro exI conjI) (auto simp: wt_inv_def)
qed

lemma zero_reads:
  assumes "wt_inv N wt" "mqueue_contents (ig_freeq (wt_ig wt)) = cs"
  shows "\<exists>wt'. ingress_run oneonly dontfrag tfsmtu wt (replicate (length cs) (ReadIntf (ReadPkt []))) [] wt' \<and>
    wt_inv N wt' \<and> bufs_of wt' = bufs_of wt - set cs"
  using assms
proof (induction cs arbitrary: wt rule: rev_induct)
  case Nil
  then show ?case using ig_done by fastforce
next
  case (snoc a cs)
  from zero_read [OF snoc.prems] obtain wt1 where 1:
    "ingress_step oneonly dontfrag tfsmtu wt (ReadIntf (ReadPkt [])) [] wt1" "wt_inv N wt1"
    "mqueue_contents (ig_freeq (wt_ig wt1)) = cs" "bufs_of wt1 = bufs_of wt - {a}" by blast
  from snoc.IH [OF 1(2,3)] obtain wt2 where 2:
    "ingress_run oneonly dontfrag tfsmtu wt1 (replicate (length cs) (ReadIntf (ReadPkt []))) [] wt2"
    "wt_inv N wt2" "bufs_of wt2 = bufs_of wt1 - set cs" by blast
  from ig_step [OF 1(1) 2(1)] 1(4) 2(2,3) show ?case by auto
qed

text \<open>C23: reads of zero bytes starve the sending side. After \<open>INNERQSZ\<close> of them the reader waits for a
  buffer for ever: in every state reached from there, whatever the writer does, the next turn
  of the reader blocks.\<close>

theorem zero_reads_starve_reader:
  assumes "ig_memory raw space slots oslots iovecs freem" "14 < tfsmtu" "tfsmtu \<le> int MAXBUF"
  shows "\<exists>wt'. ingress_run oneonly dontfrag tfsmtu
      (write_tfs_start now iovecs freem (tfs_tunnel_ingress raw space slots oslots hs))
      (replicate INNERQSZ (ReadIntf (ReadPkt []))) [] wt' \<and>
    (\<forall>es ds wt'' r. ingress_run oneonly dontfrag tfsmtu wt' es ds wt'' \<longrightarrow> read_intf_step r (wt_ig wt'') = Inl Blocked)"
proof -
  note st = start_ingress [OF assms(1), where now = now and hs = hs]
  from zero_reads [OF st(1,7), of oneonly dontfrag tfsmtu] st(4) obtain wt' where w: "ingress_run oneonly dontfrag tfsmtu
      (write_tfs_start now iovecs freem (tfs_tunnel_ingress raw space slots oslots hs))
      (replicate INNERQSZ (ReadIntf (ReadPkt []))) [] wt'" "wt_inv INNERQSZ wt'" "bufs_of wt' = {}"
    by (auto simp: atLeast0LessThan)
  have "read_intf_step r (wt_ig wt'') = Inl Blocked" if "ingress_run oneonly dontfrag tfsmtu wt' es ds wt''" for es ds wt'' r
  proof -
    from ingress_run_inv [OF that w(2) assms(2,3)] w(3) have "wt_inv INNERQSZ wt''" "bufs_of wt'' = {}" by auto
    then have "mqueue_pop (ig_freeq (wt_ig wt'')) = Inl Blocked"
      using mqs.pop_empty [of "ig_freeq (wt_ig wt'')"] by (auto simp: wt_inv_def ig_inv_def bufs_of_def ig_bufs_def)
    then show ?thesis by (simp add: read_intf_step_def)
  qed
  with w(1) show ?thesis by blast
qed

theorem zero_reads_starve_reader_witness:
  "\<exists>wt'. ingress_run False False 1500 ingress_demo (replicate INNERQSZ (ReadIntf (ReadPkt []))) [] wt' \<and>
     read_intf_step (ReadPkt demo_inner) (wt_ig wt') = Inl Blocked"
  using zero_reads_starve_reader [OF demo_memory, of 1500 False False "Timespec 1 0" 0, folded ingress_demo_def] ig_done
  by (fastforce simp: const_defs)

text \<open>C24: with a tunnel MTU of 9 to 14 bytes no inner packet is ever carried, and each one taken is lost with
  its buffer: the writer sends padding only, the packet is gone from the queue, and its buffer
  is in no queue any more.\<close>

theorem tiny_mtu_loses_packets:
  assumes "wt_inv N wt" "8 < tfsmtu" "tfsmtu \<le> 14" "wt_leftover wt = None" "queue_of wt = p # ps"
  shows "\<exists>wt'. write_tfs_pkt oneonly dontfrag tfsmtu now tfsmtu wt =
      Inr (Some (tfs_bytes (wt_seq wt) 0 (replicate (nat (tfsmtu - 8)) 0)), wt') \<and>
    queue_of wt' = ps \<and> lo_of wt' = None \<and> card (bufs_of wt') + 1 = card (bufs_of wt)"
proof -
  let ?h = "ig_mbufs (wt_ig wt)" and ?fq = "ig_freeq (wt_ig wt)" and ?q0 = "ig_outq (wt_ig wt)"
  have ig: "ig_inv N None (wt_ig wt)" and hc: "hdr_clean (wt_hdr wt)" using assms(1,4) by (simp_all add: wt_inv_def)
  have all: "ig_bufs None (wt_ig wt) = mqueue_contents ?fq @ q_bufs ?q0" by (simp add: ig_bufs_def)
  have bok: "bufs_ok ?h (q_bufs ?q0)" "mqueue_ok ?q0" "mq_size ?q0 = N"
    using ig by (auto simp: ig_inv_def all bufs_ok_def)
  obtain m q where pop: "mqueue_trypop ?h ?q0 0 = (m, q)" by fastforce
  have ne: "q_bufs ?q0 \<noteq> []" using assms(5) by (auto simp: queue_of_def q_bytes_def)
  note t = trypop_next [OF bok(2,1) pop]
  from t ne have "m \<noteq> None" by blast
  then obtain a where m: "m = Some a" by blast
  from t m bok(3) have a: "m = Some a" "q_bufs ?q0 = a # q_bufs q" "mqueue_ok q" "mq_size q = N" by auto
  let ?w = "\<lparr>wp_mbufs = ?h, wp_iovecs = wt_iovecs wt, wp_niov = 1, wp_freem = wt_freem wt, wp_nfree = 0, wp_leftover = None\<rparr>"
  let ?hdr = "put16 (put32 (wt_hdr wt) 0 (wt_seq wt)) 6 (ucast (0 :: u16))"
  let ?wt1 = "(wtp_count now False (wt\<lparr>wt_leftover := None, wt_ig := (wt_ig wt)\<lparr>ig_outq := q\<rparr>\<rparr>))\<lparr>wt_hdr := ?hdr\<rparr>"
  have len: "length (q_bufs q) + 1 \<le> N" using ig a(2) by (simp add: ig_inv_def all)
  have "wtp_room None q ?w" "bufs_ok ?h (q_bufs q)" using len assms(1) bok(1) a(2) by (simp_all add: wtp_room_def wt_inv_def bufs_ok_def)
  from wtp_pad_tx [OF this(1) refl _ _ a(3), of "tfsmtu - 8" ?hdr] this(2) assms(2) obtain w' where
    w': "put_iov PPad (tfsmtu - 8) ?w = Inr w'" "gathered ?hdr w' = gathered ?hdr ?w @ replicate (nat (tfsmtu - 8)) 0"
      "iov_total w' = iov_total ?w + (tfsmtu - 8)" "wp_leftover w' = None" "wp_mbufs w' = ?h" "wtp_moved None q ?w q w'" by auto
  have loop: "wtp_loop oneonly dontfrag (tfsmtu - 8) (Some a) q ?w = Inr (q, w')"
    using assms(2,3) w'(1) by (simp add: wtp_loop.simps)
  have iov: "wt_iovecs wt = \<lparr>iov_base = PHdr, iov_len = 8\<rparr> # tl (wt_iovecs wt)"
    using assms(1) by (cases "wt_iovecs wt", auto simp: wt_inv_def)
  have tot: "iov_total w' = tfsmtu" using w'(3) assms(1) by (simp add: iov_total_def wt_inv_def)
  have hl: "length ?hdr = 8" using hdr_bytes(2) [OF hc, of "wt_seq wt" 0] by (simp add: hdr_clean_def)
  have gat: "gathered ?hdr ?w = ?hdr"
  proof -
    have "take (Suc 0) (wt_iovecs wt) = [\<lparr>iov_base = PHdr, iov_len = 8\<rparr>]" by (subst iov) simp
    moreover have "take 8 ?hdr = ?hdr" using hl by simp
    ultimately show ?thesis by (simp add: gathered_def iov_seg_def)
  qed
  have used: "used_bufs w' = []" using w'(4,6) by (auto simp: wtp_moved_def used_bufs_def)
  then have sent: "sent_bufs ?fq q w' = mqueue_contents ?fq @ q_bufs q" using w'(4) by (simp add: sent_bufs_def)
  have "send_ready N ?fq q w'"
    unfolding send_ready_def sent using ig a(2-4) w'(4-6) by (auto simp: ig_inv_def all wtp_moved_def)
  from wtp_send_tx [of N ?wt1 q w' tfsmtu tfsmtu] this tot obtain wt' where
    wt': "wtp_send tfsmtu tfsmtu ?wt1 q w' = Inr (Some (gathered ?hdr w'), wt')" "wt_leftover wt' = None"
      "set (ig_bufs (wt_leftover wt') (wt_ig wt')) = set (sent_bufs ?fq q w')"
      "q_bytes (ig_mbufs (wt_ig wt')) (ig_outq (wt_ig wt')) = q_bytes ?h q" using w'(4,5) by auto
  have "write_tfs_pkt oneonly dontfrag tfsmtu now tfsmtu wt = Inr (Some (gathered ?hdr w'), wt')"
    using assms(4) pop a(1) loop wt'(1) by (simp add: write_tfs_pkt_def wtp_first_def Let_def)
  moreover have "gathered ?hdr w' = tfs_bytes (wt_seq wt) 0 (replicate (nat (tfsmtu - 8)) 0)"
    using w'(2) gat hdr_bytes(1) [OF hc, of "wt_seq wt" 0] by (simp add: tfs_bytes_def)
  moreover have "queue_of wt' = ps"
    using wt'(4) assms(5) a(2) by (simp add: queue_of_def q_bytes_def)
  moreover have "bufs_of wt = insert a (bufs_of wt')" "a \<notin> bufs_of wt'"
    using wt'(3) sent a(2) assms(4) ig by (auto simp: bufs_of_def all ig_inv_def)
  moreover have "finite (bufs_of wt')" by (simp add: bufs_of_def)
  ultimately show ?thesis using wt'(2) by (intro exI [of _ wt']) (simp add: lo_of_def)
qed

theorem tiny_mtu_loses_packets_witness:
  "\<exists>ig wt'. read_intf_step (ReadPkt demo_inner) (wt_ig ingress_demo) = Inr ig \<and>
     write_tfs_pkt False False 14 (Timespec 1 500) 14 (ingress_demo\<lparr>wt_ig := ig\<rparr>) =
       Inr (Some (tfs_bytes 1 0 (replicate 6 0)), wt') \<and> queue_of wt' = []"
proof -
  note st = ingress_demo_start
  have ig: "ig_inv INNERQSZ None (wt_ig ingress_demo)" using st(1,6) by (simp add: wt_inv_def)
  from read_intf_sys [OF ig, of "ReadPkt demo_inner"] st(7) obtain ig where
    rd: "read_intf_step (ReadPkt demo_inner) (wt_ig ingress_demo) = Inr ig" by (auto simp: INNERQSZ_def)
  have "packet_of (ReadPkt demo_inner) = [demo_inner]" by (simp add: demo_inner_def room_for_def const_defs)
  with read_intf_step_sys [OF st(1) rd] st have "wt_inv INNERQSZ (ingress_demo\<lparr>wt_ig := ig\<rparr>)"
    "queue_of (ingress_demo\<lparr>wt_ig := ig\<rparr>) = [demo_inner]" by simp_all
  from tiny_mtu_loses_packets [OF this(1) _ _ _ this(2), of 14 False False "Timespec 1 500"] rd st(5,6) show ?thesis
    by auto
qed

end
