(* ===== verification/InterleaveProps.thy ===== *)
theory InterleaveProps
  imports InterleaveInv IngressProps
begin

text \<open>
  The properties of the interleaved runs of the sending side: they keep every buffer
  in one place, and send what the framing specification makes of the packets read.
\<close>

section \<open>Every step keeps the invariant\<close>

text \<open>The reader does not touch what the writer holds.\<close>

lemma fine_inv_frame:
  assumes "fine_inv one dont N tfsmtu wt rd ph lo P" "sh_inv N rd' (wheld wt ph) ig'"
    and "\<And>b. b \<in> set (wheld wt ph) \<Longrightarrow> ig_mbufs ig' b = ig_mbufs (wt_ig wt) b"
  shows "fine_inv one dont N tfsmtu (wt\<lparr>wt_ig := ig'\<rparr>) rd' ph lo P"
proof -
  have g: "gathered hdr (w\<lparr>wp_mbufs := ig_mbufs ig'\<rparr>) = gathered hdr (w\<lparr>wp_mbufs := ig_mbufs (wt_ig wt)\<rparr>)"
    if "wp_ok N w" "set (used_bufs w @ held_buf (wp_leftover w)) \<subseteq> set (wheld wt ph)" for w hdr
    using that assms(3) by (intro gathered_cong [of w "set (used_bufs w @ held_buf (wp_leftover w))"]) (auto simp: wp_ok_def)
  have b: "buf_bytes (ig_mbufs ig') m = buf_bytes (ig_mbufs (wt_ig wt)) m" if "set (held_buf m) \<subseteq> set (wheld wt ph)" for m
    using that assms(3) by (cases m) auto
  show ?thesis
  proof (cases ph)
    case WIdle
    with assms(1,2) b [of "wt_leftover wt"] show ?thesis by (simp add: fine_inv_def arrays_ok_def lo_of_def)
  next
    case (WFree as)
    with assms(1,2) b [of "wt_leftover wt"] show ?thesis by (simp add: fine_inv_def arrays_ok_def lo_of_def)
  next
    case (WSend w)
    with assms(1) have si: "send_inv one dont N tfsmtu (wt_hdr wt) rd (wt_ig wt) lo P w" and ok: "wp_ok N w"
      by (auto simp: fine_inv_def send_inv_def)
    have "gathered (wt_hdr wt) (w\<lparr>wp_mbufs := ig_mbufs ig'\<rparr>) = gathered (wt_hdr wt) (w\<lparr>wp_mbufs := ig_mbufs (wt_ig wt)\<rparr>)"
      by (rule g [OF ok]) (simp add: WSend)
    moreover have "buf_bytes (ig_mbufs ig') (wp_leftover w) = buf_bytes (ig_mbufs (wt_ig wt)) (wp_leftover w)"
      by (rule b) (simp add: WSend)
    ultimately have "send_inv one dont N tfsmtu (wt_hdr wt) rd' ig' lo P w"
      using si assms(2) WSend by (simp add: send_inv_def)
    with assms(1) WSend show ?thesis unfolding fine_inv_def WSend phase_inv.simps by simp
  next
    case (WFill mtu m w)
    with assms(1) have fi: "fill_inv one dont N tfsmtu (wt_hdr wt) rd (wt_ig wt) lo P mtu m w" and ok: "wp_ok N w" "wp_leftover w = None"
      by (auto simp: fine_inv_def fill_inv_def)
    have "gathered (wt_hdr wt) (w\<lparr>wp_mbufs := ig_mbufs ig'\<rparr>) = gathered (wt_hdr wt) (w\<lparr>wp_mbufs := ig_mbufs (wt_ig wt)\<rparr>)"
      by (rule g [OF ok(1)]) (simp add: WFill ok(2))
    moreover have "buf_bytes (ig_mbufs ig') m = buf_bytes (ig_mbufs (wt_ig wt)) m" by (rule b) (simp add: WFill)
    ultimately have "fill_inv one dont N tfsmtu (wt_hdr wt) rd' ig' lo P mtu m w"
      using fi assms(2) WFill by (simp add: fill_inv_def)
    with assms(1) WFill show ?thesis unfolding fine_inv_def WFill phase_inv.simps by simp
  qed
qed

abbreviation inv_at :: "bool \<Rightarrow> bool \<Rightarrow> nat \<Rightarrow> int \<Rightarrow> fine \<Rightarrow> bytes option \<Rightarrow> bytes list \<Rightarrow> bool" where
  "inv_at one dont N tfsmtu s lo P \<equiv> fine_inv one dont N tfsmtu (fi_wt s) (fi_reader s) (fi_writer s) lo P"

definition bufs_in :: "fine \<Rightarrow> nat list" where
  "bufs_in s = all_bufs (fi_reader s) (wheld (fi_wt s) (fi_writer s)) (wt_ig (fi_wt s))"

definition fine_queue :: "fine \<Rightarrow> bytes list" where
  "fine_queue s = queue_of (fi_wt s)"

lemma pop_step_ok:
  assumes "fine_step one dont tfsmtu s FPop ds s'" "inv_at one dont N tfsmtu s lo P"
  shows "inv_at one dont N tfsmtu s' lo P \<and> ds = [] \<and> fine_queue s' = fine_queue s \<and>
    wt_seq (fi_wt s') = wt_seq (fi_wt s) \<and> set (bufs_in s') = set (bufs_in s)"
  using assms(1)
proof cases
  case (f_pop a fq)
  let ?ig = "(wt_ig (fi_wt s))\<lparr>ig_freeq := fq\<rparr>"
  have "sh_inv N None (wheld (fi_wt s) (fi_writer s)) (wt_ig (fi_wt s))" using fine_inv_shared [OF assms(2)] f_pop(3) by simp
  from pop_step [OF this f_pop(4)] have p: "sh_inv N (Some a) (wheld (fi_wt s) (fi_writer s)) ?ig"
    "set (all_bufs (Some a) (wheld (fi_wt s) (fi_writer s)) ?ig) = set (all_bufs None (wheld (fi_wt s) (fi_writer s)) (wt_ig (fi_wt s)))"
    by blast+
  have "wheld ((fi_wt s)\<lparr>wt_ig := ?ig\<rparr>) (fi_writer s) = wheld (fi_wt s) (fi_writer s)" by (cases "fi_writer s") simp_all
  with fine_inv_frame [OF assms(2) p(1)] p(2) f_pop show ?thesis by (simp add: fine_queue_def queue_of_def bufs_in_def)
qed

lemma read_step_ok:
  assumes "fine_step one dont tfsmtu s (FRead r) ds s'" "inv_at one dont N tfsmtu s lo P"
  shows "inv_at one dont N tfsmtu s' lo P \<and> ds = [] \<and> fine_queue s' = packet_of r @ fine_queue s \<and>
    wt_seq (fi_wt s') = wt_seq (fi_wt s) \<and> set (bufs_in s') \<subseteq> set (bufs_in s) \<and>
    (r \<noteq> ReadPkt [] \<longrightarrow> set (bufs_in s') = set (bufs_in s))"
  using assms(1)
proof cases
  case (f_read a ig)
  let ?held = "wheld (fi_wt s) (fi_writer s)"
  have sh: "sh_inv N (Some a) ?held (wt_ig (fi_wt s))" using fine_inv_shared [OF assms(2)] f_read(3) by simp
  from read_step [OF sh, of r] f_read(4) have
    r: "sh_inv N None ?held ig" "q_bytes (ig_mbufs ig) (ig_outq ig) = packet_of r @ fine_queue s"
      "\<And>b. b \<noteq> a \<Longrightarrow> ig_mbufs ig b = ig_mbufs (wt_ig (fi_wt s)) b"
      "set (all_bufs None ?held ig) \<subseteq> set (all_bufs (Some a) ?held (wt_ig (fi_wt s)))"
      "r \<noteq> ReadPkt [] \<longrightarrow> set (all_bufs None ?held ig) = set (all_bufs (Some a) ?held (wt_ig (fi_wt s)))"
    by (auto simp: fine_queue_def queue_of_def)
  have "a \<notin> set ?held" using sh by (auto simp: sh_inv_def all_bufs_def)
  then have "fine_inv one dont N tfsmtu ((fi_wt s)\<lparr>wt_ig := ig\<rparr>) None (fi_writer s) lo P"
    by (intro fine_inv_frame [OF assms(2) r(1)] r(3)) auto
  moreover have "wheld ((fi_wt s)\<lparr>wt_ig := ig\<rparr>) (fi_writer s) = ?held" by (cases "fi_writer s") simp_all
  ultimately show ?thesis using f_read r(2,4,5) by (simp add: fine_queue_def queue_of_def bufs_in_def)
qed

lemma write_step_ok:
  assumes "fine_step one dont tfsmtu s (FWrite now n) ds s'" "inv_at one dont N tfsmtu s lo P" "14 < tfsmtu" "tfsmtu \<le> int MAXBUF"
  shows "\<exists>pkt lo' P'. ds = emitted pkt \<and> inv_at one dont N tfsmtu s' lo' P' \<and> set (bufs_in s') = set (bufs_in s) \<and>
    writer_effect one dont tfsmtu n (fi_wt s) lo P pkt (fi_wt s') lo' P'"
  using assms(1)
proof cases
  case (f_write pkt wt ph)
  from writer_step_ok [OF assms(2-4), of now n] f_write(3) obtain lo' P' where
    "fine_inv one dont N tfsmtu wt (fi_reader s) ph lo' P'" "writer_effect one dont tfsmtu n (fi_wt s) lo P pkt wt lo' P'"
    "mset (all_bufs (fi_reader s) (wheld wt ph) (wt_ig wt)) = mset (bufs_in s)"
    by (auto simp: bufs_in_def split: if_splits)
  with f_write show ?thesis by (intro exI [of _ pkt] exI [of _ lo'] exI [of _ P']) (auto simp: bufs_in_def dest: mset_eq_setD)
qed

lemma fine_run_inv:
  assumes "fine_run one dont tfsmtu s es ds s'" "inv_at one dont N tfsmtu s lo P" "14 < tfsmtu" "tfsmtu \<le> int MAXBUF"
  shows "(\<exists>lo' P'. inv_at one dont N tfsmtu s' lo' P') \<and> set (bufs_in s') \<subseteq> set (bufs_in s) \<and>
    (FRead (ReadPkt []) \<notin> set es \<longrightarrow> set (bufs_in s') = set (bufs_in s))"
  using assms
proof (induction arbitrary: lo P rule: fine_run.induct)
  case (f_done s)
  then show ?case by blast
next
  case (f_more s e ds s1 es ds' s2)
  have "\<exists>lo' P'. inv_at one dont N tfsmtu s1 lo' P' \<and> set (bufs_in s1) \<subseteq> set (bufs_in s) \<and>
      (e \<noteq> FRead (ReadPkt []) \<longrightarrow> set (bufs_in s1) = set (bufs_in s))"
  proof (cases e)
    case FPop
    with pop_step_ok f_more.hyps(1) f_more.prems(1) show ?thesis by blast
  next
    case (FRead r)
    with read_step_ok f_more.hyps(1) f_more.prems(1) show ?thesis by blast
  next
    case (FWrite now n)
    with write_step_ok f_more.hyps(1) f_more.prems show ?thesis by (metis order_refl)
  qed
  then obtain lo1 P1 where 1: "inv_at one dont N tfsmtu s1 lo1 P1" "set (bufs_in s1) \<subseteq> set (bufs_in s)"
    "e \<noteq> FRead (ReadPkt []) \<longrightarrow> set (bufs_in s1) = set (bufs_in s)" by blast
  with f_more.IH [OF 1(1) f_more.prems(2,3)] show ?case by auto
qed

section \<open>What a run sends\<close>

text \<open>The datagrams of a run and what the specification makes of them, on from a rest \<open>lo\<close> and the packets \<open>P\<close> taken.\<close>

definition fine_delivers :: "bool \<Rightarrow> bool \<Rightarrow> nat \<Rightarrow> int \<Rightarrow> fine \<Rightarrow> bytes option \<Rightarrow> bytes list \<Rightarrow> rx \<Rightarrow> fine_event list \<Rightarrow> bytes list \<Rightarrow>
    fine \<Rightarrow> bool" where
  "fine_delivers one dont N tfsmtu s lo P r es ds s' \<longleftrightarrow>
     (\<exists>pkts os r' lo' P'. ds = map wire pkts \<and> consecutive (wt_seq (fi_wt s)) pkts \<and>
        rx_run (map framed pkts) r = Inr (os, r') \<and> in_step lo' r' \<and> inv_at one dont N tfsmtu s' lo' P' \<and>
        mset (in_flight lo r) + mset P + mset (fine_queue s) + mset (taken_in es) =
          mset os + mset (in_flight lo' r') + mset P' + mset (fine_queue s'))"

lemma delivers_done: "inv_at one dont N tfsmtu s lo P \<Longrightarrow> in_step lo r \<Longrightarrow> fine_delivers one dont N tfsmtu s lo P r [] [] s"
  unfolding fine_delivers_def by (intro exI [of _ "[]"] exI [of _ r] exI [of _ lo] exI [of _ P]) simp

text \<open>A step without a datagram moves packets at most.\<close>

lemma delivers_quiet:
  assumes "fine_delivers one dont N tfsmtu s1 lo P1 r es ds s2" "wt_seq (fi_wt s1) = wt_seq (fi_wt s)"
    and "mset P1 + mset (fine_queue s1) + mset (taken_in es) = mset P + mset (fine_queue s) + mset (taken_in (e # es))"
  shows "fine_delivers one dont N tfsmtu s lo P r (e # es) ds s2"
proof -
  have "mset (in_flight lo r) + mset P + mset (fine_queue s) + mset (taken_in (e # es)) =
      mset (in_flight lo r) + mset P1 + mset (fine_queue s1) + mset (taken_in es)"
    using assms(3) by (simp add: add.assoc)
  note mv = this
  from assms(1) show ?thesis unfolding fine_delivers_def assms(2) mv .
qed

text \<open>A step with a datagram, which the specification cuts into packets.\<close>

lemma delivers_send:
  assumes "fine_delivers one dont N tfsmtu s1 lo1 [] r1 es ds s2" "wt_seq (fi_wt s1) = wt_seq (fi_wt s) + 1"
    and "fine_queue s1 = fine_queue s" "taken_in (e # es) = taken_in es" "0 < unat (wt_seq (fi_wt s))"
    and rx: "rx_packet off d r = Inr (os1, r1)" "in_flight lo r @ P = os1 @ in_flight lo1 r1"
    and "d \<noteq> []" "length d \<le> MAXBUF - HDRSPACE - 8" "unat (of_nat off :: u16) = off"
  shows "fine_delivers one dont N tfsmtu s lo P r (e # es) (wire (wt_seq (fi_wt s), of_nat off, d) # ds) s2"
proof -
  from assms(1) obtain pkts os r' lo' P' where
    ih: "ds = map wire pkts" "consecutive (wt_seq (fi_wt s1)) pkts" "rx_run (map framed pkts) r1 = Inr (os, r')"
      "in_step lo' r'" "inv_at one dont N tfsmtu s2 lo' P'"
      "mset (in_flight lo1 r1) + mset (fine_queue s1) + mset (taken_in es) =
         mset os + mset (in_flight lo' r') + mset P' + mset (fine_queue s2)" by (auto simp: fine_delivers_def)
  let ?p = "(wt_seq (fi_wt s), of_nat off, d)"
  have "mset (in_flight lo r) + mset P = mset os1 + mset (in_flight lo1 r1)"
    using arg_cong [OF rx(2), of mset] by simp
  then have "mset (in_flight lo r) + mset P + mset (fine_queue s) + mset (taken_in (e # es)) =
      mset (os1 @ os) + mset (in_flight lo' r') + mset P' + mset (fine_queue s2)"
    using ih(6) assms(3,4) by (simp add: ac_simps)
  moreover have "consecutive (wt_seq (fi_wt s)) (?p # pkts)"
    using ih(2) assms(2,5,8,9) by (auto simp: unat_gt_0)
  moreover have "rx_run (map framed (?p # pkts)) r = Inr (os1 @ os, r')"
    using rx(1) ih(3) assms(10) by (simp add: framed_def)
  moreover have "wire ?p # ds = map wire (?p # pkts)" using ih(1) by simp
  ultimately show ?thesis unfolding fine_delivers_def using ih(4,5)
    by (intro exI [of _ "?p # pkts"] exI [of _ "os1 @ os"] exI [of _ r'] exI [of _ lo'] exI [of _ P']) simp
qed

lemma fine_run_delivers:
  assumes "fine_run one dont tfsmtu s es ds s'" "inv_at one dont N tfsmtu s lo P" "14 < tfsmtu" "tfsmtu \<le> int (MAXBUF - HDRSPACE)"
    "full_sends tfsmtu es" "\<forall>p \<in> set (taken_in es) \<union> set P \<union> set (fine_queue s). inner_ok p" "in_step lo r"
    "0 < unat (wt_seq (fi_wt s))" "unat (wt_seq (fi_wt s)) + length ds < 2 ^ 32"
  shows "fine_delivers one dont N tfsmtu s lo P r es ds s'"
  using assms
proof (induction arbitrary: lo P r rule: fine_run.induct)
  case (f_done s)
  from delivers_done [OF f_done(1,6)] show ?case .
next
  case (f_more s e ds s1 es ds' s2)
  note mtu = f_more.prems(2,3)
  have mtu': "tfsmtu \<le> int MAXBUF" using mtu(2) by (simp add: const_defs)
  have fs: "full_sends tfsmtu es" using f_more.prems(4) by (cases e) simp_all
  have quiet: ?case if ds: "ds = []" and inv1: "inv_at one dont N tfsmtu s1 lo P1" and seq: "wt_seq (fi_wt s1) = wt_seq (fi_wt s)"
    and mv: "mset P1 + mset (fine_queue s1) + mset (taken_in es) = mset P + mset (fine_queue s) + mset (taken_in (e # es))" for P1
  proof -
    have "set P1 \<union> set (fine_queue s1) \<union> set (taken_in es) = set P \<union> set (fine_queue s) \<union> set (taken_in (e # es))"
      using arg_cong [OF mv, of set_mset] by simp
    then have "\<forall>p \<in> set (taken_in es) \<union> set P1 \<union> set (fine_queue s1). inner_ok p" using f_more.prems(5) by blast
    from delivers_quiet [OF f_more.IH [OF inv1 mtu fs this f_more.prems(6)] seq mv] f_more.prems(7,8) ds seq show ?case by simp
  qed
  show ?case
  proof (cases e)
    case FPop
    with pop_step_ok f_more.hyps(1) f_more.prems(1) have
      "inv_at one dont N tfsmtu s1 lo P" "ds = []" "fine_queue s1 = fine_queue s" "wt_seq (fi_wt s1) = wt_seq (fi_wt s)" by blast+
    with FPop show ?thesis by (intro quiet) simp_all
  next
    case (FRead i)
    with read_step_ok f_more.hyps(1) f_more.prems(1) have
      "inv_at one dont N tfsmtu s1 lo P" "ds = []" "fine_queue s1 = packet_of i @ fine_queue s" "wt_seq (fi_wt s1) = wt_seq (fi_wt s)" by blast+
    with FRead show ?thesis by (intro quiet) (simp_all add: ac_simps)
  next
    case (FWrite now n)
    have n: "n = tfsmtu" using f_more.prems(4) FWrite by simp
    from write_step_ok [OF f_more.hyps(1) [unfolded FWrite] f_more.prems(1) mtu(1) mtu'] obtain pkt lo1 P1 where
      w: "ds = emitted pkt" "inv_at one dont N tfsmtu s1 lo1 P1" "writer_effect one dont tfsmtu n (fi_wt s) lo P pkt (fi_wt s1) lo1 P1"
      by blast
    show ?thesis
    proof (cases pkt)
      case None
      with w(3) have e: "lo1 = lo" "P1 @ fine_queue s1 = P @ fine_queue s" "wt_seq (fi_wt s1) = wt_seq (fi_wt s)"
        by (simp_all add: writer_effect_def fine_queue_def)
      from arg_cong [OF e(2), of mset] show ?thesis
        by (intro quiet) (use w(1,2) None e(1,3) FWrite in simp_all)
    next
      case (Some x)
      with w(3) n obtain off d where x: "x = wire (wt_seq (fi_wt s), of_nat off, d)"
        and tx: "tx_packet one dont (nat (tfsmtu - 8)) lo P = (Some (off, d), lo1, [])"
        and st: "P1 = []" "fine_queue s1 = fine_queue s" "wt_seq (fi_wt s1) = wt_seq (fi_wt s) + 1"
        by (auto simp: writer_effect_def fine_queue_def)
      have "7 \<le> nat (tfsmtu - 8)" "\<forall>p \<in> set P. inner_ok p" using mtu(1) f_more.prems(5) by auto
      from tx_packet_rx_packet [OF f_more.prems(6) this(2,1) tx] obtain os1 r1 where
        rx: "rx_packet off d r = Inr (os1, r1)" "in_step lo1 r1" "length d = nat (tfsmtu - 8)"
          "in_flight lo r @ P = os1 @ in_flight lo1 r1" by auto
      have off: "unat (of_nat off :: u16) = off" using tx_packet_off [OF tx] by (simp add: unat_of_nat)
      have d: "d \<noteq> []" "length d \<le> MAXBUF - HDRSPACE - 8" using rx(3) mtu by auto
      have ds: "ds = [wire (wt_seq (fi_wt s), of_nat off, d)]" using w(1) Some x by simp
      have seq1: "unat (wt_seq (fi_wt s1)) = unat (wt_seq (fi_wt s)) + 1"
        using unat_succ [of "wt_seq (fi_wt s)" "length ds'"] f_more.prems(8) ds st(3) by simp
      have "\<forall>p \<in> set (taken_in es) \<union> set [] \<union> set (fine_queue s1). inner_ok p" using f_more.prems(5) st FWrite by auto
      from f_more.IH [OF w(2) [unfolded st(1)] mtu fs this rx(2)] seq1 f_more.prems(8) ds have
        "fine_delivers one dont N tfsmtu s1 lo1 [] r1 es ds' s2" by simp
      from delivers_send [OF this st(3,2) _ f_more.prems(7) rx(1,4) d off, of e] ds FWrite show ?thesis by simp
    qed
  qed
qed

lemmas fine_run_tx = fine_run_delivers [unfolded fine_delivers_def]

section \<open>Properties\<close>

text \<open>C7: however the reader and the writer interleave, each buffer of the sending side is in exactly one place:
  in one of the two queues or in the hands of one thread; as long as no read returns zero bytes, none is lost;
  and the writer never runs out of its arrays or fails, it only waits, in one-only mode, for a packet.\<close>

theorem interleaved_run_keeps_buffers:
  assumes "ig_memory raw space slots oslots iovecs freem" "14 < tfsmtu" "tfsmtu \<le> int MAXBUF"
    and "fine_run oneonly dontfrag tfsmtu
      \<lparr>fi_wt = write_tfs_start now iovecs freem (tfs_tunnel_ingress raw space slots oslots hs), fi_reader = None, fi_writer = WIdle\<rparr> es ds s"
  shows "distinct (bufs_in s) \<and> set (bufs_in s) \<subseteq> {..<INNERQSZ} \<and>
    (FRead (ReadPkt []) \<notin> set es \<longrightarrow> set (bufs_in s) = {..<INNERQSZ}) \<and>
    (\<forall>t n. (\<exists>r. writer_step oneonly dontfrag tfsmtu t n (fi_wt s) (fi_writer s) = Inr r) \<or>
      oneonly \<and> fi_writer s = WIdle \<and> fine_queue s = [] \<and>
        writer_step oneonly dontfrag tfsmtu t n (fi_wt s) (fi_writer s) = Inl Blocked)"
proof -
  let ?wt = "write_tfs_start now iovecs freem (tfs_tunnel_ingress raw space slots oslots hs)"
  let ?s = "\<lparr>fi_wt = ?wt, fi_reader = None, fi_writer = WIdle\<rparr>"
  note st = start_ingress [OF assms(1), where now = now and hs = hs]
  have i: "inv_at oneonly dontfrag INNERQSZ tfsmtu ?s (lo_of ?wt) []"
    using st(1) wt_inv_fine [of INNERQSZ ?wt oneonly dontfrag tfsmtu] by simp
  have b: "set (bufs_in ?s) = {..<INNERQSZ}" using st(4) by (simp add: bufs_in_def all_bufs_def bufs_of_def ig_bufs_def)
  from fine_run_inv [OF assms(4) i assms(2,3)] b obtain lo P where
    r: "inv_at oneonly dontfrag INNERQSZ tfsmtu s lo P" "set (bufs_in s) \<subseteq> {..<INNERQSZ}"
      "FRead (ReadPkt []) \<notin> set es \<longrightarrow> set (bufs_in s) = {..<INNERQSZ}" by auto
  have "distinct (bufs_in s)" using fine_inv_shared [OF r(1)] by (simp add: sh_inv_def bufs_in_def)
  moreover have "(\<exists>r. writer_step oneonly dontfrag tfsmtu t n (fi_wt s) (fi_writer s) = Inr r) \<or>
      oneonly \<and> fi_writer s = WIdle \<and> fine_queue s = [] \<and>
        writer_step oneonly dontfrag tfsmtu t n (fi_wt s) (fi_writer s) = Inl Blocked" for t n
    using writer_step_ok [OF r(1) assms(2,3), of t n] by (auto simp: fine_queue_def split: if_splits)
  ultimately show ?thesis using r(2,3) by blast
qed

lemma fine_demo_run:
  "\<exists>wt' es'. fine_run False False 40 \<lparr>fi_wt = ingress_demo, fi_reader = None, fi_writer = WIdle\<rparr> es'
     [wire (1, 0, demo_inner @ replicate 25 0)] \<lparr>fi_wt = wt', fi_reader = None, fi_writer = WIdle\<rparr> \<and> taken_in es' = [demo_inner] \<and>
     full_sends 40 es'"
proof -
  have "received [ReadIntf (ReadPkt demo_inner), WriteTfs (Timespec 1 500) 40] = [demo_inner]"
    by (simp add: demo_inner_def room_for_def const_defs)
  moreover have "full_writes 40 [ReadIntf (ReadPkt demo_inner), WriteTfs (Timespec 1 500) 40]" by simp
  ultimately show ?thesis using ingress_demo_run ingress_run_fine by metis
qed

theorem interleaved_run_keeps_buffers_witness:
  "\<exists>wt' es'. fine_run False False 40 \<lparr>fi_wt = ingress_demo, fi_reader = None, fi_writer = WIdle\<rparr> es'
     [wire (1, 0, demo_inner @ replicate 25 0)] \<lparr>fi_wt = wt', fi_reader = None, fi_writer = WIdle\<rparr> \<and>
     distinct (bufs_in \<lparr>fi_wt = wt', fi_reader = None, fi_writer = WIdle\<rparr>)"
proof -
  from fine_demo_run obtain wt' es' where r: "fine_run False False 40 \<lparr>fi_wt = ingress_demo, fi_reader = None, fi_writer = WIdle\<rparr> es'
     [wire (1, 0, demo_inner @ replicate 25 0)] \<lparr>fi_wt = wt', fi_reader = None, fi_writer = WIdle\<rparr>" by blast
  from interleaved_run_keeps_buffers [OF demo_memory _ _ this [unfolded ingress_demo_def]] r show ?thesis
    by (auto simp: const_defs)
qed

end
