(* ===== verification/Egress.thy ===== *)
theory Egress
  imports Miov Framing
begin

text \<open>
  The reassembly of inner packets on the receiving side of \<open>src/src/iptfs.c\<close>: \<open>getiplen\<close> and
  \<open>add_to_inner_packet\<close>, which walks over one received tunnel packet, links its pieces into scatter
  lists and queues the completed ones for the writing thread.
\<close>

section \<open>State\<close>

record egress =
  eg_mem :: mem
  eg_iovfreeq :: miovq
  eg_outq :: miovq

definition eg_mbuf :: "egress \<Rightarrow> nat \<Rightarrow> mbuf" where
  "eg_mbuf st a = m_mbufs (eg_mem st) a"

definition eg_miov :: "egress \<Rightarrow> nat \<Rightarrow> miov" where
  "eg_miov st v = m_miovs (eg_mem st) v"

definition set_start :: "nat \<Rightarrow> nat \<Rightarrow> egress \<Rightarrow> egress" where
  "set_start a n st = st\<lparr>eg_mem := (eg_mem st)\<lparr>m_mbufs := (m_mbufs (eg_mem st))(a := (eg_mbuf st a)\<lparr>mb_start := n\<rparr>)\<rparr>\<rparr>"

definition set_left :: "nat \<Rightarrow> int \<Rightarrow> egress \<Rightarrow> egress" where
  "set_left v l st = st\<lparr>eg_mem := (eg_mem st)\<lparr>m_miovs := (m_miovs (eg_mem st))(v := (eg_miov st v)\<lparr>mi_left := l\<rparr>)\<rparr>\<rparr>"

definition add_piece :: "nat \<Rightarrow> nat \<Rightarrow> int \<Rightarrow> egress \<Rightarrow> egress res" where
  "add_piece v tb len st =
     bindE (miov_addmbuf (eg_mem st) v tb (mb_start (eg_mbuf st tb)) len) (\<lambda>s. Inr (st\<lparr>eg_mem := s\<rparr>))"

definition pop_free :: "egress \<Rightarrow> (nat \<times> egress) res" where
  "pop_free st = bindE (miovq_pop (eg_iovfreeq st)) (\<lambda>(v, q). Inr (v, st\<lparr>eg_iovfreeq := q\<rparr>))"

definition push_out :: "nat \<Rightarrow> egress \<Rightarrow> egress res" where
  "push_out v st =
     bindE (miovq_push (eg_mem st) (eg_outq st) v) (\<lambda>(_, s, q). Inr (st\<lparr>eg_mem := s, eg_outq := q\<rparr>))"

section \<open>getiplen\<close>

definition get16_at :: "bytes \<Rightarrow> int \<Rightarrow> u16 res" where
  "get16_at d i = bindE (requireE OutOfBounds (0 \<le> i \<and> i + 2 \<le> int (length d))) (\<lambda>_. Inr (get16 d (nat i)))"

definition iov_first_byte :: "mem \<Rightarrow> nat \<Rightarrow> u8 res" where
  "iov_first_byte s v =
     (case iov_base (mi_iov (m_miovs s v) ! 0) of
        PBuf a i \<Rightarrow> bindE (requireE OutOfBounds (i < length (mb_space (m_mbufs s a)))) (\<lambda>_. Inr (mb_space (m_mbufs s a) ! i))
      | _ \<Rightarrow> Inl OutOfBounds)"

definition getiplen :: "egress \<Rightarrow> nat \<Rightarrow> nat \<Rightarrow> int res" where
  "getiplen st v tb =
     bindE (iov_first_byte (eg_mem st) v) (\<lambda>b.
     let t = eg_mbuf st tb; n = mi_len (eg_miov st v); sw = b AND 0xF0
     in if sw = 0x4 then bindE (get16_at (mb_space t) (int (mb_start t) + 2 - n)) (\<lambda>w. Inr (uint w))
        else if sw = 0x6 then bindE (get16_at (mb_space t) (int (mb_start t) + 4 - n)) (\<lambda>w. Inr (uint w))
        else Inl Assertion)"

section \<open>add\_to\_inner\_packet\<close>

text \<open>\<open>uint16_t\<close> variables hold their value modulo \<open>2^16\<close>.\<close>

definition u16_of :: "int \<Rightarrow> int" where
  "u16_of x = x mod 2 ^ 16"

text \<open>Up to the test of \<open>m->len\<close>: skip the header, take a scatter list if there is none.\<close>

definition atip_enter :: "nat \<Rightarrow> bool \<Rightarrow> nat option \<Rightarrow> egress \<Rightarrow> (nat \<times> int \<times> int \<times> egress) res" where
  "atip_enter tb new m st =
     bindE (requireE Errx (MBUF_LEN (eg_mbuf st tb) > 0)) (\<lambda>_.
     bindE (requireE Assertion (new \<longrightarrow> MBUF_LEN (eg_mbuf st tb) > 8)) (\<lambda>_.
     let b = eg_mbuf st tb;
         offset = (if new then uint (get16 (mb_space b) (mb_start b + 6)) else 0);
         st1 = (if new then set_start tb (mb_start b + 8) st else st);
         tlen = u16_of (MBUF_LEN (eg_mbuf st1 tb))
     in bindE (case m of Some v \<Rightarrow> Inr (v, st1) | None \<Rightarrow> pop_free st1) (\<lambda>(v, st2).
        bindE (requireE Errx (MBUF_LEN (eg_mbuf st2 tb) = tlen)) (\<lambda>_.
        Inr (v, offset, tlen, st2)))))"

text \<open>The piece that the two copies of the code marked A add: all that is left of the buffer.\<close>

definition atip_more :: "nat \<Rightarrow> nat \<Rightarrow> int \<Rightarrow> egress \<Rightarrow> egress res" where
  "atip_more tb v tlen st =
     bindE (add_piece v tb tlen st) (\<lambda>st1.
     let st2 = set_start tb (mb_start (eg_mbuf st1 tb) + nat tlen) (set_left v (mi_left (eg_miov st1 v) - tlen) st1)
     in bindE (requireE Assertion (MBUF_LEN (eg_mbuf st2 tb) = 0)) (\<lambda>_. Inr st2))"

text \<open>The piece that the two copies marked B add: the rest of the inner packet, which is then queued.\<close>

definition atip_complete :: "nat \<Rightarrow> nat \<Rightarrow> egress \<Rightarrow> egress res" where
  "atip_complete tb v st =
     (let left = mi_left (eg_miov st v) in
      bindE (add_piece v tb left st) (\<lambda>st1.
      push_out v (set_left v 0 (set_start tb (mb_start (eg_mbuf st1 tb) + nat left) st1))))"

datatype atip_next = Return "nat option" | Go int
datatype atip_end = Done "nat option" | Recurse

text \<open>The three branches on \<open>m->len\<close> and the offset.\<close>

definition atip_fresh :: "nat \<Rightarrow> nat \<Rightarrow> int \<Rightarrow> int \<Rightarrow> egress \<Rightarrow> (atip_next \<times> egress) res" where
  "atip_fresh tb v offset tlen st =
     (let b = eg_mbuf st tb in
      if offset \<ge> tlen then Inr (Return (Some v), set_start tb (mb_end b) st)
      else
        (let start = mb_start b + nat offset; st1 = set_start tb start st; tlen1 = u16_of (tlen - offset);
             vnib = mb_space b ! start AND 0xF0;
             iplen = (if vnib = 0x40 then (if tlen1 \<ge> 4 then uint (get16 (mb_space b) (start + 2)) else 0)
                      else if vnib = 0x60 then (if tlen1 \<ge> 6 then uint (get16 (mb_space b) (start + 4)) else 0)
                      else 0)
         in if vnib = 0x0 then Inr (Return (Some v), set_start tb (mb_end b) st1)
            else if iplen = 0
            then bindE (add_piece v tb tlen1 st1) (\<lambda>st2.
                 let st3 = set_start tb (mb_start (eg_mbuf st2 tb) + nat tlen1) st2
                 in bindE (requireE Assertion (MBUF_LEN (eg_mbuf st3 tb) = 0)) (\<lambda>_.
                    Inr (Return (Some v), st3)))
            else (let st2 = set_left v iplen st1
                  in bindE (requireE Errx (MBUF_LEN (eg_mbuf st2 tb) = tlen1)) (\<lambda>_. Inr (Go tlen1, st2)))))"

definition ensure_left :: "nat \<Rightarrow> nat \<Rightarrow> egress \<Rightarrow> egress res" where
  "ensure_left tb v st =
     (if mi_left (eg_miov st v) \<le> 0
      then bindE (getiplen st v tb) (\<lambda>n. Inr (set_left v n st))
      else Inr st)"

definition atip_beyond :: "nat \<Rightarrow> nat \<Rightarrow> int \<Rightarrow> egress \<Rightarrow> (atip_next \<times> egress) res" where
  "atip_beyond tb v tlen st =
     bindE (ensure_left tb v st) (\<lambda>st1.
     if mi_left (eg_miov st1 v) > tlen
     then bindE (atip_more tb v tlen st1) (\<lambda>st2. Inr (Return (Some v), st2))
     else bindE (atip_complete tb v st1) (\<lambda>st2.
          Inr (Return None, set_start tb (mb_end (eg_mbuf st2 tb)) st2)))"

definition atip_within :: "nat \<Rightarrow> nat \<Rightarrow> int \<Rightarrow> egress \<Rightarrow> (atip_next \<times> egress) res" where
  "atip_within tb v offset st =
     bindE (ensure_left tb v st) (\<lambda>st1.
     bindE (requireE Assertion (mi_left (eg_miov st1 v) = offset)) (\<lambda>_. Inr (Go offset, st1)))"

definition atip_branch :: "nat \<Rightarrow> nat \<Rightarrow> int \<Rightarrow> int \<Rightarrow> egress \<Rightarrow> (atip_next \<times> egress) res" where
  "atip_branch tb v offset tlen st =
     (if mi_len (eg_miov st v) = 0 then atip_fresh tb v offset tlen st
      else if offset > tlen then atip_beyond tb v tlen st
      else atip_within tb v offset st)"

text \<open>From the comparison of \<open>m->left\<close> with \<open>tlen\<close> to the end.\<close>

definition atip_finish :: "nat \<Rightarrow> nat \<Rightarrow> int \<Rightarrow> egress \<Rightarrow> (atip_end \<times> egress) res" where
  "atip_finish tb v tlen st =
     (if mi_left (eg_miov st v) > tlen
      then bindE (atip_more tb v tlen st) (\<lambda>st1. Inr (Done (Some v), st1))
      else bindE (atip_complete tb v st) (\<lambda>st1.
           let tlen1 = u16_of (MBUF_LEN (eg_mbuf st1 tb))
           in if tlen1 = 0 then Inr (Done None, st1)
              else bindE (requireE Errx (MBUF_LEN (eg_mbuf st1 tb) = tlen1)) (\<lambda>_. Inr (Recurse, st1))))"

text \<open>One call after the list is chosen, up to its recursive call.\<close>

definition atip_round :: "nat \<Rightarrow> nat \<Rightarrow> int \<Rightarrow> int \<Rightarrow> egress \<Rightarrow> (atip_end \<times> egress) res" where
  "atip_round tb v offset tlen st =
     bindE (atip_branch tb v offset tlen st) (\<lambda>(nx, st1).
     case nx of Return m' \<Rightarrow> Inr (Done m', st1) | Go tlen' \<Rightarrow> atip_finish tb v tlen' st1)"

text \<open>
  The recursion is bounded by a fuel argument; every call consumes at least one byte of the buffer,
  so the buffer's length is enough (\<open>rec_ok_all\<close> in \<open>Reassembly\<close>).
\<close>

fun atip :: "nat \<Rightarrow> nat \<Rightarrow> bool \<Rightarrow> nat option \<Rightarrow> egress \<Rightarrow> (nat option \<times> egress) res" where
  "atip 0 tb new m st = Inl NoFuel"
| "atip (Suc n) tb new m st =
     bindE (atip_enter tb new m st) (\<lambda>(v, offset, tlen, st1).
     bindE (atip_round tb v offset tlen st1) (\<lambda>(e, st2).
     case e of Done m' \<Rightarrow> Inr (m', st2) | Recurse \<Rightarrow> atip n tb False None st2))"

definition add_to_inner_packet :: "nat \<Rightarrow> bool \<Rightarrow> nat option \<Rightarrow> egress \<Rightarrow> (nat option \<times> egress) res" where
  "add_to_inner_packet tb new m st = atip (Suc (nat (MBUF_LEN (eg_mbuf st tb)))) tb new m st"

end
