(* ===== verification/EgressSim.thy ===== *)
theory EgressSim
  imports Egress
begin

text \<open>
  The refinement of \<open>rx_packet\<close> by \<open>add_to_inner_packet\<close>: what the scatter lists hold, the
  invariant that ties queues and lists together, the effect of each part of the code on them, and the
  simulation of a whole tunnel packet.
\<close>

named_theorems eg_simps \<open>reading the state after an update\<close>

section \<open>Reading the state\<close>

lemma eg_mbuf_set_start [eg_simps]:
  "eg_mbuf (set_start a n st) b = (if b = a then (eg_mbuf st a)\<lparr>mb_start := n\<rparr> else eg_mbuf st b)"
  by (simp add: eg_mbuf_def set_start_def)

lemma eg_miov_set_start [eg_simps]: "eg_miov (set_start a n st) v = eg_miov st v"
  by (simp add: eg_miov_def set_start_def)

lemma eg_mbuf_set_left [eg_simps]: "eg_mbuf (set_left v l st) b = eg_mbuf st b"
  by (simp add: eg_mbuf_def set_left_def)

lemma eg_miov_set_left [eg_simps]:
  "eg_miov (set_left v l st) w = (if w = v then (eg_miov st v)\<lparr>mi_left := l\<rparr> else eg_miov st w)"
  by (simp add: eg_miov_def set_left_def)

lemma eg_queues_set [eg_simps]:
  "eg_iovfreeq (set_start a n st) = eg_iovfreeq st" "eg_outq (set_start a n st) = eg_outq st"
  "eg_iovfreeq (set_left v l st) = eg_iovfreeq st" "eg_outq (set_left v l st) = eg_outq st"
  "m_freeq (eg_mem (set_start a n st)) = m_freeq (eg_mem st)"
  "m_freeq (eg_mem (set_left v l st)) = m_freeq (eg_mem st)"
  by (simp_all add: set_start_def set_left_def)

lemma add_piece_Inr:
  "mi_niov (eg_miov st v) < length (mi_iov (eg_miov st v)) \<Longrightarrow>
   length (mi_mbufs (eg_miov st v)) = length (mi_iov (eg_miov st v)) \<Longrightarrow>
   \<exists>st'. add_piece v tb len st = Inr st' \<and>
     eg_miov st' v = (eg_miov st v)\<lparr>mi_niov := mi_niov (eg_miov st v) + 1,
       mi_iov := (mi_iov (eg_miov st v))[mi_niov (eg_miov st v) :=
                   \<lparr>iov_base = PBuf tb (mb_start (eg_mbuf st tb)), iov_len = len\<rparr>],
       mi_mbufs := (mi_mbufs (eg_miov st v))[mi_niov (eg_miov st v) := tb],
       mi_len := mi_len (eg_miov st v) + len\<rparr> \<and>
     (\<forall>w. w \<noteq> v \<longrightarrow> eg_miov st' w = eg_miov st w) \<and>
     (\<forall>b. eg_mbuf st' b = (if b = tb then (eg_mbuf st tb)\<lparr>mb_refcnt := mb_refcnt (eg_mbuf st tb) + 1\<rparr>
                            else eg_mbuf st b)) \<and>
     eg_iovfreeq st' = eg_iovfreeq st \<and> eg_outq st' = eg_outq st \<and>
     m_freeq (eg_mem st') = m_freeq (eg_mem st)"
  by (simp add: add_piece_def miov_addmbuf_def Let_def eg_miov_def eg_mbuf_def)

section \<open>What a scatter list holds\<close>

definition seg_bytes :: "egress \<Rightarrow> iovec \<Rightarrow> bytes" where
  "seg_bytes st iv =
     (case iov_base iv of PBuf a i \<Rightarrow> subseg i (nat (iov_len iv)) (mb_space (eg_mbuf st a)) | _ \<Rightarrow> [])"

definition miov_bytes :: "egress \<Rightarrow> miov \<Rightarrow> bytes" where
  "miov_bytes st mi = concat (map (seg_bytes st) (take (mi_niov mi) (mi_iov mi)))"

definition same_spaces :: "egress \<Rightarrow> egress \<Rightarrow> bool" where
  "same_spaces st st' \<longleftrightarrow> (\<forall>a. mb_space (eg_mbuf st' a) = mb_space (eg_mbuf st a))"

lemma same_spaces_refl: "same_spaces st st"
  by (simp add: same_spaces_def)

lemma same_spaces_trans: "same_spaces st st' \<Longrightarrow> same_spaces st' st'' \<Longrightarrow> same_spaces st st''"
  by (simp add: same_spaces_def)

lemma seg_bytes_same: "same_spaces st st' \<Longrightarrow> seg_bytes st' = seg_bytes st"
  by (auto simp: seg_bytes_def same_spaces_def fun_eq_iff split: ptr.split)

lemma miov_bytes_same: "same_spaces st st' \<Longrightarrow> miov_bytes st' mi = miov_bytes st mi"
  by (simp add: miov_bytes_def seg_bytes_same)

definition miov_wf :: "egress \<Rightarrow> miov \<Rightarrow> bool" where
  "miov_wf st mi \<longleftrightarrow> mi_niov mi \<le> length (mi_iov mi) \<and> length (mi_mbufs mi) = length (mi_iov mi) \<and>
     mi_len mi = int (length (miov_bytes st mi)) \<and> (mi_len mi = 0 \<longrightarrow> mi_niov mi = 0) \<and>
     (mi_niov mi \<noteq> 0 \<longrightarrow> seg_bytes st (mi_iov mi ! 0) \<noteq> []) \<and>
     (\<forall>i < mi_niov mi. \<exists>j. iov_base (mi_iov mi ! i) = PBuf (mi_mbufs mi ! i) j)"

definition miov_clean :: "miov \<Rightarrow> bool" where
  "miov_clean mi \<longleftrightarrow> mi_niov mi = 0 \<and> mi_len mi = 0 \<and> mi_left mi = 0"

lemma miov_wf_same: "same_spaces st st' \<Longrightarrow> miov_wf st' mi = miov_wf st mi"
  by (simp add: miov_wf_def miov_bytes_same seg_bytes_same)

lemma miov_bytes_clean: "miov_clean mi \<Longrightarrow> miov_bytes st mi = []"
  by (simp add: miov_clean_def miov_bytes_def)

text \<open>What is left of a received buffer.\<close>

definition rest :: "egress \<Rightarrow> nat \<Rightarrow> bytes" where
  "rest st tb = mbuf_bytes (eg_mbuf st tb)"

lemma MBUF_LEN_rest: "mbuf_wf (eg_mbuf st tb) \<Longrightarrow> MBUF_LEN (eg_mbuf st tb) = int (length (rest st tb))"
  by (simp add: rest_def length_mbuf_bytes)

lemma mbuf_bytes_skip:
  "mbuf_wf b \<Longrightarrow> k \<le> length (mbuf_bytes b) \<Longrightarrow>
   mbuf_bytes (b\<lparr>mb_start := mb_start b + k\<rparr>) = drop k (mbuf_bytes b) \<and> mbuf_wf (b\<lparr>mb_start := mb_start b + k\<rparr>)"
  by (auto simp: mbuf_bytes_def mbuf_wf_def drop_subseg)

lemma mbuf_bytes_refcnt: "mbuf_bytes (b\<lparr>mb_refcnt := r\<rparr>) = mbuf_bytes b" "mbuf_wf (b\<lparr>mb_refcnt := r\<rparr>) = mbuf_wf b"
  by (simp_all add: mbuf_bytes_def mbuf_wf_def)

lemma mbuf_bytes_end: "mbuf_bytes (b\<lparr>mb_start := mb_end b\<rparr>) = []"
  by (simp add: mbuf_bytes_def)

lemma take_rest: "mbuf_wf b \<Longrightarrow> k \<le> length (mbuf_bytes b) \<Longrightarrow>
    subseg (mb_start b) k (mb_space b) = take k (mbuf_bytes b)"
  by (simp add: mbuf_bytes_def mbuf_wf_def take_subseg)

text \<open>Linking \<open>k\<close> bytes of the buffer to a list and moving the buffer's start past them.\<close>

definition moved :: "nat \<Rightarrow> nat \<Rightarrow> nat \<Rightarrow> egress \<Rightarrow> egress \<Rightarrow> bool" where
  "moved tb v k st st' \<longleftrightarrow>
     miov_bytes st' (eg_miov st' v) = miov_bytes st (eg_miov st v) @ take k (rest st tb) \<and>
     miov_wf st' (eg_miov st' v) \<and> mi_len (eg_miov st' v) = mi_len (eg_miov st v) + int k \<and>
     (\<forall>w. w \<noteq> v \<longrightarrow> eg_miov st' w = eg_miov st w) \<and> same_spaces st st' \<and>
     miov_refs (eg_miov st' v) = miov_refs (eg_miov st v) @ [tb] \<and>
     mb_refcnt (eg_mbuf st' tb) = mb_refcnt (eg_mbuf st tb) + 1 \<and>
     length (mi_iov (eg_miov st' v)) = length (mi_iov (eg_miov st v)) \<and>
     rest st' tb = drop k (rest st tb) \<and> mbuf_wf (eg_mbuf st' tb) \<and>
     mb_end (eg_mbuf st' tb) = mb_end (eg_mbuf st tb) \<and>
     (\<forall>b. b \<noteq> tb \<longrightarrow> eg_mbuf st' b = eg_mbuf st b) \<and>
     eg_iovfreeq st' = eg_iovfreeq st \<and> eg_outq st' = eg_outq st \<and>
     m_freeq (eg_mem st') = m_freeq (eg_mem st)"

lemma add_piece_moved:
  assumes wf: "miov_wf st (eg_miov st v)" and room: "mi_niov (eg_miov st v) < length (mi_iov (eg_miov st v))"
    and tb: "mbuf_wf (eg_mbuf st tb)" and k: "0 < k" "k \<le> length (rest st tb)"
  shows "\<exists>st1. add_piece v tb (int k) st = Inr st1 \<and>
     mi_left (eg_miov st1 v) = mi_left (eg_miov st v) \<and>
     mb_start (eg_mbuf st1 tb) = mb_start (eg_mbuf st tb) \<and> mb_end (eg_mbuf st1 tb) = mb_end (eg_mbuf st tb) \<and>
     (\<forall>l. moved tb v k st (set_start tb (mb_start (eg_mbuf st tb) + k) (set_left v l st1))) \<and>
     moved tb v k st (set_start tb (mb_start (eg_mbuf st tb) + k) st1) \<and>
     (\<forall>l. moved tb v k st (set_left v l (set_start tb (mb_start (eg_mbuf st tb) + k) st1)))"
proof -
  let ?mi = "eg_miov st v" and ?b = "eg_mbuf st tb"
  let ?iv = "\<lparr>iov_base = PBuf tb (mb_start ?b), iov_len = int k\<rparr>"
  from wf have len: "length (mi_mbufs ?mi) = length (mi_iov ?mi)" by (simp add: miov_wf_def)
  from add_piece_Inr [OF room len, of tb "int k"] obtain st1 where
    st1: "add_piece v tb (int k) st = Inr st1"
    and mi: "eg_miov st1 v = ?mi\<lparr>mi_niov := mi_niov ?mi + 1, mi_iov := (mi_iov ?mi)[mi_niov ?mi := ?iv],
        mi_mbufs := (mi_mbufs ?mi)[mi_niov ?mi := tb], mi_len := mi_len ?mi + int k\<rparr>"
    and other: "\<forall>w. w \<noteq> v \<longrightarrow> eg_miov st1 w = eg_miov st w"
    and buf: "\<forall>b. eg_mbuf st1 b = (if b = tb then ?b\<lparr>mb_refcnt := mb_refcnt ?b + 1\<rparr> else eg_mbuf st b)"
    and q: "eg_iovfreeq st1 = eg_iovfreeq st" "eg_outq st1 = eg_outq st" "m_freeq (eg_mem st1) = m_freeq (eg_mem st)"
    by blast
  have main: "moved tb v k st st'"
    if mi': "\<exists>l. eg_miov st' v = (eg_miov st1 v)\<lparr>mi_left := l\<rparr>" and o': "\<forall>w. w \<noteq> v \<longrightarrow> eg_miov st' w = eg_miov st1 w"
      and b': "\<forall>b. eg_mbuf st' b = (if b = tb then (eg_mbuf st1 tb)\<lparr>mb_start := mb_start ?b + k\<rparr> else eg_mbuf st1 b)"
      and q': "eg_iovfreeq st' = eg_iovfreeq st1" "eg_outq st' = eg_outq st1"
        "m_freeq (eg_mem st') = m_freeq (eg_mem st1)" for st'
  proof -
    have same: "same_spaces st st'" using b' buf by (simp add: same_spaces_def)
    have seg: "seg_bytes st ?iv = take k (rest st tb)"
      using take_rest [OF tb] k(2) by (simp add: seg_bytes_def rest_def)
    obtain l where l: "eg_miov st' v = (eg_miov st1 v)\<lparr>mi_left := l\<rparr>" using mi' by blast
    have bytes: "miov_bytes st' (eg_miov st' v) = miov_bytes st ?mi @ take k (rest st tb)"
      unfolding miov_bytes_same [OF same] l mi using room
      by (simp add: miov_bytes_def take_Suc_update seg)
    have r: "rest st' tb = drop k (rest st tb) \<and> mbuf_wf (eg_mbuf st' tb)"
      using mbuf_bytes_skip [OF tb] k(2) b' buf by (simp add: rest_def mbuf_bytes_def mbuf_wf_def)
    have "seg_bytes st' (mi_iov (eg_miov st' v) ! 0) \<noteq> []"
      using wf k room seg unfolding seg_bytes_same [OF same] l mi
      by (cases "mi_niov ?mi = 0") (auto simp: miov_wf_def)
    moreover have "\<forall>i < mi_niov (eg_miov st' v). \<exists>j. iov_base (mi_iov (eg_miov st' v) ! i) =
        PBuf (mi_mbufs (eg_miov st' v) ! i) j"
      using wf room len unfolding l mi by (auto simp: miov_wf_def less_Suc_eq)
    ultimately have "miov_wf st' (eg_miov st' v)"
      using wf k room bytes unfolding miov_wf_def by (simp add: l mi)
    moreover have "miov_refs (eg_miov st' v) = miov_refs ?mi @ [tb]"
      using room len by (simp add: miov_refs_def l mi take_Suc_update)
    ultimately show ?thesis
      using bytes same r o' other q q' b' buf unfolding moved_def by (simp add: l mi)
  qed
  have "mi_left (eg_miov st1 v) = mi_left ?mi" by (simp add: mi)
  moreover have "\<exists>l. eg_miov st1 v = (eg_miov st1 v)\<lparr>mi_left := l\<rparr>"
    by (rule exI [of _ "mi_left (eg_miov st1 v)"]) simp
  ultimately show ?thesis
    using st1 buf by (intro exI [of _ st1]) (auto simp: eg_simps intro!: main)
qed

section \<open>The invariant of the receiving thread\<close>

definition free_list :: "egress \<Rightarrow> nat list" where
  "free_list st = miovq_contents (eg_iovfreeq st)"

definition out_list :: "egress \<Rightarrow> nat list" where
  "out_list st = miovq_contents (eg_outq st)"

definition out_bytes :: "egress \<Rightarrow> bytes list" where
  "out_bytes st = map (\<lambda>v. miov_bytes st (eg_miov st v)) (out_list st)"

definition held :: "nat option \<Rightarrow> nat list" where
  "held m = (case m of None \<Rightarrow> [] | Some v \<Rightarrow> [v])"

lemma held_simps [simp]: "held None = []" "held (Some v) = [v]"
  by (simp_all add: held_def)

text \<open>
  Every scatter list below \<open>nv\<close> is in at most one place: free, queued for the writer, or held by
  the receiving thread; the out queue is large enough for all of them; and free lists are empty.
\<close>

definition eg_inv :: "nat \<Rightarrow> egress \<Rightarrow> nat option \<Rightarrow> bool" where
  "eg_inv nv st m \<longleftrightarrow>
     miovq_ok (eg_iovfreeq st) \<and> miovq_ok (eg_outq st) \<and> \<not> vq_freeq (eg_outq st) \<and>
     distinct (held m @ free_list st @ out_list st) \<and> set (held m @ free_list st @ out_list st) \<subseteq> {..<nv} \<and>
     nv \<le> vq_size (eg_outq st) \<and>
     (\<forall>v \<in> set (free_list st). miov_clean (eg_miov st v)) \<and>
     (\<forall>v < nv. miov_wf st (eg_miov st v) \<and> 0 < length (mi_iov (eg_miov st v)))"

text \<open>Between two tunnel packets a held list of length 0 is empty in every respect.\<close>

definition held_clean :: "egress \<Rightarrow> nat option \<Rightarrow> bool" where
  "held_clean st m \<longleftrightarrow> (\<forall>v. m = Some v \<longrightarrow> mi_len (eg_miov st v) = 0 \<longrightarrow> miov_clean (eg_miov st v))"

definition rx_of :: "egress \<Rightarrow> nat option \<Rightarrow> rx" where
  "rx_of st m =
     (case m of None \<Rightarrow> RxIdle
      | Some v \<Rightarrow> let mi = eg_miov st v in
          if mi_len mi = 0 then RxIdle
          else if mi_left mi \<le> 0 then RxShort (miov_bytes st mi)
          else RxPartial (miov_bytes st mi) (nat (mi_left mi)))"

text \<open>How often a buffer is linked from the scatter lists below \<open>nv\<close>, and the count it must have.\<close>

definition refs :: "nat \<Rightarrow> egress \<Rightarrow> nat \<Rightarrow> nat" where
  "refs nv st a = (\<Sum>v<nv. count_list (miov_refs (eg_miov st v)) a)"

definition ref_base :: "nat \<Rightarrow> (nat \<Rightarrow> u32) \<Rightarrow> egress \<Rightarrow> bool" where
  "ref_base nv h st \<longleftrightarrow> (\<forall>a. mb_refcnt (eg_mbuf st a) = h a + word_of_nat (refs nv st a))"

definition own_ref :: "nat \<Rightarrow> nat \<Rightarrow> u32" where
  "own_ref tb a = (if a = tb then 1 else 0)"

abbreviation ref_inv :: "nat \<Rightarrow> nat \<Rightarrow> egress \<Rightarrow> bool" where
  "ref_inv nv tb \<equiv> ref_base nv (own_ref tb)"

lemma ref_inv_def:
  "ref_inv nv tb st \<longleftrightarrow> (\<forall>a. mb_refcnt (eg_mbuf st a) = word_of_nat ((if a = tb then 1 else 0) + refs nv st a))"
  by (simp add: ref_base_def own_ref_def if_distrib [of word_of_nat] cong: if_cong)

text \<open>What a part of the walk over the buffer \<open>tb\<close> leaves alone.\<close>

definition frame :: "nat \<Rightarrow> egress \<Rightarrow> egress \<Rightarrow> bool" where
  "frame tb st st' \<longleftrightarrow> same_spaces st st' \<and> mb_end (eg_mbuf st' tb) = mb_end (eg_mbuf st tb) \<and>
     (\<forall>b. b \<noteq> tb \<longrightarrow> eg_mbuf st' b = eg_mbuf st b) \<and> m_freeq (eg_mem st') = m_freeq (eg_mem st) \<and>
     (\<forall>w. length (mi_iov (eg_miov st' w)) = length (mi_iov (eg_miov st w))) \<and>
     vq_size (eg_iovfreeq st') = vq_size (eg_iovfreeq st) \<and> vq_freeq (eg_iovfreeq st') = vq_freeq (eg_iovfreeq st) \<and>
     eg_outq st' = (eg_outq st)\<lparr>vq_queue := vq_queue (eg_outq st'), vq_depth := vq_depth (eg_outq st')\<rparr>"

lemma frame_refl [simp]: "frame tb st st"
  by (simp add: frame_def same_spaces_refl)

lemma frame_trans: "frame tb st st' \<Longrightarrow> frame tb st' st'' \<Longrightarrow> frame tb st st''"
  unfolding frame_def same_spaces_def by (metis (no_types, lifting) miovq.surjective miovq.update_convs(1,3))

lemma moved_frame: "moved tb v k st st' \<Longrightarrow> frame tb st st'"
  by (auto simp: moved_def frame_def)

lemma count_list_snoc: "count_list (xs @ [x]) y = count_list xs y + (if x = y then 1 else 0)"
  by (induction xs) auto

lemma refs_moved:
  assumes "moved tb v k st st'" "v < nv"
  shows "refs nv st' a = refs nv st a + (if a = tb then 1 else 0)"
proof -
  let ?c = "\<lambda>w. count_list (miov_refs (eg_miov st w)) a"
  let ?x = "?c v + (if a = tb then 1 else 0)"
  have "(\<lambda>w. count_list (miov_refs (eg_miov st' w)) a) = ?c(v := ?x)"
    using assms(1) by (auto simp: moved_def count_list_snoc fun_eq_iff)
  then have "refs nv st' a = (\<Sum>w<nv. (?c(v := ?x)) w)" by (simp only: refs_def)
  with sum_fun_upd [of "{..<nv}" v ?c ?x] assms(2) show ?thesis by (simp only: refs_def) simp
qed

lemma ref_inv_moved:
  assumes "moved tb v k st st'" "v < nv" "ref_base nv h st"
  shows "ref_base nv h st'"
proof -
  have "mb_refcnt (eg_mbuf st' a) = h a + word_of_nat (refs nv st' a)" for a
    using assms(1,3) refs_moved [OF assms(1,2), of a] by (cases "a = tb") (auto simp: ref_base_def moved_def)
  then show ?thesis by (simp add: ref_base_def)
qed

lemma eg_inv_moved:
  assumes "moved tb v k st st'" "eg_inv nv st (Some v)" "0 < k"
  shows "eg_inv nv st' (Some v)" "out_bytes st' = out_bytes st" "free_list st' = free_list st"
    "out_list st' = out_list st"
proof -
  have q: "free_list st' = free_list st" "out_list st' = out_list st"
    and same: "same_spaces st st'" and v: "miov_wf st' (eg_miov st' v)"
      "mi_len (eg_miov st' v) = mi_len (eg_miov st v) + int k"
      "length (mi_iov (eg_miov st' v)) = length (mi_iov (eg_miov st v))"
    and w: "\<And>w. w \<noteq> v \<Longrightarrow> eg_miov st' w = eg_miov st w"
    using assms(1) by (auto simp: moved_def free_list_def out_list_def)
  then show "free_list st' = free_list st" "out_list st' = out_list st" by simp_all
  have nin: "v \<notin> set (free_list st)" "v \<notin> set (out_list st)" "v < nv"
    using assms(2) by (auto simp: eg_inv_def)
  have len: "0 \<le> mi_len (eg_miov st v)" using assms(2) nin(3) by (auto simp: eg_inv_def miov_wf_def)
  have "miov_wf st' (eg_miov st' w) \<and> 0 < length (mi_iov (eg_miov st' w))" if "w < nv" for w
    using assms(2) that v w [of w] same by (cases "w = v") (auto simp: eg_inv_def miov_wf_same)
  moreover have "\<forall>w \<in> set (free_list st). miov_clean (eg_miov st' w)"
    using assms(2) nin w by (metis eg_inv_def)
  ultimately show "eg_inv nv st' (Some v)"
    using assms v(2) len q unfolding eg_inv_def by (auto simp: moved_def)
  show "out_bytes st' = out_bytes st"
    unfolding out_bytes_def q using nin(2) w by (intro map_cong refl) (metis miov_bytes_same [OF same])
qed

lemma lists_set [eg_simps]:
  "free_list (set_start a n st) = free_list st" "out_list (set_start a n st) = out_list st"
  "free_list (set_left v l st) = free_list st" "out_list (set_left v l st) = out_list st"
  by (simp_all add: free_list_def out_list_def eg_simps)

lemma same_spaces_set: "same_spaces st (set_start a n st)" "same_spaces st (set_left v l st)"
  by (simp_all add: same_spaces_def eg_simps)

lemma miov_bytes_set [eg_simps]:
  "miov_bytes (set_start a n st) mi = miov_bytes st mi" "miov_bytes (set_left v l st) mi = miov_bytes st mi"
  by (simp_all add: miov_bytes_same [OF same_spaces_set(1)] miov_bytes_same [OF same_spaces_set(2)])

lemma miov_bytes_left [eg_simps]: "miov_bytes st (mi\<lparr>mi_left := l\<rparr>) = miov_bytes st mi"
  by (simp add: miov_bytes_def)

lemma miov_wf_set [eg_simps]:
  "miov_wf (set_start a n st) mi = miov_wf st mi" "miov_wf (set_left v l st) mi = miov_wf st mi"
  "miov_wf st (mi\<lparr>mi_left := l\<rparr>) = miov_wf st mi"
  by (simp_all only: miov_wf_same [OF same_spaces_set(1)] miov_wf_same [OF same_spaces_set(2)])
     (simp add: miov_wf_def eg_simps)

lemma out_bytes_set [eg_simps]:
  "out_bytes (set_start a n st) = out_bytes st" "out_bytes (set_left v l st) = out_bytes st"
  by (simp_all add: out_bytes_def eg_simps)

lemma refs_cong:
  "(\<And>w. miov_refs (eg_miov st' w) = miov_refs (eg_miov st w)) \<Longrightarrow> refs nv st' x = refs nv st x"
  by (simp add: refs_def)

lemma ref_inv_cong:
  assumes "\<And>w. miov_refs (eg_miov st' w) = miov_refs (eg_miov st w)"
    and "\<And>b. mb_refcnt (eg_mbuf st' b) = mb_refcnt (eg_mbuf st b)"
  shows "ref_base nv h st' = ref_base nv h st"
  by (simp add: ref_base_def refs_cong [OF assms(1)] assms(2))

lemma ref_inv_set [eg_simps]:
  "ref_base nv h (set_start a n st) = ref_base nv h st" "ref_base nv h (set_left v l st) = ref_base nv h st"
  by (rule ref_inv_cong; simp add: eg_simps miov_refs_def)+

lemma frame_set: "frame tb st (set_start tb n st)" "frame tb st (set_left v l st)"
  by (simp_all add: frame_def eg_simps same_spaces_def)

lemma eg_inv_set_start [eg_simps]: "eg_inv nv (set_start a n st) m = eg_inv nv st m"
  by (simp add: eg_inv_def eg_simps)

lemma eg_inv_set_left: "eg_inv nv st (Some v) \<Longrightarrow> eg_inv nv (set_left v l st) (Some v)"
  by (auto simp: eg_inv_def eg_simps)

lemma rest_set_left [eg_simps]: "rest (set_left v l st) tb = rest st tb"
  by (simp add: rest_def eg_simps)

lemma pop_free_inv:
  assumes "eg_inv nv st None" "free_list st \<noteq> []"
  shows "\<exists>v st'. pop_free st = Inr (v, st') \<and> eg_inv nv st' (Some v) \<and> miov_clean (eg_miov st' v) \<and>
     eg_mem st' = eg_mem st \<and> eg_outq st' = eg_outq st \<and> free_list st = free_list st' @ [v] \<and>
     vq_size (eg_iovfreeq st') = vq_size (eg_iovfreeq st) \<and> vq_freeq (eg_iovfreeq st') = vq_freeq (eg_iovfreeq st)"
proof -
  from assms(2) obtain xs v where fl: "free_list st = xs @ [v]" by (metis rev_exhaust)
  from assms(1) have "miovq_ok (eg_iovfreeq st)" by (simp add: eg_inv_def)
  from miovq_pop_top [OF this] fl obtain q where q: "miovq_pop (eg_iovfreeq st) = Inr (v, q)"
    "miovq_ok q" "miovq_contents q = xs" "vq_size q = vq_size (eg_iovfreeq st)" "vq_freeq q = vq_freeq (eg_iovfreeq st)"
    by (auto simp: free_list_def)
  let ?st = "st\<lparr>eg_iovfreeq := q\<rparr>"
  have f: "free_list ?st = xs" using q(3) by (simp add: free_list_def)
  have o: "out_list ?st = out_list st" by (simp add: out_list_def)
  have same: "same_spaces st ?st" by (simp add: same_spaces_def eg_mbuf_def)
  have mi: "eg_miov ?st w = eg_miov st w" for w by (simp add: eg_miov_def)
  have "eg_inv nv ?st (Some v)"
    using assms(1) q(2) unfolding eg_inv_def f fl o mi by (auto simp: miov_wf_same [OF same])
  moreover have "miov_clean (eg_miov ?st v)"
    using assms(1) unfolding eg_inv_def fl mi by auto
  ultimately show ?thesis
    using q(1,4,5) f fl by (intro exI [of _ v] exI [of _ ?st]) (simp add: pop_free_def)
qed

lemma push_out_inv:
  assumes "eg_inv nv st (Some v)"
  shows "\<exists>st'. push_out v st = Inr st' \<and> eg_inv nv st' None \<and> eg_mem st' = eg_mem st \<and>
     eg_iovfreeq st' = eg_iovfreeq st \<and> out_list st' = out_list st @ [v] \<and> frame tb st st'"
proof -
  have d: "distinct (v # out_list st)" "set (v # out_list st) \<subseteq> {..<nv}" "nv \<le> vq_size (eg_outq st)"
    and ok: "miovq_ok (eg_outq st)"
    using assms by (auto simp: eg_inv_def)
  have "length (v # out_list st) = card (set (v # out_list st))" using d(1) by (metis distinct_card)
  also have "\<dots> \<le> nv" using card_mono [OF _ d(2)] by simp
  finally have "length (miovq_contents (eg_outq st)) < vq_size (eg_outq st)"
    using d(3) by (simp add: out_list_def)
  from miovq_put_room [OF ok this, of v] obtain q where q: "miovq_put (eg_outq st) v =
      Inr (Suc (length (miovq_contents (eg_outq st))), q)" "miovq_ok q"
      "miovq_contents q = out_list st @ [v]" "vq_size q = vq_size (eg_outq st)" "vq_freeq q = vq_freeq (eg_outq st)"
    by (auto simp: out_list_def)
  let ?st = "st\<lparr>eg_outq := q\<rparr>"
  have p: "push_out v st = Inr ?st"
    using assms q(1) by (simp add: push_out_def miovq_push_def eg_inv_def)
  have o: "out_list ?st = out_list st @ [v]" using q(3) by (simp add: out_list_def)
  have f: "free_list ?st = free_list st" by (simp add: free_list_def)
  have same: "same_spaces st ?st" by (simp add: same_spaces_def eg_mbuf_def)
  have mi: "eg_miov ?st w = eg_miov st w" for w by (simp add: eg_miov_def)
  have "eg_inv nv ?st None"
    using assms q(2,4,5) unfolding eg_inv_def mi o f by (auto simp: miov_wf_same [OF same])
  moreover have "frame tb st ?st"
    using same q(4,5) by (simp add: frame_def eg_mbuf_def eg_miov_def)
  ultimately show ?thesis using p o by (intro exI [of _ ?st]) simp
qed

end
