(* ===== verification/Reassembly.thy ===== *)
theory Reassembly
  imports EgressSim
begin

text \<open>
  The simulation: one call of \<open>add_to_inner_packet\<close> does on the state what \<open>rx_packet\<close> does on
  byte lists, as long as enough free scatter lists are left; and it keeps the queues, the lists and
  the reference counts of the buffers consistent.
\<close>

section \<open>Pre- and postconditions\<close>

definition good_at :: "nat \<Rightarrow> (nat \<Rightarrow> u32) \<Rightarrow> nat \<Rightarrow> egress \<Rightarrow> nat option \<Rightarrow> bool" where
  "good_at nv h tb st m \<longleftrightarrow> eg_inv nv st m \<and> held_clean st m \<and> mbuf_wf (eg_mbuf st tb) \<and> ref_base nv h st"

abbreviation good :: "nat \<Rightarrow> nat \<Rightarrow> egress \<Rightarrow> nat option \<Rightarrow> bool" where
  "good nv tb \<equiv> good_at nv (own_ref tb) tb"

lemmas good_def = good_at_def

definition niov_of :: "egress \<Rightarrow> nat option \<Rightarrow> nat" where
  "niov_of st m = (case m of None \<Rightarrow> 0 | Some v \<Rightarrow> mi_niov (eg_miov st v))"

definition post_at :: "nat \<Rightarrow> (nat \<Rightarrow> u32) \<Rightarrow> nat \<Rightarrow> egress \<Rightarrow> nat option \<Rightarrow> bytes list \<Rightarrow> rx \<Rightarrow> nat option \<Rightarrow> egress \<Rightarrow> bool" where
  "post_at nv h tb st m ds r' m' st' \<longleftrightarrow> good_at nv h tb st' m' \<and> rest st' tb = [] \<and> rx_of st' m' = r' \<and>
     out_bytes st' = out_bytes st @ ds \<and> frame tb st st' \<and>
     length (free_list st') + length (held m') + length ds = length (free_list st) + length (held m) \<and>
     niov_of st' m' \<le> Suc (niov_of st m)"

abbreviation post :: "nat \<Rightarrow> nat \<Rightarrow> egress \<Rightarrow> nat option \<Rightarrow> bytes list \<Rightarrow> rx \<Rightarrow> nat option \<Rightarrow> egress \<Rightarrow> bool" where
  "post nv tb \<equiv> post_at nv (own_ref tb) tb"

lemmas post_def = post_at_def

lemma miov_wf_refs: "miov_wf st mi \<Longrightarrow> length (miov_refs mi) = mi_niov mi"
  by (simp add: miov_wf_def miov_refs_def)

lemma moved_niov:
  assumes "moved tb v k st st'" "miov_wf st (eg_miov st v)"
  shows "mi_niov (eg_miov st' v) = Suc (mi_niov (eg_miov st v))"
proof -
  from assms(1) have "miov_wf st' (eg_miov st' v)" by (simp add: moved_def)
  from miov_wf_refs [OF this] miov_wf_refs [OF assms(2)] assms(1) show ?thesis by (simp add: moved_def)
qed

lemma eg_inv_miov: "eg_inv nv st (Some v) \<Longrightarrow> miov_wf st (eg_miov st v) \<and> v < nv"
  by (auto simp: eg_inv_def)

lemma rx_of_simps:
  "rx_of st None = RxIdle"
  "mi_len (eg_miov st v) = 0 \<Longrightarrow> rx_of st (Some v) = RxIdle"
  "mi_len (eg_miov st v) \<noteq> 0 \<Longrightarrow> mi_left (eg_miov st v) \<le> 0 \<Longrightarrow>
     rx_of st (Some v) = RxShort (miov_bytes st (eg_miov st v))"
  "mi_len (eg_miov st v) \<noteq> 0 \<Longrightarrow> 0 < mi_left (eg_miov st v) \<Longrightarrow>
     rx_of st (Some v) = RxPartial (miov_bytes st (eg_miov st v)) (nat (mi_left (eg_miov st v)))"
  by (simp_all add: rx_of_def Let_def)

section \<open>The two kinds of pieces\<close>

lemma atip_more_eq:
  assumes inv: "eg_inv nv st (Some v)" and tb: "mbuf_wf (eg_mbuf st tb)"
    and room: "mi_niov (eg_miov st v) < length (mi_iov (eg_miov st v))"
    and k: "rest st tb \<noteq> []" "tlen = int (length (rest st tb))"
  shows "\<exists>st'. atip_more tb v tlen st = Inr st' \<and> moved tb v (length (rest st tb)) st st' \<and>
     mi_left (eg_miov st' v) = mi_left (eg_miov st v) - tlen"
proof -
  let ?k = "length (rest st tb)"
  have wf: "miov_wf st (eg_miov st v)" using eg_inv_miov [OF inv] by simp
  from add_piece_moved [OF wf room tb, of ?k] k(1) obtain st1 where
    1: "add_piece v tb (int ?k) st = Inr st1" "mi_left (eg_miov st1 v) = mi_left (eg_miov st v)"
      "mb_start (eg_mbuf st1 tb) = mb_start (eg_mbuf st tb)"
    and mv: "\<And>l. moved tb v ?k st (set_start tb (mb_start (eg_mbuf st tb) + ?k) (set_left v l st1))"
    by auto
  let ?st = "set_start tb (mb_start (eg_mbuf st tb) + ?k) (set_left v (mi_left (eg_miov st v) - tlen) st1)"
  have "rest ?st tb = []" "mbuf_wf (eg_mbuf ?st tb)" using mv by (auto simp: moved_def)
  then have "MBUF_LEN (eg_mbuf ?st tb) = 0" using MBUF_LEN_rest by simp
  then have "atip_more tb v tlen st = Inr ?st"
    using 1 k(2) by (simp add: atip_more_def eg_simps)
  then show ?thesis using mv by (auto simp: eg_simps)
qed

lemma atip_complete_eq:
  assumes inv: "eg_inv nv st (Some v)" and tb: "mbuf_wf (eg_mbuf st tb)" and ref: "ref_base nv h st"
    and room: "mi_niov (eg_miov st v) < length (mi_iov (eg_miov st v))"
    and k: "mi_left (eg_miov st v) = int k" "0 < k" "k \<le> length (rest st tb)"
  shows "\<exists>st'. atip_complete tb v st = Inr st' \<and> eg_inv nv st' None \<and> mbuf_wf (eg_mbuf st' tb) \<and>
     ref_base nv h st' \<and> rest st' tb = drop k (rest st tb) \<and> frame tb st st' \<and>
     out_bytes st' = out_bytes st @ [miov_bytes st (eg_miov st v) @ take k (rest st tb)] \<and>
     free_list st' = free_list st"
proof -
  have wf: "miov_wf st (eg_miov st v)" "v < nv" using eg_inv_miov [OF inv] by auto
  from add_piece_moved [OF wf(1) room tb k(2,3)] obtain st1 where
    1: "add_piece v tb (int k) st = Inr st1" "mb_start (eg_mbuf st1 tb) = mb_start (eg_mbuf st tb)"
    and mv: "\<And>l. moved tb v k st (set_left v l (set_start tb (mb_start (eg_mbuf st tb) + k) st1))"
    by auto
  define st2 where "st2 = set_left v 0 (set_start tb (mb_start (eg_mbuf st tb) + k) st1)"
  have mv2: "moved tb v k st st2" using mv by (simp add: st2_def)
  have inv2: "eg_inv nv st2 (Some v)" "out_bytes st2 = out_bytes st" "free_list st2 = free_list st"
    using eg_inv_moved [OF mv2 inv k(2)] by auto
  from push_out_inv [OF inv2(1), of tb] obtain st3 where
    3: "push_out v st2 = Inr st3" "eg_inv nv st3 None" "eg_mem st3 = eg_mem st2"
      "eg_iovfreeq st3 = eg_iovfreeq st2" "out_list st3 = out_list st2 @ [v]" "frame tb st2 st3" by auto
  have same: "same_spaces st2 st3" and mi: "eg_miov st3 = eg_miov st2" and mb: "eg_mbuf st3 = eg_mbuf st2"
    using 3(3) by (auto simp: same_spaces_def eg_miov_def eg_mbuf_def fun_eq_iff)
  have "out_bytes st3 = out_bytes st2 @ [miov_bytes st2 (eg_miov st2 v)]"
    by (simp add: out_bytes_def 3(5) mi miov_bytes_same [OF same])
  moreover have "ref_base nv h st3" using ref_inv_moved [OF mv2 wf(2) ref] mi mb by (simp add: ref_base_def refs_def)
  moreover have "atip_complete tb v st = Inr st3"
    using 1 3(1) k(1) by (simp add: atip_complete_def st2_def)
  ultimately show ?thesis
    using 3 mv2 inv2 frame_trans [OF moved_frame [OF mv2] 3(6)] mi mb
    by (auto simp: moved_def rest_def free_list_def)
qed

section \<open>Composing postconditions\<close>

lemma post_after:
  assumes "post_at nv h tb st1 m1 ds r' m' st'" "frame tb st st1" "out_bytes st1 = out_bytes st @ ds0"
    and "length (free_list st1) + length (held m1) + length ds0 = length (free_list st) + length (held m)"
    and "niov_of st1 m1 \<le> niov_of st m"
  shows "post_at nv h tb st m (ds0 @ ds) r' m' st'"
  using assms frame_trans unfolding post_at_def by auto

text \<open>How a call ends: with its postcondition, or waiting for a free list it does not get.\<close>

definition outcome :: "nat \<Rightarrow> (nat \<Rightarrow> u32) \<Rightarrow> nat \<Rightarrow> egress \<Rightarrow> nat option \<Rightarrow> bytes list \<Rightarrow> rx \<Rightarrow> (nat option \<times> egress) res \<Rightarrow> bool" where
  "outcome nv h tb st m ds r' res \<longleftrightarrow>
     (\<exists>m' st'. res = Inr (m', st') \<and> post_at nv h tb st m ds r' m' st') \<or>
     (res = Inl Blocked \<and> length (free_list st) + length (held m) \<le> length ds)"

lemma outcome_Inr [simp]: "outcome nv h tb st m ds r' (Inr (m', st')) = post_at nv h tb st m ds r' m' st'"
  by (simp add: outcome_def)

lemma outcome_after:
  assumes "outcome nv h tb st1 m1 ds r' res" "frame tb st st1" "out_bytes st1 = out_bytes st @ ds0"
    and "length (free_list st1) + length (held m1) + length ds0 = length (free_list st) + length (held m)"
    and "niov_of st1 m1 \<le> niov_of st m"
  shows "outcome nv h tb st m (ds0 @ ds) r' res"
  using assms post_after [OF _ assms(2-5)] unfolding outcome_def by fastforce

lemma post_moved:
  assumes mv: "moved tb v (length (rest st tb)) st st'" and inv: "eg_inv nv st (Some v)" and ref: "ref_base nv h st"
    and ne: "rest st tb \<noteq> []"
    and r: "r' = (if mi_left (eg_miov st' v) \<le> 0 then RxShort (miov_bytes st (eg_miov st v) @ rest st tb)
      else RxPartial (miov_bytes st (eg_miov st v) @ rest st tb) (nat (mi_left (eg_miov st' v))))"
  shows "post_at nv h tb st (Some v) [] r' (Some v) st'"
proof -
  have wf: "miov_wf st (eg_miov st v)" "v < nv" using eg_inv_miov [OF inv] by auto
  have k: "0 < length (rest st tb)" using ne by simp
  have "0 \<le> mi_len (eg_miov st v)" using wf(1) by (simp add: miov_wf_def)
  moreover have "mi_len (eg_miov st' v) = mi_len (eg_miov st v) + int (length (rest st tb))"
    using mv by (simp add: moved_def)
  ultimately have len: "mi_len (eg_miov st' v) \<noteq> 0" using k by linarith
  have bytes: "miov_bytes st' (eg_miov st' v) = miov_bytes st (eg_miov st v) @ rest st tb"
    using mv by (simp add: moved_def)
  have "rx_of st' (Some v) = r'" using len bytes r by (auto simp: rx_of_simps)
  moreover have "good_at nv h tb st' (Some v)"
    using eg_inv_moved(1) [OF mv inv k] ref_inv_moved [OF mv wf(2) ref] len mv
    by (simp add: good_at_def held_clean_def moved_def)
  ultimately show ?thesis
    using eg_inv_moved(2,3) [OF mv inv k] moved_frame [OF mv] moved_niov [OF mv wf(1)] mv
    by (simp add: post_at_def moved_def niov_of_def)
qed

lemma post_skip:
  assumes "good_at nv h tb st m" "rx_of st m = RxIdle"
  shows "post_at nv h tb st m [] RxIdle m (set_start tb (mb_end (eg_mbuf st tb)) st)"
  using assms frame_set(1)
  by (auto simp: post_at_def good_at_def rest_def eg_simps mbuf_bytes_end held_clean_def rx_of_def niov_of_def
      mbuf_wf_def Let_def split: option.splits if_splits)

section \<open>From the branches to the end of a call\<close>

text \<open>How one round ends: with the call's postcondition, or one inner packet further before a recursive call.\<close>

definition round_ok :: "nat \<Rightarrow> (nat \<Rightarrow> u32) \<Rightarrow> nat \<Rightarrow> egress \<Rightarrow> nat \<Rightarrow> bytes list \<Rightarrow> rx \<Rightarrow> (atip_end \<times> egress) res \<Rightarrow> bool" where
  "round_ok nv h tb st v ds r' res \<longleftrightarrow>
     (\<exists>m' st'. res = Inr (Done m', st') \<and> post_at nv h tb st (Some v) ds r' m' st') \<or>
     (\<exists>st' p ds'. res = Inr (Recurse, st') \<and> ds = p # ds' \<and> good_at nv h tb st' None \<and> rest st' tb \<noteq> [] \<and>
        length (rest st' tb) < length (rest st tb) \<and> rx_blocks (rest st' tb) = (ds', r') \<and>
        out_bytes st' = out_bytes st @ [p] \<and> frame tb st st' \<and> length (free_list st') = length (free_list st))"

lemma round_ok_Done [simp]: "round_ok nv h tb st v ds r' (Inr (Done m', st')) = post_at nv h tb st (Some v) ds r' m' st'"
  by (simp add: round_ok_def)

lemma round_ok_after:
  assumes "round_ok nv h tb st1 v ds r' res" "frame tb st st1" "out_bytes st1 = out_bytes st"
    and "length (free_list st1) = length (free_list st)" "mi_niov (eg_miov st1 v) \<le> mi_niov (eg_miov st v)"
    and "length (rest st1 tb) \<le> length (rest st tb)"
  shows "round_ok nv h tb st v ds r' res"
  using assms post_after [OF _ assms(2), where ?ds0.0 = "[]" and m = "Some v"] frame_trans [OF assms(2)]
  unfolding round_ok_def by (fastforce simp: niov_of_def)

definition atip_from :: "nat \<Rightarrow> nat \<Rightarrow> nat \<Rightarrow> int \<Rightarrow> int \<Rightarrow> egress \<Rightarrow> (nat option \<times> egress) res" where
  "atip_from n tb v off tlen st =
     bindE (atip_round tb v off tlen st) (\<lambda>(e, st2).
       case e of Done m' \<Rightarrow> Inr (m', st2) | Recurse \<Rightarrow> atip n tb False None st2)"

lemma atip_Suc:
  "atip (Suc n) tb new m st =
     bindE (atip_enter tb new m st) (\<lambda>(v, offset, tlen, st1). atip_from n tb v offset tlen st1)"
  unfolding atip_from_def by simp

text \<open>The claim about the recursive call, for a buffer whose rest starts with an inner packet.\<close>

definition rec_ok :: "nat \<Rightarrow> (nat \<Rightarrow> u32) \<Rightarrow> nat \<Rightarrow> nat \<Rightarrow> bool" where
  "rec_ok nv h tb n \<longleftrightarrow> (\<forall>st ds r'. good_at nv h tb st None \<and> rest st tb \<noteq> [] \<and> length (rest st tb) < n \<and>
     length (rest st tb) < 65536 \<and> rx_blocks (rest st tb) = (ds, r') \<longrightarrow>
     outcome nv h tb st None ds r' (atip n tb False None st))"

lemma atip_from_Inl: "atip_round tb v off tlen st = Inl e \<Longrightarrow> atip_from n tb v off tlen st = Inl e"
  by (simp add: atip_from_def)

lemma atip_from_outcome:
  assumes "round_ok nv h tb st v ds r' (atip_round tb v off tlen st)" "rec_ok nv h tb n"
    and "length (rest st tb) \<le> n" "length (rest st tb) < 65536"
  shows "outcome nv h tb st (Some v) ds r' (atip_from n tb v off tlen st)"
proof -
  from assms(1) consider (fin) m' st' where "atip_round tb v off tlen st = Inr (Done m', st')"
      "post_at nv h tb st (Some v) ds r' m' st'"
    | (again) st' p ds' where "atip_round tb v off tlen st = Inr (Recurse, st')" "ds = p # ds'" "good_at nv h tb st' None"
      "rest st' tb \<noteq> []" "length (rest st' tb) < length (rest st tb)" "rx_blocks (rest st' tb) = (ds', r')"
      "out_bytes st' = out_bytes st @ [p]" "frame tb st st'" "length (free_list st') = length (free_list st)"
    unfolding round_ok_def by blast
  then show ?thesis
  proof cases
    case again
    then have "length (rest st' tb) < n" "length (rest st' tb) < 65536" using assms by auto
    then have "outcome nv h tb st' None ds' r' (atip n tb False None st')"
      using assms(2) again unfolding rec_ok_def by blast
    from outcome_after [OF this again(8), of "[p]" "Some v"] again show ?thesis
      by (simp add: atip_from_def niov_of_def)
  qed (simp add: atip_from_def)
qed

lemma u16_of_id [simp]: "0 \<le> x \<Longrightarrow> x < 65536 \<Longrightarrow> u16_of x = x"
  by (simp add: u16_of_def)

lemma good_None: "good_at nv h tb st None \<longleftrightarrow> eg_inv nv st None \<and> mbuf_wf (eg_mbuf st tb) \<and> ref_base nv h st"
  by (simp add: good_at_def held_clean_def)

lemma atip_finish_complete:
  assumes inv: "eg_inv nv st (Some v)" and tb: "mbuf_wf (eg_mbuf st tb)" and ref: "ref_base nv h st"
    and room: "mi_niov (eg_miov st v) < length (mi_iov (eg_miov st v))"
    and k: "mi_left (eg_miov st v) = int k" "0 < k" "k \<le> length (rest st tb)" "int k \<le> tlen"
    and small: "length (rest st tb) < 65536" and b: "rx_blocks (drop k (rest st tb)) = (ds, r')"
  shows "round_ok nv h tb st v ((miov_bytes st (eg_miov st v) @ take k (rest st tb)) # ds) r' (atip_finish tb v tlen st)"
proof -
  let ?p = "miov_bytes st (eg_miov st v) @ take k (rest st tb)"
  from atip_complete_eq [OF inv tb ref room k(1-3)] obtain st1 where
    1: "atip_complete tb v st = Inr st1" "frame tb st st1" "out_bytes st1 = out_bytes st @ [?p]"
      "free_list st1 = free_list st" "rest st1 tb = drop k (rest st tb)" and g: "good_at nv h tb st1 None"
    by (auto simp: good_None)
  have len: "MBUF_LEN (eg_mbuf st1 tb) = int (length (rest st tb) - k)"
    using MBUF_LEN_rest g 1(5) by (simp add: good_at_def)
  have u: "u16_of (int (length (rest st tb) - k)) = int (length (rest st tb) - k)" using small by simp
  show ?thesis
  proof (cases "drop k (rest st tb) = []")
    case True
    then have "atip_finish tb v tlen st = Inr (Done None, st1)"
      using 1(1) k len u by (simp add: atip_finish_def Let_def)
    moreover have "post_at nv h tb st (Some v) [?p] RxIdle None st1"
      using 1 g True by (simp add: post_at_def rx_of_simps niov_of_def)
    ultimately show ?thesis using b True by auto
  next
    case False
    then have "atip_finish tb v tlen st = Inr (Recurse, st1)"
      using 1(1) k len u by (simp add: atip_finish_def Let_def)
    then show ?thesis using 1 g False b k by (simp add: round_ok_def)
  qed
qed

section \<open>A new inner packet\<close>

lemma rest_skip:
  assumes "mbuf_wf (eg_mbuf st tb)" "k \<le> length (rest st tb)"
  shows "rest (set_start tb (mb_start (eg_mbuf st tb) + k) st) tb = drop k (rest st tb)"
    "mbuf_wf (eg_mbuf (set_start tb (mb_start (eg_mbuf st tb) + k) st) tb)"
  using mbuf_bytes_skip [OF assms(1)] assms(2) by (simp_all add: rest_def eg_simps)

lemma rest_nth:
  assumes "mbuf_wf b" "i < length (mbuf_bytes b)"
  shows "mb_space b ! (mb_start b + i) = mbuf_bytes b ! i"
  using assms by (simp add: mbuf_bytes_def mbuf_wf_def subseg_nth)

lemma rest_get16:
  assumes "mbuf_wf b" "i + 2 \<le> length (mbuf_bytes b)"
  shows "get16 (mb_space b) (mb_start b + i) = get16 (mbuf_bytes b) i"
  using assms by (simp add: mbuf_bytes_def mbuf_wf_def w16.get_subseg)

text \<open>What the code reads of the first bytes is the specification's \<open>is_pad\<close> and \<open>block_len\<close>.\<close>

lemma fresh_reads:
  fixes st tb off
  defines "b \<equiv> eg_mbuf st tb" and "d \<equiv> drop off (rest st tb)"
  assumes "mbuf_wf b" "off < length (rest st tb)"
  shows "mb_space b ! (mb_start b + off) = d ! 0"
    and "(let vnib = d ! 0 AND 0xF0; tlen = int (length d)
          in if vnib = 0x40 then (if tlen \<ge> 4 then uint (get16 (mb_space b) (mb_start b + off + 2)) else 0)
             else if vnib = 0x60 then (if tlen \<ge> 6 then uint (get16 (mb_space b) (mb_start b + off + 4)) else 0)
             else 0) = int (block_len d)"
proof -
  let ?b = "b\<lparr>mb_start := mb_start b + off\<rparr>"
  have d: "mbuf_bytes ?b = d" and wf: "mbuf_wf ?b"
    using mbuf_bytes_skip [OF assms(3), of off] assms(4) by (simp_all add: b_def d_def rest_def)
  have "d \<noteq> []" using assms(4) by (simp add: d_def)
  with rest_nth [OF wf, of 0] show "mb_space b ! (mb_start b + off) = d ! 0" unfolding d by simp
  have "i + 2 \<le> length d \<Longrightarrow> get16 (mb_space b) (mb_start b + off + i) = get16 d i" for i
    using rest_get16 [OF wf, of i] unfolding d by simp
  from this [of 2] this [of 4]
  show "(let vnib = d ! 0 AND 0xF0; tlen = int (length d)
          in if vnib = 0x40 then (if tlen \<ge> 4 then uint (get16 (mb_space b) (mb_start b + off + 2)) else 0)
             else if vnib = 0x60 then (if tlen \<ge> 6 then uint (get16 (mb_space b) (mb_start b + off + 4)) else 0)
             else 0) = int (block_len d)"
    by (simp add: block_len_def Let_def)
qed

lemma atip_fresh_eq:
  fixes st tb off v
  defines "d \<equiv> drop off (rest st tb)" and "s1 \<equiv> set_start tb (mb_start (eg_mbuf st tb) + off) st"
  assumes tb: "mbuf_wf (eg_mbuf st tb)" and off: "off < length (rest st tb)" "length (rest st tb) < 65536"
  shows "atip_fresh tb v (int off) (int (length (rest st tb))) st =
    (if is_pad d then Inr (Return (Some v), set_start tb (mb_end (eg_mbuf st tb)) s1)
     else if block_len d = 0
     then bindE (add_piece v tb (int (length d)) s1) (\<lambda>st2.
          let st3 = set_start tb (mb_start (eg_mbuf st2 tb) + length d) st2
          in bindE (requireE Assertion (MBUF_LEN (eg_mbuf st3 tb) = 0)) (\<lambda>_. Inr (Return (Some v), st3)))
     else Inr (Go (int (length d)), set_left v (int (block_len d)) s1))"
proof -
  have tlen: "u16_of (int (length (rest st tb)) - int off) = int (length d)"
    using off by (simp add: d_def)
  have start: "mb_start (eg_mbuf st tb) + nat (int off) = mb_start (eg_mbuf st tb) + off" by simp
  have "rest s1 tb = d" "mbuf_wf (eg_mbuf s1 tb)" using rest_skip [OF tb, of off] off by (simp_all add: s1_def d_def)
  then have len: "MBUF_LEN (eg_mbuf (set_left v l s1) tb) = int (length d)" for l
    using MBUF_LEN_rest by (simp add: eg_simps)
  have pad: "is_pad d \<Longrightarrow> block_len d = 0" by (simp add: is_pad_def block_len_def)
  note reads = fresh_reads [OF tb off(1), folded d_def]
  show ?thesis
    unfolding atip_fresh_def Let_def tlen start reads(1) s1_def [symmetric]
    using off(1) reads(2) [unfolded Let_def] len pad
    by (auto simp: is_pad_def)
qed

lemma good_set_start:
  assumes "good_at nv h tb st (Some v)" "off \<le> length (rest st tb)"
  shows "good_at nv h tb (set_start tb (mb_start (eg_mbuf st tb) + off) st) (Some v)"
  using assms rest_skip(2) [of st tb off] by (simp add: good_at_def held_clean_def eg_simps)

lemma round_ok_start:
  assumes "round_ok nv h tb (set_start tb k st) v ds r' res" "length (rest (set_start tb k st) tb) \<le> length (rest st tb)"
  shows "round_ok nv h tb st v ds r' res"
  using round_ok_after [OF assms(1) _ _ _ _ assms(2)] frame_set(1) by (simp add: eg_simps)

lemma fresh_whole:
  assumes g: "good_at nv h tb st (Some v)" and clean: "miov_clean (eg_miov st v)"
    and d: "rest st tb = d" "d \<noteq> []" "\<not> is_pad d" "block_len d \<noteq> 0" and small: "length d < 65536"
    and b: "rx_blocks d = (ds, r')"
  shows "round_ok nv h tb st v ds r' (atip_finish tb v (int (length d)) (set_left v (int (block_len d)) st))"
proof -
  let ?st = "set_left v (int (block_len d)) st"
  have inv: "eg_inv nv ?st (Some v)" and tb: "mbuf_wf (eg_mbuf ?st tb)" and ref: "ref_base nv h ?st"
    using g by (auto simp: good_at_def eg_inv_set_left eg_simps)
  have c: "miov_bytes ?st (eg_miov ?st v) = []" "mi_niov (eg_miov ?st v) < length (mi_iov (eg_miov ?st v))"
    "mi_left (eg_miov ?st v) = int (block_len d)"
    using clean g by (auto simp: eg_simps miov_bytes_clean miov_clean_def good_at_def eg_inv_def)
  have d': "rest ?st tb = d" using d by (simp add: eg_simps)
  have "round_ok nv h tb ?st v ds r' (atip_finish tb v (int (length d)) ?st)"
  proof (cases "length d < block_len d")
    case True
    from atip_more_eq [OF inv tb c(2), of "int (length d)"] d' d(2) obtain st1 where
      1: "atip_more tb v (int (length d)) ?st = Inr st1" "moved tb v (length d) ?st st1"
        "mi_left (eg_miov st1 v) = int (block_len d) - int (length d)"
      using c(3) by auto
    have r: "ds = []" "r' = RxPartial d (block_len d - length d)"
      using b True d by (auto simp: rx_blocks.simps [of d])
    have "post_at nv h tb ?st (Some v) [] r' (Some v) st1"
      by (rule post_moved [OF _ inv ref]) (use 1 d d' c r True in \<open>auto simp: nat_diff_distrib\<close>)
    moreover have "atip_finish tb v (int (length d)) ?st = Inr (Done (Some v), st1)"
      using 1(1) c(3) True by (simp add: atip_finish_def)
    ultimately show ?thesis using r by simp
  next
    case False
    obtain ds' where ds: "ds = take (block_len d) d # ds'" "rx_blocks (drop (block_len d) d) = (ds', r')"
      using b False d by (cases "rx_blocks (drop (block_len d) d)") (auto simp: rx_blocks.simps [of d] Let_def)
    from atip_finish_complete [OF inv tb ref c(2,3), of "int (length d)" ds' r']
    show ?thesis using False d(4) d' small ds by (simp add: c(1))
  qed
  then show ?thesis
    using round_ok_after [of nv h tb ?st v ds r' _ st] frame_set(2) by (simp add: eg_simps)
qed

lemma round_fresh:
  assumes g: "good_at nv h tb st (Some v)" and len: "mi_len (eg_miov st v) = 0"
    and off: "off < length (rest st tb)" "length (rest st tb) < 65536"
    and b: "rx_blocks (drop off (rest st tb)) = (ds, r')"
  shows "round_ok nv h tb st v ds r' (atip_round tb v (int off) (int (length (rest st tb))) st)"
proof -
  let ?s1 = "set_start tb (mb_start (eg_mbuf st tb) + off) st" and ?d = "drop off (rest st tb)"
  have tb: "mbuf_wf (eg_mbuf st tb)" using g by (simp add: good_at_def)
  have g1: "good_at nv h tb ?s1 (Some v)" using good_set_start [OF g, of off] off by simp
  have clean: "miov_clean (eg_miov ?s1 v)" using g len by (simp add: good_at_def held_clean_def eg_simps)
  have d: "rest ?s1 tb = ?d" "?d \<noteq> []" using rest_skip(1) [OF tb, of off] off by auto
  note fr = atip_fresh_eq [OF tb off, of v]
  have from_eq: "atip_round tb v (int off) (int (length (rest st tb))) st =
     bindE (atip_fresh tb v (int off) (int (length (rest st tb))) st) (\<lambda>(nx, st2).
       case nx of Return m' \<Rightarrow> Inr (Done m', st2) | Go tlen' \<Rightarrow> atip_finish tb v tlen' st2)"
    using len by (simp add: atip_round_def atip_branch_def)
  consider "is_pad ?d" | "\<not> is_pad ?d" "block_len ?d = 0" | "\<not> is_pad ?d" "block_len ?d \<noteq> 0" by blast
  then have "round_ok nv h tb ?s1 v ds r' (atip_round tb v (int off) (int (length (rest st tb))) st)"
  proof cases
    case 1
    have "post_at nv h tb ?s1 (Some v) [] RxIdle (Some v) (set_start tb (mb_end (eg_mbuf ?s1 tb)) ?s1)"
      by (rule post_skip [OF g1]) (simp add: rx_of_simps eg_simps len)
    then show ?thesis using fr 1 b d by (simp add: from_eq rx_blocks.simps [of ?d] eg_simps)
  next
    case 2
    have inv: "eg_inv nv ?s1 (Some v)" and ref: "ref_base nv h ?s1" and tb1: "mbuf_wf (eg_mbuf ?s1 tb)"
      using g1 by (auto simp: good_at_def)
    have c: "miov_bytes ?s1 (eg_miov ?s1 v) = []" "mi_niov (eg_miov ?s1 v) < length (mi_iov (eg_miov ?s1 v))"
      "mi_left (eg_miov ?s1 v) = 0" "miov_wf ?s1 (eg_miov ?s1 v)"
      using clean inv miov_bytes_clean by (auto simp: miov_clean_def eg_inv_def)
    from add_piece_moved [OF c(4,2) tb1, of "length ?d"] d obtain st2 where
      2: "add_piece v tb (int (length ?d)) ?s1 = Inr st2" "mi_left (eg_miov st2 v) = 0"
        "mb_start (eg_mbuf st2 tb) = mb_start (eg_mbuf ?s1 tb)"
      and mv: "moved tb v (length ?d) ?s1 (set_start tb (mb_start (eg_mbuf ?s1 tb) + length ?d) st2)"
      using c(3) by auto
    let ?st3 = "set_start tb (mb_start (eg_mbuf ?s1 tb) + length ?d) st2"
    have "rest ?st3 tb = []" "mbuf_wf (eg_mbuf ?st3 tb)" using mv d by (auto simp: moved_def)
    then have "MBUF_LEN (eg_mbuf ?st3 tb) = 0" using MBUF_LEN_rest by simp
    then have "atip_round tb v (int off) (int (length (rest st tb))) st = Inr (Done (Some v), ?st3)"
      using fr \<open>\<not> is_pad ?d\<close> \<open>block_len ?d = 0\<close> 2 by (simp add: from_eq Let_def)
    moreover have "post_at nv h tb ?s1 (Some v) [] (RxShort ?d) (Some v) ?st3"
      by (rule post_moved [OF _ inv ref]) (use mv d c 2(2) in \<open>auto simp: eg_simps\<close>)
    ultimately show ?thesis
      using b d \<open>\<not> is_pad ?d\<close> \<open>block_len ?d = 0\<close> by (simp add: rx_blocks.simps [of ?d])
  next
    case 3
    have "length ?d < 65536" using off by auto
    from fresh_whole [OF g1 clean d 3 this b] show ?thesis using fr 3 by (simp add: from_eq)
  qed
  moreover have "length (rest ?s1 tb) \<le> length (rest st tb)" using d(1) by simp
  ultimately show ?thesis by (rule round_ok_start)
qed

section \<open>Entering a call\<close>

lemma pop_free_good:
  assumes g: "good_at nv h tb st None" and free: "free_list st \<noteq> []"
  shows "\<exists>v st'. pop_free st = Inr (v, st') \<and> good_at nv h tb st' (Some v) \<and> miov_clean (eg_miov st' v) \<and>
    eg_mem st' = eg_mem st \<and> rest st' tb = rest st tb \<and> free_list st = free_list st' @ [v] \<and>
    out_bytes st' = out_bytes st \<and> frame tb st st'"
proof -
  have inv: "eg_inv nv st None" using g by (simp add: good_at_def)
  from pop_free_inv [OF inv free] obtain v st' where
    1: "pop_free st = Inr (v, st')" "eg_inv nv st' (Some v)" "miov_clean (eg_miov st' v)"
      "eg_mem st' = eg_mem st" "eg_outq st' = eg_outq st" "free_list st = free_list st' @ [v]"
      "vq_size (eg_iovfreeq st') = vq_size (eg_iovfreeq st)" "vq_freeq (eg_iovfreeq st') = vq_freeq (eg_iovfreeq st)"
    by blast
  have eq: "eg_miov st' = eg_miov st" "eg_mbuf st' = eg_mbuf st"
    using 1(4) by (auto simp: eg_miov_def eg_mbuf_def fun_eq_iff)
  then have same: "same_spaces st st'" by (simp add: same_spaces_def)
  have "good_at nv h tb st' (Some v)"
    using g 1(2,3) eq by (simp add: good_at_def held_clean_def ref_base_def refs_def)
  moreover have "out_bytes st' = out_bytes st"
    by (simp add: out_bytes_def out_list_def 1(5) eq miov_bytes_same [OF same])
  moreover have "frame tb st st'" using same eq 1(4,5,7,8) by (simp add: frame_def)
  ultimately show ?thesis using 1 eq by (auto simp: rest_def)
qed

lemma pop_free_empty: "eg_inv nv st None \<Longrightarrow> free_list st = [] \<Longrightarrow> pop_free st = Inl Blocked"
  by (auto simp: pop_free_def eg_inv_def free_list_def miovq_abs_defs miovq_pop_def)

lemma outcome_popped:
  assumes "outcome nv h tb st1 (Some v) ds r' res" "miov_clean (eg_miov st1 v)" "free_list st = free_list st1 @ [v]"
    and "out_bytes st1 = out_bytes st" "frame tb st st1"
  shows "outcome nv h tb st None ds r' res"
  using outcome_after [OF assms(1,5), of "[]" None] assms by (simp add: niov_of_def miov_clean_def)

text \<open>Entering a recursive call.\<close>

lemma atip_enter_again:
  assumes g: "good_at nv h tb st None" and ne: "rest st tb \<noteq> []" "length (rest st tb) < 65536"
  shows "if free_list st = [] then atip_enter tb False None st = Inl Blocked
    else \<exists>v st1. atip_enter tb False None st = Inr (v, 0, int (length (rest st tb)), st1) \<and>
      good_at nv h tb st1 (Some v) \<and> miov_clean (eg_miov st1 v) \<and> rest st1 tb = rest st tb \<and>
      free_list st = free_list st1 @ [v] \<and> out_bytes st1 = out_bytes st \<and> frame tb st st1"
proof -
  have L: "MBUF_LEN (eg_mbuf st tb) = int (length (rest st tb))" using MBUF_LEN_rest g by (simp add: good_at_def)
  show ?thesis
  proof (cases "free_list st = []")
    case True
    then have "pop_free st = Inl Blocked" using g by (intro pop_free_empty [of nv]) (simp_all add: good_None)
    then show ?thesis using True L ne by (simp add: atip_enter_def Let_def)
  next
    case False
    from pop_free_good [OF g this] obtain v st1 where
      1: "pop_free st = Inr (v, st1)" "good_at nv h tb st1 (Some v)" "miov_clean (eg_miov st1 v)"
        "eg_mem st1 = eg_mem st" "rest st1 tb = rest st tb" "free_list st = free_list st1 @ [v]"
        "out_bytes st1 = out_bytes st" "frame tb st st1" by blast
    then have "MBUF_LEN (eg_mbuf st1 tb) = int (length (rest st tb))" using L by (simp add: eg_mbuf_def)
    then have "atip_enter tb False None st = Inr (v, 0, int (length (rest st tb)), st1)"
      using 1(1) L ne by (simp add: atip_enter_def)
    then show ?thesis using 1 False by auto
  qed
qed

lemma rec_ok_all: "rec_ok nv h tb n"
proof (induction n)
  case 0
  show ?case by (simp add: rec_ok_def)
next
  case (Suc n)
  have "outcome nv h tb st None ds r' (atip (Suc n) tb False None st)"
    if g: "good_at nv h tb st None" and ne: "rest st tb \<noteq> []" and len: "length (rest st tb) < Suc n"
      "length (rest st tb) < 65536" and b: "rx_blocks (rest st tb) = (ds, r')" for st ds r'
  proof (cases "free_list st = []")
    case True
    then show ?thesis using atip_enter_again [OF g ne len(2)] by (simp add: atip_Suc outcome_def del: atip.simps)
  next
    case False
    with atip_enter_again [OF g ne len(2)] obtain v st1 where
      1: "atip_enter tb False None st = Inr (v, 0, int (length (rest st tb)), st1)" "good_at nv h tb st1 (Some v)"
        "miov_clean (eg_miov st1 v)" "rest st1 tb = rest st tb" "free_list st = free_list st1 @ [v]"
        "out_bytes st1 = out_bytes st" "frame tb st st1" by auto
    then have "atip (Suc n) tb False None st = atip_from n tb v 0 (int (length (rest st tb))) st1"
      by (simp add: atip_Suc del: atip.simps)
    moreover have "outcome nv h tb st1 (Some v) ds r' (atip_from n tb v 0 (int (length (rest st tb))) st1)"
      using round_fresh [OF 1(2), of 0 ds r'] 1 ne len b by (intro atip_from_outcome [OF _ Suc.IH]) (auto simp: miov_clean_def)
    ultimately show ?thesis using outcome_popped 1 by simp
  qed
  then show ?case unfolding rec_ok_def by blast
qed

section \<open>A whole tunnel packet\<close>

lemma getiplen_aborts:
  assumes "iov_base (mi_iov (eg_miov st v) ! 0) = PBuf a i" "i < length (mb_space (eg_mbuf st a))"
  shows "getiplen st v tb = Inl Assertion"
proof -
  let ?b = "mb_space (eg_mbuf st a) ! i"
  have b: "bit (?b AND 0xF0) k = (bit ?b k \<and> bit (0xF0 :: u8) k)" for k by (simp add: bit_and_iff)
  have "\<not> bit (0xF0 :: u8) 2" by (simp add: bit_numeral_rec)
  with b [of 2] have "?b AND 0xF0 \<noteq> 4" "?b AND 0xF0 \<noteq> 6" by (auto simp: bit_numeral_rec)
  then show ?thesis using assms by (simp add: getiplen_def iov_first_byte_def Let_def eg_miov_def eg_mbuf_def)
qed

lemma getiplen_short:
  assumes "miov_wf st (eg_miov st v)" "mi_len (eg_miov st v) \<noteq> 0"
  shows "getiplen st v tb = Inl Assertion"
proof -
  from assms have "mi_niov (eg_miov st v) \<noteq> 0"
    by (cases "mi_niov (eg_miov st v) = 0") (simp_all add: miov_wf_def miov_bytes_def)
  with assms(1) have "seg_bytes st (mi_iov (eg_miov st v) ! 0) \<noteq> []" by (simp add: miov_wf_def)
  then obtain a i where "iov_base (mi_iov (eg_miov st v) ! 0) = PBuf a i" "i < length (mb_space (eg_mbuf st a))"
    by (auto simp: seg_bytes_def subseg_def split: ptr.splits)
  then show ?thesis by (rule getiplen_aborts)
qed

lemma round_held:
  assumes g: "good_at nv h tb st (Some v)" and room: "mi_niov (eg_miov st v) < length (mi_iov (eg_miov st v))"
    and P: "rest st tb \<noteq> []" "length (rest st tb) < 65536"
    and rx: "rx_packet off (rest st tb) (rx_of st (Some v)) = Inr (ds, r')"
  shows "round_ok nv h tb st v ds r' (atip_round tb v (int off) (int (length (rest st tb))) st)"
proof -
  let ?P = "rest st tb" and ?left = "mi_left (eg_miov st v)" and ?acc = "miov_bytes st (eg_miov st v)"
  have inv: "eg_inv nv st (Some v)" and tb: "mbuf_wf (eg_mbuf st tb)" and ref: "ref_base nv h st"
    using g by (auto simp: good_at_def)
  show ?thesis
  proof (cases "mi_len (eg_miov st v) = 0")
    case True
    then have idle: "rx_of st (Some v) = RxIdle" by (simp add: rx_of_simps)
    show ?thesis
    proof (cases "off < length ?P")
      case False
      then have "atip_round tb v (int off) (int (length ?P)) st =
          Inr (Done (Some v), set_start tb (mb_end (eg_mbuf st tb)) st)" using True
        by (simp add: atip_round_def atip_branch_def atip_fresh_def Let_def)
      then show ?thesis using post_skip [OF g idle] rx False by (auto simp: rx_packet_def idle)
    next
      case off: True
      then show ?thesis
        using round_fresh [OF g True off P(2)] rx by (simp add: rx_packet_def idle)
    qed
  next
    case False
    then have left: "0 < ?left" using rx by (cases "?left \<le> 0") (simp_all add: rx_of_simps rx_packet_def)
    then have partial: "rx_of st (Some v) = RxPartial ?acc (nat ?left)" using False by (simp add: rx_of_simps)
    have ens: "ensure_left tb v st = Inr st" using left by (simp add: ensure_left_def)
    consider (more) "off > length ?P" "?left > int (length ?P)" | (slop) "off > length ?P" "?left \<le> int (length ?P)"
      | (within) "off \<le> length ?P" by linarith
    then show ?thesis
    proof cases
      case more
      from atip_more_eq [OF inv tb room P(1) refl] obtain st1 where
        1: "atip_more tb v (int (length ?P)) st = Inr st1" "moved tb v (length ?P) st st1"
          "mi_left (eg_miov st1 v) = ?left - int (length ?P)" by blast
      have r: "ds = []" "r' = RxPartial (?acc @ ?P) (nat ?left - length ?P)"
        using rx more by (auto simp: rx_packet_def partial zless_nat_eq_int_zless split: if_splits)
      have "post_at nv h tb st (Some v) [] r' (Some v) st1"
        by (rule post_moved [OF 1(2) inv ref P(1)]) (use 1(3) r more in \<open>auto simp: nat_diff_distrib\<close>)
      then show ?thesis
        using 1 more False r by (simp add: atip_round_def atip_branch_def atip_beyond_def ens)
    next
      case slop
      obtain k where k: "?left = int k" "0 < k" "k \<le> length ?P" using left slop
        by (metis of_nat_le_iff of_nat_0_less_iff zero_less_imp_eq_int)
      from atip_complete_eq [OF inv tb ref room k] obtain st1 where
        1: "atip_complete tb v st = Inr st1" "frame tb st st1" "out_bytes st1 = out_bytes st @ [?acc @ take k ?P]"
          "free_list st1 = free_list st" and g1: "good_at nv h tb st1 None"
        by (auto simp: good_None)
      have r: "ds = [?acc @ take k ?P]" "r' = RxIdle"
        using rx slop k by (auto simp: rx_packet_def partial)
      from post_skip [OF g1] have "post_at nv h tb st1 None [] RxIdle None (set_start tb (mb_end (eg_mbuf st1 tb)) st1)"
        by (simp add: rx_of_simps)
      from post_after [OF this 1(2,3), of "Some v"] 1(4)
      have "post_at nv h tb st (Some v) ds r' None (set_start tb (mb_end (eg_mbuf st1 tb)) st1)"
        by (simp add: r niov_of_def)
      then show ?thesis
        using 1 slop False by (simp add: atip_round_def atip_branch_def atip_beyond_def ens)
    next
      case within
      with rx have lo: "nat ?left = off" by (auto simp: rx_packet_def partial split: if_splits)
      then have k: "?left = int off" "0 < off" using left by auto
      obtain ds' where ds: "ds = (?acc @ take off ?P) # ds'" "rx_blocks (drop off ?P) = (ds', r')"
        using rx within lo by (cases "rx_blocks (drop off ?P)") (auto simp: rx_packet_def partial Let_def)
      have "atip_round tb v (int off) (int (length ?P)) st = atip_finish tb v (int off) st"
        using within k False by (simp add: atip_round_def atip_branch_def atip_within_def ens)
      then show ?thesis
        using atip_finish_complete [OF inv tb ref room k within order_refl P(2) ds(2)] ds(1) by simp
    qed
  qed
qed

lemma round_aborts:
  assumes g: "good_at nv h tb st (Some v)" and rx: "rx_packet off (rest st tb) (rx_of st (Some v)) = Inl e"
  shows "atip_round tb v (int off) (int (length (rest st tb))) st = Inl e"
proof -
  have wf: "miov_wf st (eg_miov st v)" using g eg_inv_miov by (auto simp: good_at_def)
  have len: "mi_len (eg_miov st v) \<noteq> 0" using rx by (auto simp: rx_of_simps rx_packet_def)
  show ?thesis
  proof (cases "mi_left (eg_miov st v) \<le> 0")
    case True
    then show ?thesis
      using len rx getiplen_short [OF wf len]
      by (simp add: rx_of_simps rx_packet_def atip_round_def atip_branch_def atip_beyond_def atip_within_def ensure_left_def)
  next
    case False
    then have "nat (mi_left (eg_miov st v)) \<noteq> off \<Longrightarrow> mi_left (eg_miov st v) \<noteq> int off" by auto
    with False show ?thesis
      using len rx
      by (auto simp: rx_of_simps rx_packet_def atip_round_def atip_branch_def atip_beyond_def atip_within_def
          ensure_left_def Let_def split: if_splits)
  qed
qed

lemma header_only_aborts:
  assumes "mbuf_wf (eg_mbuf st tb)" "length (rest st tb) = 8"
  shows "add_to_inner_packet tb True m st = Inl Assertion"
  using MBUF_LEN_rest [OF assms(1)] assms(2)
  unfolding add_to_inner_packet_def atip_Suc by (simp add: atip_enter_def)

text \<open>Reading the header and, if need be, taking a list.\<close>

lemma atip_enter_new:
  assumes g: "good_at nv h tb st m" and len: "8 < length (rest st tb)" "length (rest st tb) < 65536 + 8"
    and free: "m = None \<Longrightarrow> free_list st \<noteq> []"
  shows "\<exists>v st1. atip_enter tb True m st =
      Inr (v, uint (get16 (rest st tb) 6), int (length (drop 8 (rest st tb))), st1) \<and>
    good_at nv h tb st1 (Some v) \<and> rest st1 tb = drop 8 (rest st tb) \<and> rx_of st1 (Some v) = rx_of st m \<and>
    out_bytes st1 = out_bytes st \<and> frame tb st st1 \<and> niov_of st1 (Some v) = niov_of st m \<and>
    Suc (length (free_list st1)) = length (free_list st) + length (held m) \<and>
    (\<forall>w. m = Some w \<longrightarrow> v = w \<and> eg_miov st1 w = eg_miov st w) \<and> (m = None \<longrightarrow> miov_clean (eg_miov st1 v))"
proof -
  let ?s = "set_start tb (mb_start (eg_mbuf st tb) + 8) st"
  have tb: "mbuf_wf (eg_mbuf st tb)" using g by (simp add: good_at_def)
  have L: "MBUF_LEN (eg_mbuf st tb) = int (length (rest st tb))" using MBUF_LEN_rest tb by simp
  have r: "rest ?s tb = drop 8 (rest st tb)" "mbuf_wf (eg_mbuf ?s tb)"
    using rest_skip [OF tb, of 8] len by auto
  then have L1: "MBUF_LEN (eg_mbuf ?s tb) = int (length (rest st tb) - 8)" using MBUF_LEN_rest by simp
  have off: "get16 (mb_space (eg_mbuf st tb)) (mb_start (eg_mbuf st tb) + 6) = get16 (rest st tb) 6"
    using rest_get16 [OF tb, of 6] len by (simp add: rest_def)
  have ne: "rest st tb \<noteq> []" using len by auto
  have u: "u16_of (int (length (rest st tb) - 8)) = int (length (rest st tb) - 8)" using len by simp
  have g1: "good_at nv h tb ?s m" using g r(2) by (simp add: good_at_def held_clean_def eg_simps)
  show ?thesis
  proof (cases m)
    case (Some v)
    then have "atip_enter tb True m st = Inr (v, uint (get16 (rest st tb) 6), int (length (rest st tb) - 8), ?s)"
      using L L1 u off len ne by (simp add: atip_enter_def Let_def)
    then show ?thesis
      using Some g1 r frame_set(1) by (auto simp: eg_simps niov_of_def rx_of_def Let_def)
  next
    case None
    have "free_list ?s \<noteq> []" using free None by (simp add: eg_simps)
    from pop_free_good [OF g1 [unfolded None] this] obtain v st1 where
      1: "pop_free ?s = Inr (v, st1)" "good_at nv h tb st1 (Some v)" "miov_clean (eg_miov st1 v)" "eg_mem st1 = eg_mem ?s"
        "rest st1 tb = rest ?s tb" "free_list ?s = free_list st1 @ [v]" "out_bytes st1 = out_bytes ?s"
        "frame tb ?s st1" by blast
    have "eg_mbuf st1 tb = eg_mbuf ?s tb" using 1(4) by (simp add: eg_mbuf_def)
    then have "atip_enter tb True m st = Inr (v, uint (get16 (rest st tb) 6), int (length (rest st tb) - 8), st1)"
      using 1(1) L L1 u off len ne None by (simp add: atip_enter_def Let_def)
    moreover have "frame tb st st1" using 1(8) frame_set(1) frame_trans by blast
    ultimately show ?thesis
      using 1 r None by (auto simp: eg_simps niov_of_def rx_of_simps miov_clean_def)
  qed
qed

lemma add_to_inner_packet_eq:
  assumes "good_at nv h tb st m" "0 < length (rest st tb)"
    and "atip_enter tb new m st = Inr (v, uint off, tlen, st1)"
  shows "add_to_inner_packet tb new m st = atip_from (length (rest st tb)) tb v (int (unat off)) tlen st1"
proof -
  have "MBUF_LEN (eg_mbuf st tb) = int (length (rest st tb))" using MBUF_LEN_rest assms(1) by (simp add: good_at_def)
  then show ?thesis using assms(3) by (simp add: add_to_inner_packet_def atip_Suc del: atip.simps)
qed

lemma atip_enter_blocked:
  assumes g: "good_at nv h tb st None" and len: "8 < length (rest st tb)" and free: "free_list st = []"
  shows "atip_enter tb True None st = Inl Blocked"
proof -
  let ?s = "set_start tb (mb_start (eg_mbuf st tb) + 8) st"
  have "MBUF_LEN (eg_mbuf st tb) = int (length (rest st tb))" using MBUF_LEN_rest g by (simp add: good_at_def)
  moreover have "rest st tb \<noteq> []" using len by auto
  moreover have "pop_free ?s = Inl Blocked"
    using g free by (intro pop_free_empty [of nv]) (simp_all add: good_None eg_simps)
  ultimately show ?thesis using len by (simp add: atip_enter_def Let_def)
qed

lemma add_to_inner_packet_outcome:
  assumes g: "good_at nv h tb st m" and len: "8 < length (rest st tb)" "length (rest st tb) < 65536 + 8"
    and room: "\<forall>v. m = Some v \<longrightarrow> mi_niov (eg_miov st v) < length (mi_iov (eg_miov st v))"
    and rx: "rx_packet (unat (get16 (rest st tb) 6)) (drop 8 (rest st tb)) (rx_of st m) = Inr (ds, r')"
  shows "outcome nv h tb st m ds r' (add_to_inner_packet tb True m st)"
proof (cases "m = None \<and> free_list st = []")
  case True
  then have "add_to_inner_packet tb True m st = Inl Blocked"
    using atip_enter_blocked g len(1) by (simp add: add_to_inner_packet_def atip_Suc del: atip.simps)
  then show ?thesis using True by (simp add: outcome_def)
next
  case False
  then have "m = None \<Longrightarrow> free_list st \<noteq> []" by auto
  from atip_enter_new [OF g len this] obtain v st1 where
    e: "atip_enter tb True m st = Inr (v, uint (get16 (rest st tb) 6), int (length (drop 8 (rest st tb))), st1)"
    and g1: "good_at nv h tb st1 (Some v)" and r1: "rest st1 tb = drop 8 (rest st tb)" "rx_of st1 (Some v) = rx_of st m"
    and s1: "out_bytes st1 = out_bytes st" "frame tb st st1" "niov_of st1 (Some v) = niov_of st m"
      "Suc (length (free_list st1)) = length (free_list st) + length (held m)"
      "\<forall>w. m = Some w \<longrightarrow> v = w \<and> eg_miov st1 w = eg_miov st w" "m = None \<longrightarrow> miov_clean (eg_miov st1 v)"
    by blast
  have room1: "mi_niov (eg_miov st1 v) < length (mi_iov (eg_miov st1 v))"
    using room s1(5,6) g1 by (cases m) (auto simp: miov_clean_def good_at_def eg_inv_def)
  have "outcome nv h tb st1 (Some v) ds r' (atip_from (length (rest st tb)) tb v
      (int (unat (get16 (rest st tb) 6))) (int (length (rest st1 tb))) st1)"
    by (rule atip_from_outcome [OF round_held [OF g1 room1] rec_ok_all]) (use len r1 rx in auto)
  from outcome_after [OF this s1(2), of "[]" m] s1
  have o: "outcome nv h tb st m ds r' (atip_from (length (rest st tb)) tb v
      (int (unat (get16 (rest st tb) 6))) (int (length (rest st1 tb))) st1)" by simp
  have pos: "0 < length (rest st tb)" using len by linarith
  show ?thesis using o add_to_inner_packet_eq [OF g pos e] r1(1) by simp
qed

lemma add_to_inner_packet_post:
  assumes "good_at nv h tb st m" "8 < length (rest st tb)" "length (rest st tb) < 65536 + 8"
    and "\<forall>v. m = Some v \<longrightarrow> mi_niov (eg_miov st v) < length (mi_iov (eg_miov st v))"
    and "rx_packet (unat (get16 (rest st tb) 6)) (drop 8 (rest st tb)) (rx_of st m) = Inr (ds, r')"
    and "length ds < length (free_list st) + length (held m)"
  shows "\<exists>m' st'. add_to_inner_packet tb True m st = Inr (m', st') \<and> post_at nv h tb st m ds r' m' st'"
  using add_to_inner_packet_outcome [OF assms(1-5)] assms(6) by (auto simp: outcome_def)

text \<open>A held list without room for another piece.\<close>

lemma add_piece_full:
  "length (mi_iov (eg_miov st v)) \<le> mi_niov (eg_miov st v) \<Longrightarrow> add_piece v tb len st = Inl OutOfBounds"
  by (simp add: add_piece_def miov_addmbuf_def Let_def eg_miov_def)

lemma piece_full:
  assumes "length (mi_iov (eg_miov st v)) \<le> mi_niov (eg_miov st v)"
  shows "atip_more tb v tlen st = Inl OutOfBounds" "atip_complete tb v st = Inl OutOfBounds"
    "atip_finish tb v tlen st = Inl OutOfBounds"
  using add_piece_full [OF assms]
  by (simp_all add: atip_finish_def atip_more_def atip_complete_def Let_def)

lemma getiplen_fails:
  "getiplen st v tb = Inl Assertion \<or> getiplen st v tb = Inl OutOfBounds"
proof (cases "iov_base (mi_iov (eg_miov st v) ! 0)")
  case (PBuf a i)
  then show ?thesis
    using getiplen_aborts [OF PBuf, of tb]
    by (cases "i < length (mb_space (eg_mbuf st a))")
       (simp_all add: getiplen_def iov_first_byte_def eg_miov_def eg_mbuf_def)
qed (simp_all add: getiplen_def iov_first_byte_def eg_miov_def)

lemma ensure_left_cases: "ensure_left tb v st = Inr st \<or> (\<exists>e. ensure_left tb v st = Inl e \<and> e \<noteq> Blocked)"
  using getiplen_fails [of st v tb] by (auto simp: ensure_left_def)

lemma round_full:
  assumes "mi_len (eg_miov st v) \<noteq> 0" "length (mi_iov (eg_miov st v)) \<le> mi_niov (eg_miov st v)"
  shows "\<exists>e. atip_round tb v off tlen st = Inl e \<and> e \<noteq> Blocked"
proof (cases "mi_left (eg_miov st v) = off")
  case True
  then show ?thesis
    using ensure_left_cases [of tb v st] assms(1) piece_full [OF assms(2)]
    by (auto simp: atip_round_def atip_branch_def atip_beyond_def atip_within_def)
next
  case False
  then show ?thesis
    using ensure_left_cases [of tb v st] assms(1) piece_full [OF assms(2)]
    by (auto simp: atip_round_def atip_branch_def atip_beyond_def atip_within_def)
qed

lemma add_to_inner_packet_Inr:
  assumes g: "good_at nv h tb st m" and len: "8 < length (rest st tb)" "length (rest st tb) < 65536 + 8"
    and ok: "add_to_inner_packet tb True m st = Inr (m', st')"
  shows "\<exists>ds r'. rx_packet (unat (get16 (rest st tb) 6)) (drop 8 (rest st tb)) (rx_of st m) = Inr (ds, r') \<and>
    post_at nv h tb st m ds r' m' st'"
proof -
  have "m = None \<Longrightarrow> free_list st \<noteq> []"
  proof
    assume "m = None" "free_list st = []"
    then show False using ok atip_enter_blocked g len(1) by (simp add: add_to_inner_packet_def atip_Suc del: atip.simps)
  qed
  from atip_enter_new [OF g len this] obtain v st1 where
    e: "atip_enter tb True m st = Inr (v, uint (get16 (rest st tb) 6), int (length (drop 8 (rest st tb))), st1)"
    and g1: "good_at nv h tb st1 (Some v)" and r1: "rest st1 tb = drop 8 (rest st tb)" "rx_of st1 (Some v) = rx_of st m"
    and m: "\<forall>w. m = Some w \<longrightarrow> v = w \<and> eg_miov st1 w = eg_miov st w" by blast
  have pos: "0 < length (rest st tb)" using len by linarith
  note eq = add_to_inner_packet_eq [OF g pos e]
  have room: "\<forall>w. m = Some w \<longrightarrow> mi_niov (eg_miov st w) < length (mi_iov (eg_miov st w))"
  proof (intro allI impI, rule ccontr)
    fix w assume w: "m = Some w" and "\<not> mi_niov (eg_miov st w) < length (mi_iov (eg_miov st w))"
    then have full: "length (mi_iov (eg_miov st w)) \<le> mi_niov (eg_miov st w)" by simp
    have "miov_wf st (eg_miov st w)" "0 < length (mi_iov (eg_miov st w))" using g w by (auto simp: good_at_def eg_inv_def)
    then have "mi_len (eg_miov st w) \<noteq> 0" using full by (auto simp: miov_wf_def)
    with full m w have "\<exists>e. atip_round tb v (int (unat (get16 (rest st tb) 6)))
        (int (length (drop 8 (rest st tb)))) st1 = Inl e \<and> e \<noteq> Blocked"
      by (intro round_full) auto
    then show False using eq ok atip_from_Inl by force
  qed
  show ?thesis
  proof (cases "rx_packet (unat (get16 (rest st tb) 6)) (drop 8 (rest st tb)) (rx_of st m)")
    case (Inl err)
    from round_aborts [OF g1, of "unat (get16 (rest st tb) 6)" err] Inl r1
    show ?thesis using eq ok atip_from_Inl by simp
  next
    case (Inr dr)
    then show ?thesis
      using add_to_inner_packet_outcome [OF g len room, of "fst dr" "snd dr"] ok by (cases dr) auto
  qed
qed

lemma add_to_inner_packet_Inl:
  assumes "good_at nv h tb st m" "8 < length (rest st tb)" "length (rest st tb) < 65536 + 8"
    and "rx_packet (unat (get16 (rest st tb) 6)) (drop 8 (rest st tb)) (rx_of st m) = Inl e"
  shows "add_to_inner_packet tb True m st = Inl e \<and> e = Assertion"
proof -
  have m: "m \<noteq> None" using assms(4) by (cases m) (auto simp: rx_of_simps rx_packet_def)
  have e: "e = Assertion" using assms(4) by (auto simp: rx_packet_def Let_def split: rx.splits if_splits)
  from atip_enter_new [OF assms(1-3)] m obtain v st1 where
    en: "atip_enter tb True m st = Inr (v, uint (get16 (rest st tb) 6), int (length (drop 8 (rest st tb))), st1)"
    and s1: "good_at nv h tb st1 (Some v)" "rest st1 tb = drop 8 (rest st tb)" "rx_of st1 (Some v) = rx_of st m" by blast
  have pos: "0 < length (rest st tb)" using assms(2) by linarith
  from round_aborts [OF s1(1), of "unat (get16 (rest st tb) 6)" e] assms(4) s1
  show ?thesis using add_to_inner_packet_eq [OF assms(1) pos en] atip_from_Inl e by simp
qed

text \<open>A partial inner packet whose scatter list is full: the next piece goes past its arrays.\<close>

lemma add_to_inner_packet_full:
  assumes g: "good_at nv h tb st (Some v)" and len: "8 < length (rest st tb)" "length (rest st tb) < 65536 + 8"
    and part: "rx_of st (Some v) = RxPartial acc left"
    and full: "length (mi_iov (eg_miov st v)) \<le> mi_niov (eg_miov st v)"
    and rx: "rx_packet (unat (get16 (rest st tb) 6)) (drop 8 (rest st tb)) (RxPartial acc left) = Inr x"
  shows "add_to_inner_packet tb True (Some v) st = Inl OutOfBounds"
proof -
  let ?off = "unat (get16 (rest st tb) 6)" and ?P = "drop 8 (rest st tb)"
  from atip_enter_new [OF g len] obtain st1 where
    en: "atip_enter tb True (Some v) st = Inr (v, uint (get16 (rest st tb) 6), int (length ?P), st1)"
    and s1: "eg_miov st1 v = eg_miov st v" by auto
  have pos: "0 < length (rest st tb)" using len by linarith
  have mi: "mi_len (eg_miov st1 v) \<noteq> 0" "0 < mi_left (eg_miov st1 v)" "nat (mi_left (eg_miov st1 v)) = left"
    using part unfolding s1
    by (cases "mi_len (eg_miov st v) = 0"; cases "mi_left (eg_miov st v) \<le> 0"; simp add: rx_of_simps)+
  then have ens: "ensure_left tb v st1 = Inr st1" by (simp add: ensure_left_def)
  have full1: "length (mi_iov (eg_miov st1 v)) \<le> mi_niov (eg_miov st1 v)" using full s1 by simp
  define off where "off = ?off"
  have "off > length ?P \<or> off \<le> length ?P \<and> left = off"
    using rx unfolding off_def [symmetric] by (auto simp: rx_packet_def Let_def split: if_splits)
  moreover have "left = off \<Longrightarrow> mi_left (eg_miov st1 v) = int off" using mi(2,3) by linarith
  ultimately have "int off > int (length ?P) \<or> \<not> int off > int (length ?P) \<and> mi_left (eg_miov st1 v) = int off" by auto
  then have "atip_round tb v (int off) (int (length ?P)) st1 = Inl OutOfBounds"
    using mi(1) ens piece_full [OF full1]
    by (auto simp: atip_round_def atip_branch_def atip_beyond_def atip_within_def simp del: of_nat_less_iff)
  then show ?thesis using add_to_inner_packet_eq [OF g pos en] atip_from_Inl by (simp add: off_def)
qed

text \<open>The calls that end in a failed assertion.\<close>

lemma add_to_inner_packet_Assertion:
  assumes g: "good_at nv h tb st m" and len: "8 \<le> length (rest st tb)" "length (rest st tb) < 65536 + 8"
  shows "add_to_inner_packet tb True m st = Inl Assertion \<longleftrightarrow>
    length (rest st tb) = 8 \<or> (\<exists>e. rx_packet (unat (get16 (rest st tb) 6)) (drop 8 (rest st tb)) (rx_of st m) = Inl e)"
proof (cases "length (rest st tb) = 8")
  case True
  then show ?thesis using header_only_aborts [of st tb m] g by (simp add: good_at_def)
next
  case False
  with len have l: "8 < length (rest st tb)" by simp
  show ?thesis
  proof (cases "rx_packet (unat (get16 (rest st tb) 6)) (drop 8 (rest st tb)) (rx_of st m)")
    case (Inl e)
    from add_to_inner_packet_Inl [OF g l len(2) Inl] Inl show ?thesis by blast
  next
    case (Inr x)
    have "add_to_inner_packet tb True m st \<noteq> Inl Assertion"
    proof (cases "\<exists>v. m = Some v \<and> length (mi_iov (eg_miov st v)) \<le> mi_niov (eg_miov st v)")
      case True
      then obtain v where v: "m = Some v" "length (mi_iov (eg_miov st v)) \<le> mi_niov (eg_miov st v)" by blast
      have "miov_wf st (eg_miov st v)" "0 < length (mi_iov (eg_miov st v))" using g v(1) by (auto simp: good_at_def eg_inv_def)
      then have "mi_len (eg_miov st v) \<noteq> 0" using v(2) by (auto simp: miov_wf_def)
      then obtain acc left where p: "rx_of st (Some v) = RxPartial acc left"
        using Inr v(1) by (cases "mi_left (eg_miov st v) \<le> 0") (auto simp: rx_of_simps rx_packet_def)
      with add_to_inner_packet_full [OF g [unfolded v(1)] l len(2) p v(2)] Inr v(1) show ?thesis by simp
    next
      case False
      then have "\<forall>v. m = Some v \<longrightarrow> mi_niov (eg_miov st v) < length (mi_iov (eg_miov st v))" by (simp add: not_le)
      with add_to_inner_packet_outcome [OF g l len(2), of "fst x" "snd x"] Inr show ?thesis by (auto simp: outcome_def)
    qed
    with Inr False show ?thesis by simp
  qed
qed

section \<open>The properties\<close>

text \<open>A receiver with three free lists of two pieces each and one received packet, for the examples.\<close>

definition demo :: "bytes \<Rightarrow> egress" where
  "demo d =
     \<lparr>eg_mem = \<lparr>m_mbufs = (\<lambda>a. \<lparr>mb_space = d, mb_start = 0, mb_end = length d, mb_left = 0,
                              mb_refcnt = (if a = 0 then 1 else 0)\<rparr>),
                m_freeq = mqueue_new [0, 0] 24 2,
                m_miovs = (\<lambda>v. \<lparr>mi_iov = replicate 2 \<lparr>iov_base = PPad, iov_len = 0\<rparr>, mi_mbufs = [0, 0],
                              mi_len = 0, mi_left = 0, mi_niov = 0, mi_maxiov = 2\<rparr>)\<rparr>,
      eg_iovfreeq = \<lparr>vq_queue = [0, 1, 2], vq_size = 3, vq_depth = 3, vq_freeq = True\<rparr>,
      eg_outq = miovq_new [0, 0, 0] 3\<rparr>"

lemma demo_facts:
  "rest (demo d) 0 = d" "rx_of (demo d) None = RxIdle" "length (free_list (demo d)) = 3" "out_bytes (demo d) = []"
  by (simp_all add: demo_def rest_def eg_mbuf_def mbuf_bytes_def subseg_def rx_of_def free_list_def
      out_bytes_def out_list_def miovq_contents_def miovq_new_def)

lemma demo_good: "good 3 0 (demo d) None"
proof -
  have "refs 3 (demo d) a = 0" for a by (simp add: refs_def demo_def eg_miov_def miov_refs_def)
  then have "ref_inv 3 0 (demo d)" by (simp add: ref_inv_def demo_def eg_mbuf_def)
  moreover have "eg_inv 3 (demo d) None"
    by (simp add: eg_inv_def demo_def eg_miov_def miovq_ok_def miovq_new_def free_list_def out_list_def
        miovq_contents_def miov_clean_def miov_wf_def miov_bytes_def)
  ultimately show ?thesis by (simp add: good_def held_clean_def demo_def eg_mbuf_def mbuf_wf_def)
qed

definition demo_packet :: bytes where
  "demo_packet = [0, 0, 0, 1, 0, 0, 0, 0,  0x45, 0, 0, 7, 10, 20, 30,  0x45, 0, 0, 9, 40]"

lemma demo_rx:
  "rx_packet (unat (get16 demo_packet 6)) (drop 8 demo_packet) RxIdle =
     Inr ([[0x45, 0, 0, 7, 10, 20, 30]], RxPartial [0x45, 0, 0, 9, 40] 4)"
  by (simp add: demo_packet_def rx_packet_def rx_blocks.simps is_pad_def block_len_def get16_def)

text \<open>C3: reassembly is correct. One call of \<open>add_to_inner_packet\<close> on a received tunnel packet returns,
  consumes the whole packet, queues for the writer exactly the inner packets that the framing
  specification \<open>rx_packet\<close> cuts out of it, byte for byte and in order, and holds the unfinished
  one; it needs one free scatter list more than it completes packets.\<close>

theorem add_to_inner_packet_refines:
  assumes "good nv tb st m" "8 < length (rest st tb)" "length (rest st tb) < 65536 + 8"
    and "\<forall>v. m = Some v \<longrightarrow> mi_niov (eg_miov st v) < length (mi_iov (eg_miov st v))"
    and "rx_packet (unat (get16 (rest st tb) 6)) (drop 8 (rest st tb)) (rx_of st m) = Inr (ds, r')"
    and "length ds < length (free_list st) + length (held m)"
  shows "\<exists>m' st'. add_to_inner_packet tb True m st = Inr (m', st') \<and> rest st' tb = [] \<and>
     out_bytes st' = out_bytes st @ ds \<and> rx_of st' m' = r'"
  using add_to_inner_packet_post [OF assms] by (auto simp: post_def)

theorem add_to_inner_packet_refines_witness:
  "\<exists>m' st'. add_to_inner_packet 0 True None (demo demo_packet) = Inr (m', st') \<and> rest st' 0 = [] \<and>
     out_bytes st' = [[0x45, 0, 0, 7, 10, 20, 30]] \<and> rx_of st' m' = RxPartial [0x45, 0, 0, 9, 40] 4"
  using add_to_inner_packet_refines [OF demo_good [of demo_packet], of "[[0x45, 0, 0, 7, 10, 20, 30]]"
      "RxPartial [0x45, 0, 0, 9, 40] 4"] demo_rx
  by (simp add: demo_facts, simp add: demo_packet_def)

text \<open>Reassembly keeps the receiver consistent. After the call every scatter list is in exactly one
  place (free, queued or held), the free ones are empty, the number of lists that are free, held or newly
  queued is unchanged, and every buffer's reference count is the number of pieces that point into it
  (one more for the buffer the thread holds), so that no buffer is freed while it is still in use.\<close>

theorem add_to_inner_packet_keeps_invariant:
  assumes "good nv tb st m" "8 < length (rest st tb)" "length (rest st tb) < 65536 + 8"
    and "\<forall>v. m = Some v \<longrightarrow> mi_niov (eg_miov st v) < length (mi_iov (eg_miov st v))"
    and "rx_packet (unat (get16 (rest st tb) 6)) (drop 8 (rest st tb)) (rx_of st m) = Inr (ds, r')"
    and "length ds < length (free_list st) + length (held m)"
    and "add_to_inner_packet tb True m st = Inr (m', st')"
  shows "eg_inv nv st' m' \<and> ref_inv nv tb st' \<and> held_clean st' m' \<and>
     length (free_list st') + length (held m') + length ds = length (free_list st) + length (held m)"
  using add_to_inner_packet_post [OF assms(1-6)] assms(7) by (auto simp: post_def good_def)

theorem add_to_inner_packet_keeps_invariant_witness:
  "\<exists>m' st'. add_to_inner_packet 0 True None (demo demo_packet) = Inr (m', st') \<and> eg_inv 3 st' m' \<and>
     ref_inv 3 0 st' \<and> length (free_list st') + length (held m') = 2"
proof -
  let ?p = "[0x45, 0, 0, 7, 10, 20, 30] :: bytes" and ?r = "RxPartial [0x45, 0, 0, 9, 40] 4"
  have len: "8 < length (rest (demo demo_packet) 0)" "length (rest (demo demo_packet) 0) < 65536 + 8"
    by (simp_all add: demo_facts, simp_all add: demo_packet_def)
  have rx: "rx_packet (unat (get16 (rest (demo demo_packet) 0) 6)) (drop 8 (rest (demo demo_packet) 0))
      (rx_of (demo demo_packet) None) = Inr ([?p], ?r)" using demo_rx by (simp add: demo_facts)
  obtain m' st' where e: "add_to_inner_packet 0 True None (demo demo_packet) = Inr (m', st')"
    using add_to_inner_packet_post [OF demo_good len _ rx] by (auto simp: demo_facts)
  from add_to_inner_packet_keeps_invariant [OF demo_good len _ rx _ e] e show ?thesis
    by (auto simp: demo_facts)
qed

text \<open>C16: when reassembly aborts. A call on a tunnel packet ends in a failed assertion, and with it the program, exactly
  when the packet has nothing after its header, or the framing specification rejects it: its offset does not match the
  inner packet in progress, or that one began with too few bytes to tell its length.\<close>

theorem add_to_inner_packet_aborts:
  assumes "good nv tb st m" "8 \<le> length (rest st tb)" "length (rest st tb) < 65536 + 8"
  shows "add_to_inner_packet tb True m st = Inl Assertion \<longleftrightarrow>
    length (rest st tb) = 8 \<or> (\<exists>e. rx_packet (unat (get16 (rest st tb) 6)) (drop 8 (rest st tb)) (rx_of st m) = Inl e)"
  by (rule add_to_inner_packet_Assertion [OF assms])

text \<open>The same receiver holding the beginning \<open>acc\<close> of an inner packet that misses \<open>left\<close> bytes.\<close>

definition demo_held :: "bytes \<Rightarrow> bytes \<Rightarrow> int \<Rightarrow> egress" where
  "demo_held acc d left =
     (let st = demo d; s = eg_mem st; h = m_mbufs s; mi = m_miovs s 2 in
      st\<lparr>eg_mem := s\<lparr>m_mbufs := h(1 := (h 1)\<lparr>mb_space := acc, mb_end := length acc, mb_refcnt := 1\<rparr>),
           m_miovs := (m_miovs s)(2 := mi\<lparr>mi_iov := [\<lparr>iov_base = PBuf 1 0, iov_len = int (length acc)\<rparr>, \<lparr>iov_base = PPad, iov_len = 0\<rparr>],
             mi_mbufs := [1, 0], mi_len := int (length acc), mi_left := left, mi_niov := 1\<rparr>)\<rparr>,
         eg_iovfreeq := (eg_iovfreeq st)\<lparr>vq_depth := 2\<rparr>\<rparr>)"

lemma demo_held_mem:
  "eg_mbuf (demo_held acc d left) a =
     (if a = 1 then \<lparr>mb_space = acc, mb_start = 0, mb_end = length acc, mb_left = 0, mb_refcnt = 1\<rparr>
      else eg_mbuf (demo d) a)"
  "eg_miov (demo_held acc d left) v =
     (if v = 2 then \<lparr>mi_iov = [\<lparr>iov_base = PBuf 1 0, iov_len = int (length acc)\<rparr>, \<lparr>iov_base = PPad, iov_len = 0\<rparr>],
        mi_mbufs = [1, 0], mi_len = int (length acc), mi_left = left, mi_niov = 1, mi_maxiov = 2\<rparr>
      else eg_miov (demo d) v)"
  "eg_iovfreeq (demo_held acc d left) = \<lparr>vq_queue = [0, 1, 2], vq_size = 3, vq_depth = 2, vq_freeq = True\<rparr>"
  "eg_outq (demo_held acc d left) = miovq_new [0, 0, 0] 3"
  by (simp_all add: demo_held_def demo_def eg_mbuf_def eg_miov_def Let_def)

lemma demo_mem:
  "eg_mbuf (demo d) a = \<lparr>mb_space = d, mb_start = 0, mb_end = length d, mb_left = 0, mb_refcnt = (if a = 0 then 1 else 0)\<rparr>"
  "eg_miov (demo d) v = \<lparr>mi_iov = replicate 2 \<lparr>iov_base = PPad, iov_len = 0\<rparr>, mi_mbufs = [0, 0],
      mi_len = 0, mi_left = 0, mi_niov = 0, mi_maxiov = 2\<rparr>"
  by (simp_all add: demo_def eg_mbuf_def eg_miov_def)

lemma demo_held_bytes:
  "miov_bytes (demo_held acc d left) (eg_miov (demo_held acc d left) 2) = acc"
  by (simp add: demo_held_mem miov_bytes_def seg_bytes_def subseg_def)

lemma demo_held_facts:
  "acc \<noteq> [] \<Longrightarrow> 0 < left \<Longrightarrow> rx_of (demo_held acc d left) (Some 2) = RxPartial acc (nat left)"
  "rest (demo_held acc d left) 0 = d"
  using demo_held_bytes [of acc d left]
  by (simp_all add: rx_of_def Let_def) (simp_all add: demo_held_mem demo_mem rest_def mbuf_bytes_def subseg_def)

lemma demo_held_good:
  assumes "acc \<noteq> []"
  shows "good 3 0 (demo_held acc d left) (Some 2)"
proof -
  let ?st = "demo_held acc d left"
  have n3: "{..<3 :: nat} = {0, 1, 2}" by auto
  have "refs 3 ?st a = (if a = 1 then 1 else 0)" for a
    by (simp add: refs_def n3 demo_held_mem demo_mem miov_refs_def)
  then have "ref_inv 3 0 ?st" by (simp add: ref_inv_def demo_held_mem demo_mem)
  moreover have "miov_wf ?st (eg_miov ?st v) \<and> 0 < length (mi_iov (eg_miov ?st v))" for v
    using assms by (simp add: miov_wf_def demo_held_mem demo_mem miov_bytes_def seg_bytes_def subseg_def)
  then have "eg_inv 3 ?st (Some 2)"
    by (simp add: eg_inv_def free_list_def out_list_def)
       (simp add: demo_held_mem demo_mem miovq_ok_def miovq_new_def miovq_contents_def miov_clean_def numeral_2_eq_2)
  moreover have "held_clean ?st (Some 2)" using assms by (simp add: held_clean_def demo_held_mem)
  ultimately show ?thesis by (simp add: good_def demo_held_mem demo_mem mbuf_wf_def)
qed

theorem add_to_inner_packet_aborts_witness:
  "add_to_inner_packet 0 True (Some 2) (demo_held [0x45, 0, 0, 9, 40] demo_packet 4) = Inl Assertion \<and>
   add_to_inner_packet 0 True None (demo demo_packet) \<noteq> Inl Assertion"
proof -
  have "rx_packet (unat (get16 demo_packet 6)) (drop 8 demo_packet) (RxPartial [0x45, 0, 0, 9, 40] 4) = Inl Assertion"
    by (simp add: demo_packet_def rx_packet_def get16_def)
  moreover have "length demo_packet = 20" by (simp add: demo_packet_def)
  ultimately show ?thesis
    using add_to_inner_packet_aborts [OF demo_held_good [of "[0x45, 0, 0, 9, 40]" demo_packet 4]]
      add_to_inner_packet_aborts [OF demo_good [of demo_packet]] demo_rx
    by (simp add: demo_facts demo_held_facts)
qed

text \<open>C19: \<open>getiplen\<close> never returns a length. It compares a byte masked with \<open>0xF0\<close> with
  \<open>0x4\<close> and \<open>0x6\<close>, which the mask excludes, so it ends in its \<open>assert(0)\<close> whenever it can
  read the byte at all: an inner packet that began with too few bytes to tell its length is never completed.\<close>

theorem getiplen_never_returns:
  "getiplen st v tb = Inl Assertion \<or> getiplen st v tb = Inl OutOfBounds"
  by (rule getiplen_fails)

end
