(* ===== verification/Refcount.thy ===== *)
theory Refcount
  imports Miov
begin

text \<open>
  The reference counts of \<open>struct mbuf\<close>: when \<open>mbuf_deref\<close> and \<open>miov_reset\<close> give a buffer back
  to the free queue. The counts are described by a function \<open>f\<close>, the number of holders of each
  buffer; a buffer is in the free queue exactly when nobody holds it.
\<close>

definition idle_mbuf :: "nat \<Rightarrow> mbuf \<Rightarrow> bool" where
  "idle_mbuf hdr b \<longleftrightarrow> mb_start b = hdr \<and> mb_end b = hdr \<and> hdr \<le> length (mb_space b)"

definition pool_ok :: "nat \<Rightarrow> (nat \<Rightarrow> nat) \<Rightarrow> mem \<Rightarrow> bool" where
  "pool_ok nb f s \<longleftrightarrow>
     mqueue_ok (m_freeq s) \<and> nb \<le> mq_size (m_freeq s) \<and> distinct (mqueue_contents (m_freeq s)) \<and>
     set (mqueue_contents (m_freeq s)) = {a. a < nb \<and> f a = 0} \<and>
     (\<forall>a. mb_refcnt (m_mbufs s a) = word_of_nat (f a) \<and> f a < 2 ^ 32 \<and> (0 < f a \<longrightarrow> a < nb)) \<and>
     (\<forall>a < nb. mq_hdrspace (m_freeq s) \<le> length (mb_space (m_mbufs s a)) \<and>
        (f a = 0 \<longrightarrow> idle_mbuf (mq_hdrspace (m_freeq s)) (m_mbufs s a)))"

text \<open>What giving back references leaves alone: lists, bytes, and the buffers somebody still holds.\<close>

definition deref_frame :: "(nat \<Rightarrow> nat) \<Rightarrow> mem \<Rightarrow> mem \<Rightarrow> bool" where
  "deref_frame f' s s' \<longleftrightarrow> m_miovs s' = m_miovs s \<and>
     mq_hdrspace (m_freeq s') = mq_hdrspace (m_freeq s) \<and> mq_size (m_freeq s') = mq_size (m_freeq s) \<and>
     (\<forall>a. mb_space (m_mbufs s' a) = mb_space (m_mbufs s a)) \<and>
     (\<forall>a. 0 < f' a \<longrightarrow> mb_start (m_mbufs s' a) = mb_start (m_mbufs s a) \<and>
        mb_end (m_mbufs s' a) = mb_end (m_mbufs s a))"

lemma deref_frame_refl [simp]: "deref_frame f s s"
  by (simp add: deref_frame_def)

lemma deref_frame_trans:
  "deref_frame f' s s' \<Longrightarrow> deref_frame f'' s' s'' \<Longrightarrow> (\<And>a. f'' a \<le> f' a) \<Longrightarrow> deref_frame f'' s s''"
  unfolding deref_frame_def by (metis less_le_trans)

lemma refcnt_one:
  "pool_ok nb f s \<Longrightarrow> mb_refcnt (m_mbufs s a) = 1 \<longleftrightarrow> f a = 1"
proof
  assume *: "pool_ok nb f s" and "mb_refcnt (m_mbufs s a) = 1"
  then have "unat (word_of_nat (f a) :: u32) = 1" by (simp add: pool_ok_def)
  with * show "f a = 1" by (simp add: pool_ok_def unat_of_nat)
qed (simp add: pool_ok_def)

lemma word_of_nat_pred: "0 < n \<Longrightarrow> word_of_nat n - 1 = (word_of_nat (n - 1) :: u32)"
  by (cases n) simp_all

lemma mbuf_deref_pool:
  assumes ok: "pool_ok nb f s" and pos: "0 < f a"
  defines "f' \<equiv> f(a := f a - 1)"
  shows "\<exists>s'. mbuf_deref s a = Inr s' \<and> pool_ok nb f' s' \<and> deref_frame f' s s'"
proof (cases "f a = 1")
  case False
  let ?s = "s\<lparr>m_mbufs := (m_mbufs s)(a := (m_mbufs s a)\<lparr>mb_refcnt := mb_refcnt (m_mbufs s a) - 1\<rparr>)\<rparr>"
  have "mbuf_deref s a = Inr ?s" using refcnt_one [OF ok] False by (simp add: mbuf_deref_def Let_def)
  moreover have "{b. b < nb \<and> f' b = 0} = {b. b < nb \<and> f b = 0}" using False pos by (auto simp: f'_def)
  then have "pool_ok nb f' ?s"
    using ok pos False word_of_nat_pred [OF pos] unfolding pool_ok_def by (auto simp: f'_def less_imp_diff_less)
  ultimately show ?thesis by (auto simp: deref_frame_def)
next
  case True
  let ?q = "m_freeq s" and ?b = "m_mbufs s a"
  have a: "a < nb" "a \<notin> set (mqueue_contents ?q)" using ok pos by (auto simp: pool_ok_def)
  have "set (a # mqueue_contents ?q) \<subseteq> {..<nb}" "distinct (a # mqueue_contents ?q)"
    using ok a by (auto simp: pool_ok_def)
  then have "length (a # mqueue_contents ?q) \<le> nb"
    by (metis card_lessThan card_mono distinct_card finite_lessThan)
  then have "length (mqueue_contents ?q) < mq_size ?q" using ok by (simp add: pool_ok_def)
  moreover have "mqueue_ok ?q" using ok by (simp add: pool_ok_def)
  ultimately obtain q where q: "mqueue_put ?q a = Inr (Suc (length (mqueue_contents ?q)), q)" "mqueue_ok q"
      "mqueue_contents q = mqueue_contents ?q @ [a]" "mq_size q = mq_size ?q" "mq_hdrspace q = mq_hdrspace ?q"
    using mqueue_put_room [of ?q a] by blast
  let ?s = "s\<lparr>m_mbufs := (m_mbufs s)(a := ?b\<lparr>mb_refcnt := 0, mb_start := mq_hdrspace ?q, mb_end := mq_hdrspace ?q, mb_left := 0\<rparr>),
              m_freeq := q\<rparr>"
  have "mbuf_deref s a = Inr ?s"
    using refcnt_one [OF ok, of a] True q(1)
    by (simp add: mbuf_deref_def mqueue_push_def mbuf_reset_def Let_def)
  moreover have "{b. b < nb \<and> f' b = 0} = insert a {b. b < nb \<and> f b = 0}" using True a by (auto simp: f'_def)
  then have "pool_ok nb f' ?s"
    using ok q a True unfolding pool_ok_def by (simp add: f'_def idle_mbuf_def)
  moreover have "deref_frame f' s ?s" using q True by (simp add: deref_frame_def f'_def)
  ultimately show ?thesis by blast
qed

lemma mbuf_derefs_pool:
  assumes "pool_ok nb f s" "\<And>a. count_list as a \<le> f a"
  shows "\<exists>s'. mbuf_derefs s as = Inr s' \<and> pool_ok nb (\<lambda>a. f a - count_list as a) s' \<and>
    deref_frame (\<lambda>a. f a - count_list as a) s s'"
  using assms
proof (induction as arbitrary: f s)
  case Nil
  then show ?case by simp
next
  case (Cons x as)
  let ?f = "f(x := f x - 1)"
  have "0 < f x" using Cons.prems(2) [of x] by simp
  from mbuf_deref_pool [OF Cons.prems(1) this] obtain s1 where
    1: "mbuf_deref s x = Inr s1" "pool_ok nb ?f s1" "deref_frame ?f s s1" by blast
  have "count_list as a \<le> ?f a" for a using Cons.prems(2) [of a] by (auto split: if_splits)
  from Cons.IH [OF 1(2) this] obtain s2 where
    2: "mbuf_derefs s1 as = Inr s2" "pool_ok nb (\<lambda>a. ?f a - count_list as a) s2"
      "deref_frame (\<lambda>a. ?f a - count_list as a) s1 s2" by blast
  have "(\<lambda>a. ?f a - count_list as a) = (\<lambda>a. f a - count_list (x # as) a)" by auto
  with 1 2 deref_frame_trans [OF 1(3) 2(3)] show ?case by simp
qed

definition miov_cleared :: "miov \<Rightarrow> miov" where
  "miov_cleared mi = mi\<lparr>mi_niov := 0, mi_len := 0, mi_left := 0\<rparr>"

lemma miov_reset_pool:
  assumes "pool_ok nb f s" "\<And>a. count_list (miov_refs (m_miovs s v)) a \<le> f a"
  defines "f' \<equiv> \<lambda>a. f a - count_list (miov_refs (m_miovs s v)) a"
  shows "\<exists>s1. miov_reset s v = Inr (s1\<lparr>m_miovs := (m_miovs s)(v := miov_cleared (m_miovs s v))\<rparr>) \<and>
    pool_ok nb f' s1 \<and> deref_frame f' s s1"
proof -
  from mbuf_derefs_pool [OF assms(1,2)] obtain s1 where
    "mbuf_derefs s (miov_refs (m_miovs s v)) = Inr s1" "pool_ok nb f' s1" "deref_frame f' s s1"
    unfolding f'_def by blast
  then show ?thesis by (auto simp: miov_reset_def miov_cleared_def deref_frame_def)
qed

lemma pool_ok_miovs [simp]: "pool_ok nb f (s\<lparr>m_miovs := mis\<rparr>) = pool_ok nb f s"
  by (simp add: pool_ok_def)

text \<open>Reference counting is sound. Resetting a scatter list empties it and drops one reference for
  each of its pieces; exactly the buffers whose last references these were go back to the free queue,
  reset for the next packet, and no buffer that somebody still refers to does.\<close>

theorem miov_reset_frees_last_references:
  assumes "pool_ok nb f s" "\<forall>a. count_list (miov_refs (m_miovs s v)) a \<le> f a"
  shows "\<exists>s'. miov_reset s v = Inr s' \<and>
    pool_ok nb (\<lambda>a. f a - count_list (miov_refs (m_miovs s v)) a) s' \<and>
    m_miovs s' v = miov_cleared (m_miovs s v) \<and>
    set (mqueue_contents (m_freeq s')) = set (mqueue_contents (m_freeq s)) \<union>
      {a \<in> set (miov_refs (m_miovs s v)). f a = count_list (miov_refs (m_miovs s v)) a}"
proof -
  let ?r = "miov_refs (m_miovs s v)"
  from miov_reset_pool [OF assms(1), of v] assms(2) obtain s1 where
    1: "miov_reset s v = Inr (s1\<lparr>m_miovs := (m_miovs s)(v := miov_cleared (m_miovs s v))\<rparr>)"
      "pool_ok nb (\<lambda>a. f a - count_list ?r a) s1" by blast
  have "f a - count_list ?r a = 0 \<longleftrightarrow> f a = 0 \<or> a \<in> set ?r \<and> f a = count_list ?r a" for a
    using assms(2) count_list_0_iff [of ?r a] by (auto simp: le_antisym)
  moreover have "a \<in> set ?r \<Longrightarrow> a < nb" for a
    using assms count_list_0_iff [of ?r a] by (metis gr0I le_zero_eq pool_ok_def)
  ultimately have "set (mqueue_contents (m_freeq s1)) = set (mqueue_contents (m_freeq s)) \<union>
      {a \<in> set ?r. f a = count_list ?r a}"
    using assms(1) 1(2) unfolding pool_ok_def by auto
  with 1 show ?thesis by auto
qed

definition refcount_demo :: mem where
  "refcount_demo =
     \<lparr>m_mbufs = (\<lambda>a. (mbuf_new 64 24)\<lparr>mb_refcnt := (if a = 0 then 2 else if a = 1 then 1 else 0)\<rparr>),
      m_freeq = \<lparr>mq_queue = [2, 0, 0], mq_size = 3, mq_depth = 1, mq_hdrspace = 24, mq_ackinfo = ack_zero\<rparr>,
      m_miovs = (\<lambda>v. \<lparr>mi_iov = [], mi_mbufs = [1, 0], mi_len = 0, mi_left = 0, mi_niov = 2, mi_maxiov = 2\<rparr>)\<rparr>"

theorem miov_reset_frees_last_references_witness:
  "\<exists>s'. miov_reset refcount_demo 5 = Inr s' \<and> set (mqueue_contents (m_freeq s')) = {1, 2} \<and>
     mb_refcnt (m_mbufs s' 0) = 1"
proof -
  define f :: "nat \<Rightarrow> nat" where "f a = (if a = 0 then 2 else if a = 1 then 1 else 0)" for a
  have "{a. a < 3 \<and> f a = 0} = {2}" by (auto simp: f_def)
  then have "pool_ok 3 f refcount_demo"
    by (simp add: pool_ok_def refcount_demo_def f_def mbuf_new_def mqueue_ok_def mqueue_contents_def idle_mbuf_def)
  moreover have le: "\<forall>a. count_list [1, 0] a \<le> f a" by (simp add: f_def)
  moreover have r: "miov_refs (m_miovs refcount_demo 5) = [1, 0]" by (simp add: refcount_demo_def miov_refs_def)
  ultimately obtain s' where s': "miov_reset refcount_demo 5 = Inr s'"
    "pool_ok 3 (\<lambda>a. f a - count_list [1, 0] a) s'"
    "set (mqueue_contents (m_freeq s')) = set (mqueue_contents (m_freeq refcount_demo)) \<union>
      {a \<in> set [1, 0]. f a = count_list [1, 0] a}"
    using miov_reset_frees_last_references [of 3 f refcount_demo 5, unfolded r] le by blast
  have "mb_refcnt (m_mbufs s' 0) = 1" using s'(2) by (simp add: pool_ok_def f_def)
  moreover have "set (mqueue_contents (m_freeq s')) = {1, 2}"
    using s'(3) by (auto simp: refcount_demo_def mqueue_contents_def f_def)
  ultimately show ?thesis using s'(1) by blast
qed

end
