(* ===== verification/Runavg.thy ===== *)
theory Runavg
  imports Prelude
begin

text \<open>
  The running average of \<open>src/src/util.c\<close> (\<open>struct runavg\<close>, \<open>runavg_new\<close>,
  \<open>runavg_add\<close>): a ring of the last \<open>runlen\<close> values with their sum, all in 32-bit unsigned
  arithmetic. The specification is the list of all values added.
\<close>

section \<open>State and operations\<close>

record runavg =
  ra_runlen :: u32
  ra_values :: "u32 list"
  ra_ticks :: u32
  ra_index :: u32
  ra_average :: u32
  ra_total :: u32
  ra_min :: u32

definition runavg_new :: "u32 \<Rightarrow> u32 \<Rightarrow> runavg" where
  "runavg_new runlen mn =
     \<lparr>ra_runlen = runlen, ra_values = replicate (unat runlen) 0, ra_ticks = 0, ra_index = 0,
      ra_average = 0, ra_total = 0, ra_min = mn\<rparr>"

text \<open>
  A write past the value array and a division by zero are the undefined outcomes; the first is
  checked where the array is written, the second where the average is formed.
\<close>

definition runavg_div :: "u32 \<Rightarrow> u32 \<Rightarrow> u32 res" where
  "runavg_div a b = bindE (requireE DivByZero (b \<noteq> 0)) (\<lambda>_. Inr (a div b))"

definition runavg_add :: "runavg \<Rightarrow> u32 \<Rightarrow> (bool \<times> runavg) res" where
  "runavg_add avg value =
     bindE (requireE OutOfBounds (unat (ra_index avg) < length (ra_values avg))) (\<lambda>_.
     let i = unat (ra_index avg);
         total = (if ra_ticks avg \<noteq> 0 then ra_total avg - ra_values avg ! i else ra_total avg) + value;
         values = (ra_values avg)[i := value];
         index = ra_index avg + 1;
         ticked = (index = ra_runlen avg);
         index' = (if ticked then 0 else index);
         ticks' = (if ticked then ra_ticks avg + 1 else ra_ticks avg)
     in bindE (if ticks' \<noteq> 0 then runavg_div total (ra_runlen avg) else runavg_div total index') (\<lambda>average.
        let average' = (if total \<noteq> 0 \<and> average < ra_min avg then ra_min avg else average)
        in Inr (ticked, avg\<lparr>ra_values := values, ra_ticks := ticks', ra_index := index',
                            ra_average := average', ra_total := total\<rparr>)))"

fun runavg_adds :: "runavg \<Rightarrow> u32 list \<Rightarrow> runavg res" where
  "runavg_adds avg [] = Inr avg"
| "runavg_adds avg (v # vs) = bindE (runavg_add avg v) (\<lambda>(_, avg'). runavg_adds avg' vs)"

section \<open>The window it represents\<close>

text \<open>
  After the values \<open>hs\<close> the ring holds the last \<open>runlen\<close> of them, the oldest at \<open>index\<close>;
  before the first wrap the values added so far are the front of the ring.
\<close>

definition window :: "nat \<Rightarrow> 'a list \<Rightarrow> 'a list" where
  "window n hs = drop (length hs - n) hs"

definition ring_shape :: "nat \<Rightarrow> 'a list \<Rightarrow> 'a list \<Rightarrow> bool" where
  "ring_shape n hs xs \<longleftrightarrow>
     length xs = n \<and> 0 < n \<and>
     (if length hs < n then take (length hs) xs = hs
      else drop (length hs mod n) xs @ take (length hs mod n) xs = window n hs)"

definition runavg_repr :: "u32 list \<Rightarrow> runavg \<Rightarrow> bool" where
  "runavg_repr hs a \<longleftrightarrow>
     ring_shape (unat (ra_runlen a)) hs (ra_values a) \<and>
     unat (ra_index a) = length hs mod unat (ra_runlen a) \<and>
     unat (ra_ticks a) = length hs div unat (ra_runlen a) \<and>
     ra_total a = sum_list (window (unat (ra_runlen a)) hs)"

definition window_average :: "u32 \<Rightarrow> u32 \<Rightarrow> u32 list \<Rightarrow> u32" where
  "window_average n mn hs =
     (let w = window (unat n) hs; avg = sum_list w div word_of_nat (length w)
      in if sum_list w \<noteq> 0 \<and> avg < mn then mn else avg)"

lemma window_all: "length hs \<le> n \<Longrightarrow> window n hs = hs"
  by (simp add: window_def)

lemma window_snoc_full:
  assumes "n \<le> length hs" "0 < n"
  shows "window n (hs @ [v]) = tl (window n hs) @ [v]"
  using assms by (simp add: window_def Suc_diff_le drop_Suc tl_drop)

lemma length_window: "length (window n hs) = min n (length hs)"
  by (simp add: window_def)

lemma ring_write:
  assumes "i < length xs"
  shows "drop (Suc i) (xs[i := v]) @ take (Suc i) (xs[i := v]) = tl (drop i xs @ take i xs) @ [v]"
  using assms by (simp add: take_Suc_update Cons_nth_drop_Suc [symmetric])

lemma sum_list_tl: "xs \<noteq> [] \<Longrightarrow> sum_list (tl xs) = sum_list xs - (hd xs :: u32)"
  by (cases xs) auto

lemma runavg_repr_new: "0 < n \<Longrightarrow> runavg_repr [] (runavg_new n mn)"
  by (simp add: runavg_repr_def ring_shape_def runavg_new_def window_def word_less_nat_alt)

section \<open>One addition\<close>

lemma ring_shape_add:
  assumes "ring_shape n hs xs"
  shows "ring_shape n (hs @ [v]) (xs[length hs mod n := v])"
proof -
  let ?L = "length hs" let ?i = "?L mod n"
  from assms have n: "0 < n" "length xs = n" "?i < length xs" by (auto simp: ring_shape_def)
  show ?thesis
  proof (cases "?L < n")
    case True
    with assms have t: "take (Suc ?L) (xs[?L := v]) = hs @ [v]"
      by (simp add: ring_shape_def take_Suc_update)
    have "length (xs[?L := v]) = n" using n by simp
    with t True n show ?thesis
      by (cases "Suc ?L = n") (auto simp: ring_shape_def window_all)
  next
    case False
    with assms have "drop ?i xs @ take ?i xs = window n hs" by (simp add: ring_shape_def)
    with False n have w: "drop (Suc ?i) (xs[?i := v]) @ take (Suc ?i) (xs[?i := v]) = window n (hs @ [v])"
      by (simp only: ring_write window_snoc_full not_less)
    show ?thesis
    proof (cases "Suc ?i = n")
      case True
      then have "Suc ?L mod n = 0" by (simp add: mod_Suc)
      with w True n False show ?thesis by (simp add: ring_shape_def length_window)
    next
      case nowrap: False
      then have "Suc ?L mod n = Suc ?i" by (simp add: mod_Suc)
      with w n False show ?thesis by (simp add: ring_shape_def)
    qed
  qed
qed

lemma ring_oldest:
  assumes "ring_shape n hs xs" "n \<le> length hs"
  shows "xs ! (length hs mod n) = hd (window n hs)" "window n hs \<noteq> []"
proof -
  from assms have n: "length hs mod n < length xs"
    and w: "drop (length hs mod n) xs @ take (length hs mod n) xs = window n hs"
    by (auto simp: ring_shape_def)
  from n w [symmetric] show "xs ! (length hs mod n) = hd (window n hs)" "window n hs \<noteq> []"
    by (auto simp: hd_append hd_drop_conv_nth)
qed

lemma window_total:
  assumes "runavg_repr hs a"
  defines "n \<equiv> unat (ra_runlen a)"
  shows "(if ra_ticks a \<noteq> 0 then ra_total a - ra_values a ! unat (ra_index a) else ra_total a) + v =
         sum_list (window n (hs @ [v]))"
proof (cases "n \<le> length hs")
  case True
  from assms(1) have "ring_shape n hs (ra_values a)" and n: "0 < n"
    and i: "unat (ra_index a) = length hs mod n" and t: "unat (ra_ticks a) = length hs div n"
    and s: "ra_total a = sum_list (window n hs)"
    by (auto simp: runavg_repr_def n_def ring_shape_def)
  note o = ring_oldest [OF this(1) True]
  have "ra_ticks a \<noteq> 0" using t True n by (auto simp: div_eq_0_iff)
  then show ?thesis
    using o by (simp add: window_snoc_full [OF True n] i s sum_list_tl)
next
  case False
  with assms have "ra_ticks a = 0" "ra_total a = sum_list hs"
    by (auto simp: runavg_repr_def window_all unat_eq_0)
  with False show ?thesis by (simp add: window_all)
qed

lemma index_step:
  assumes "runavg_repr hs a"
  defines "n \<equiv> unat (ra_runlen a)"
  shows "unat (ra_index a + 1) = Suc (length hs mod n)"
    and "ra_index a + 1 = ra_runlen a \<longleftrightarrow> Suc (length hs mod n) = n"
proof -
  from assms have i: "unat (ra_index a) = length hs mod n" "length hs mod n < n"
    by (auto simp: runavg_repr_def ring_shape_def)
  have "n < 2 ^ 32" unfolding n_def using unat_u32_less [of "ra_runlen a"] by simp
  with i show *: "unat (ra_index a + 1) = Suc (length hs mod n)"
    by (simp add: unat_word_ariths)
  show "ra_index a + 1 = ra_runlen a \<longleftrightarrow> Suc (length hs mod n) = n"
    unfolding n_def by (simp add: word_unat_eq_iff * [unfolded n_def])
qed

lemma ticks_step:
  assumes "runavg_repr hs a" "Suc (length hs) div unat (ra_runlen a) < 2 ^ 32"
  defines "n \<equiv> unat (ra_runlen a)"
  defines "t \<equiv> (if Suc (length hs mod n) = n then ra_ticks a + 1 else ra_ticks a)"
  shows "unat t = Suc (length hs) div n" and "t \<noteq> 0 \<longleftrightarrow> n \<le> Suc (length hs)"
proof -
  from assms(1) have n: "0 < n" and t0: "unat (ra_ticks a) = length hs div n"
    by (auto simp: runavg_repr_def n_def ring_shape_def)
  show *: "unat t = Suc (length hs) div n"
    using assms(2) unfolding n_def [symmetric] t_def
    by (simp add: t0 div_Suc mod_Suc unat_word_ariths split: if_splits)
  show "t \<noteq> 0 \<longleftrightarrow> n \<le> Suc (length hs)"
    using n by (simp add: unat_eq_0 [symmetric] * div_eq_0_iff not_less)
qed

lemma runavg_add_window:
  assumes "runavg_repr hs a" "Suc (length hs) div unat (ra_runlen a) < 2 ^ 32"
  shows "\<exists>a'. runavg_add a v = Inr (Suc (length hs) mod unat (ra_runlen a) = 0, a') \<and>
     runavg_repr (hs @ [v]) a' \<and> ra_runlen a' = ra_runlen a \<and> ra_min a' = ra_min a \<and>
     ra_average a' = window_average (ra_runlen a) (ra_min a) (hs @ [v])"
proof -
  define n where "n = unat (ra_runlen a)"
  define tot where "tot = sum_list (window n (hs @ [v]))"
  define t where "t = (if Suc (length hs mod n) = n then ra_ticks a + 1 else ra_ticks a)"
  define i where "i = (if Suc (length hs mod n) = n then 0 else ra_index a + 1)"
  define d where "d = (if t \<noteq> 0 then ra_runlen a else i)"
  from assms(1) have shape: "ring_shape n hs (ra_values a)" and n: "0 < n"
    and idx: "unat (ra_index a) = length hs mod n" "length hs mod n < length (ra_values a)"
    by (auto simp: runavg_repr_def n_def ring_shape_def)
  note step = index_step [OF assms(1), folded n_def]
  note ticks = ticks_step [OF assms, folded n_def, folded t_def]
  have i': "unat i = Suc (length hs) mod n"
    by (simp add: i_def step(1) mod_Suc)
  have d: "unat d = length (window n (hs @ [v]))"
    using ticks(2) i' by (auto simp: d_def n_def [symmetric] length_window min_def mod_if split: if_splits)
  have "d \<noteq> 0" using n d by (auto simp: length_window)
  have dn: "d = word_of_nat (length (window n (hs @ [v])))" unfolding d [symmetric] by simp
  define avg where "avg = (if tot \<noteq> 0 \<and> tot div d < ra_min a then ra_min a else tot div d)"
  define a' where "a' = a\<lparr>ra_values := (ra_values a)[length hs mod n := v], ra_ticks := t, ra_index := i,
      ra_average := avg, ra_total := tot\<rparr>"
  have dd: "(if t \<noteq> 0 then runavg_div tot (ra_runlen a) else runavg_div tot i) = Inr (tot div d)"
    using \<open>d \<noteq> 0\<close> by (cases "t = 0") (simp_all add: runavg_div_def d_def)
  have "runavg_add a v = Inr (Suc (length hs mod n) = n, a')"
    unfolding runavg_add_def Let_def window_total [OF assms(1), of v, folded n_def, folded tot_def]
      step(2) t_def [symmetric] i_def [symmetric] dd bindE_Inr avg_def [symmetric]
    using idx by (simp add: a'_def)
  moreover have "runavg_repr (hs @ [v]) a'"
    using ring_shape_add [OF shape] ticks(1) i'
    by (simp add: runavg_repr_def a'_def n_def [symmetric] tot_def)
  moreover have "avg = window_average (ra_runlen a) (ra_min a) (hs @ [v])"
    using dn
    by (simp add: window_average_def avg_def tot_def n_def [symmetric] Let_def)
  ultimately show ?thesis
    by (intro exI [of _ a']) (simp add: a'_def mod_Suc n_def [symmetric])
qed

section \<open>Runs from a fresh average\<close>

lemma runavg_adds_repr:
  assumes "runavg_repr hs a" "(length hs + length vs) div unat (ra_runlen a) < 2 ^ 32"
  shows "\<exists>a'. runavg_adds a vs = Inr a' \<and> runavg_repr (hs @ vs) a' \<and>
     ra_runlen a' = ra_runlen a \<and> ra_min a' = ra_min a"
  using assms
proof (induction vs arbitrary: hs a)
  case Nil
  then show ?case by simp
next
  case (Cons v vs)
  have "Suc (length hs) div unat (ra_runlen a) \<le> (length hs + length (v # vs)) div unat (ra_runlen a)"
    by (rule div_le_mono) simp
  with Cons.prems have "Suc (length hs) div unat (ra_runlen a) < 2 ^ 32" by linarith
  from runavg_add_window [OF Cons.prems(1) this, of v] obtain b a1 where
    "runavg_add a v = Inr (b, a1)" "runavg_repr (hs @ [v]) a1" "ra_runlen a1 = ra_runlen a"
    "ra_min a1 = ra_min a" by blast
  with Cons.IH [of "hs @ [v]" a1] Cons.prems(2) show ?case by simp
qed

text \<open>The mean of a window in natural numbers: where the sum has 32 bits it is the sum, and where not, what is left of it.\<close>

lemma unat_sum_list: "unat (sum_list (ws :: u32 list)) = sum_list (map unat ws) mod 2 ^ 32"
proof (induction ws)
  case (Cons w ws)
  then show ?case by (simp add: unat_word_ariths mod_simps)
qed simp

lemma sum_list_unat: "sum_list (map unat ws) < 2 ^ 32 \<Longrightarrow> unat (sum_list (ws :: u32 list)) = sum_list (map unat ws)"
  by (simp add: unat_sum_list)

definition window_sum :: "nat \<Rightarrow> u32 list \<Rightarrow> nat" where
  "window_sum n hs = sum_list (map unat (window n hs))"

lemma window_average_nat:
  assumes "0 < n"
  shows "unat (window_average n mn hs) =
    (let s = window_sum (unat n) hs mod 2 ^ 32
     in if s = 0 then 0 else max (unat mn) (s div min (unat n) (length hs)))"
proof -
  let ?w = "window (unat n) hs" and ?tot = "sum_list (window (unat n) hs)"
  have tot: "unat ?tot = window_sum (unat n) hs mod 2 ^ 32" by (simp add: window_sum_def unat_sum_list)
  have "length ?w < 2 ^ 32" using unat_u32_less [of n] by (simp add: length_window)
  then have "unat (word_of_nat (length ?w) :: u32) = min (unat n) (length hs)" by (simp add: length_window unat_of_nat)
  then have d: "unat (?tot div word_of_nat (length ?w)) = unat ?tot div min (unat n) (length hs)" by (simp add: unat_div)
  show ?thesis
    unfolding window_average_def Let_def tot [symmetric]
    by (auto simp: d word_less_nat_alt unat_eq_0 max_def)
qed

text \<open>C34: an average created for \<open>n\<close> values and fed any values (fewer than \<open>2^32\<close> rounds of the ring) takes the next one without
  a fault. When the sum of the last \<open>n\<close> values is below \<open>2^32\<close>, its average is the floor of their mean in natural numbers,
  raised to the minimum unless all are zero. A larger sum overflows, which the code does not guard against: the
  average is then that of what 32 bits keep of it. The call reports a tick exactly when the number of values reaches a multiple of \<open>n\<close>.\<close>

theorem runavg_mean_of_window:
  assumes "0 < n" "Suc (length vs) div unat n < 2 ^ 32"
  shows "\<exists>a a'. runavg_adds (runavg_new n mn) vs = Inr a \<and>
     runavg_add a v = Inr (Suc (length vs) mod unat n = 0, a') \<and>
     unat (ra_average a') =
       (let w = map unat (window (unat n) (vs @ [v]));
            s = (if sum_list w < 2 ^ 32 then sum_list w else sum_list w mod 2 ^ 32)
        in if s = 0 then 0 else max (unat mn) (s div length w))"
proof -
  have "length vs div unat n \<le> Suc (length vs) div unat n" by (rule div_le_mono) simp
  with assms runavg_adds_repr [OF runavg_repr_new [OF assms(1), of mn], of vs] obtain a where
    "runavg_adds (runavg_new n mn) vs = Inr a" "runavg_repr vs a" "ra_runlen a = n" "ra_min a = mn"
    by (auto simp: runavg_new_def)
  with runavg_add_window [of vs a v] assms(2) obtain a' where "runavg_adds (runavg_new n mn) vs = Inr a"
    "runavg_add a v = Inr (Suc (length vs) mod unat n = 0, a')" "ra_average a' = window_average n mn (vs @ [v])" by auto
  moreover have "(if k < 2 ^ 32 then k else k mod 2 ^ 32) = k mod 2 ^ 32" for k :: nat by simp
  ultimately show ?thesis using window_average_nat [OF assms(1), of mn "vs @ [v]"]
    by (simp only: Let_def window_sum_def length_map length_window) auto
qed

theorem runavg_mean_of_window_witness:
  "(\<exists>a a'. runavg_adds (runavg_new 3 1) [10, 0, 7] = Inr a \<and> runavg_add a 8 = Inr (False, a') \<and> unat (ra_average a') = 5) \<and>
   (\<exists>a a'. runavg_adds (runavg_new 2 1) [2 ^ 31] = Inr a \<and> runavg_add a (2 ^ 31) = Inr (True, a') \<and> unat (ra_average a') = 0)"
  using runavg_mean_of_window [of 3 "[10, 0, 7]" 1 8] runavg_mean_of_window [of 2 "[2 ^ 31]" 1 "2 ^ 31"]
  by (simp add: window_def)

end
