(* ===== verification/Pps.thy ===== *)
theory Pps
  imports Clock
begin

text \<open>
  The packets-per-second controller of \<open>src/src/util.c\<close> (\<open>struct pps\<close>, \<open>pps_incrate\<close>,
  \<open>pps_decrate\<close>, \<open>pps_change_pps\<close>, \<open>pps_wait\<close>), the contract its rate changes share (a
  locale) and the two operations that keep it.
\<close>

section \<open>State and operations\<close>

record pps =
  pps_periodic :: periodic
  pps_pps :: u32
  pps_target :: u32

text \<open>The common tail of the three rate changes: \<open>NSECS_IN_SEC / nval\<close> divides in 32 bits.\<close>

definition pps_store :: "pps \<Rightarrow> u32 \<Rightarrow> u32 \<Rightarrow> (u32 \<times> pps) res" where
  "pps_store pp oval nval =
     (if nval \<noteq> oval
      then bindE (requireE DivByZero (nval \<noteq> 0)) (\<lambda>_.
           Inr (nval, pp\<lparr>pps_pps := nval,
             pps_periodic := periodic_change_rate (pps_periodic pp)
                               (ucast (word_of_int NSECS_IN_SEC div nval))\<rparr>))
      else Inr (nval, pp))"

definition pps_incrate :: "pps \<Rightarrow> int \<Rightarrow> (u32 \<times> pps) res" where
  "pps_incrate pp inc =
     (let oval = pps_pps pp;
          nval = oval + word_of_int inc;
          nval = (if nval > pps_target pp then pps_target pp else nval)
      in pps_store pp oval nval)"

definition pps_decrate :: "pps \<Rightarrow> int \<Rightarrow> (u32 \<times> pps) res" where
  "pps_decrate pp pct =
     (let oval = pps_pps pp;
          nval = oval * word_of_int pct div 100;
          nval = (if nval > pps_target pp then pps_target pp else nval);
          nval = (if nval = 0 then 1 else nval)
      in pps_store pp oval nval)"

definition pps_change_pps :: "pps \<Rightarrow> int \<Rightarrow> (u32 \<times> pps) res" where
  "pps_change_pps pp change =
     (let oval = pps_pps pp;
          nval = oval + word_of_int change;
          nval = (if nval > pps_target pp then pps_target pp else nval);
          nval = (if nval = 0 then 1 else nval)
      in pps_store pp oval nval)"

definition pps_wait :: "pps \<Rightarrow> timespec \<Rightarrow> timespec \<Rightarrow> (timespec option \<times> pps) res" where
  "pps_wait pp now now' =
     bindE (periodic_wait (pps_periodic pp) now now')
       (\<lambda>(ns, per). Inr (ns, pp\<lparr>pps_periodic := per\<rparr>))"

section \<open>The contract of a rate change\<close>

text \<open>
  The rate stays between one packet per second and the target, and the sleep interval is the one of
  the current rate (at the target, the interval given at creation may stand).
\<close>

definition pps_ok :: "pps \<Rightarrow> bool" where
  "pps_ok pp \<longleftrightarrow> 1 \<le> pps_pps pp \<and> pps_pps pp \<le> pps_target pp \<and>
     (pps_pps pp = pps_target pp \<or>
      pd_ival (pps_periodic pp) = ucast (word_of_int NSECS_IN_SEC div pps_pps pp :: u32))"

fun pps_changes :: "(pps \<Rightarrow> int \<Rightarrow> (u32 \<times> pps) res) \<Rightarrow> pps \<Rightarrow> int list \<Rightarrow> pps res" where
  "pps_changes chg pp [] = Inr pp"
| "pps_changes chg pp (x # xs) = bindE (chg pp x) (\<lambda>(_, pp'). pps_changes chg pp' xs)"

locale rate_change =
  fixes chg :: "pps \<Rightarrow> int \<Rightarrow> (u32 \<times> pps) res"
  assumes chg_ok: "pps_ok pp \<Longrightarrow> \<exists>pp'. chg pp x = Inr (pps_pps pp', pp') \<and> pps_ok pp' \<and>
      pps_target pp' = pps_target pp \<and>
      pd_timestamp (pps_periodic pp') = pd_timestamp (pps_periodic pp)"
begin

lemma chg_bounds:
  assumes "pps_ok pp"
  shows "\<exists>r pp'. chg pp x = Inr (r, pp') \<and> 1 \<le> r \<and> r \<le> pps_target pp"
  using chg_ok [OF assms, of x] by (auto simp: pps_ok_def)

lemma chg_run:
  assumes "pps_ok pp"
  shows "\<exists>pp'. pps_changes chg pp xs = Inr pp' \<and> pps_ok pp' \<and> pps_target pp' = pps_target pp \<and>
      pd_timestamp (pps_periodic pp') = pd_timestamp (pps_periodic pp)"
  using assms
proof (induction xs arbitrary: pp)
  case Nil
  then show ?case by simp
next
  case (Cons x xs)
  from chg_ok [OF Cons.prems, of x] obtain p where p: "chg pp x = Inr (pps_pps p, p)" "pps_ok p"
    "pps_target p = pps_target pp" "pd_timestamp (pps_periodic p) = pd_timestamp (pps_periodic pp)"
    by blast
  with Cons.IH [OF p(2)] show ?case by simp
qed

end

lemma one_le_u32: "1 \<le> w \<longleftrightarrow> w \<noteq> 0" for w :: u32
  by (simp add: word_le_nat_alt Suc_le_eq unat_gt_0)

lemma pps_store_ok:
  assumes "pps_ok pp" "1 \<le> nval" "nval \<le> pps_target pp"
  shows "\<exists>pp'. pps_store pp (pps_pps pp) nval = Inr (pps_pps pp', pp') \<and> pps_ok pp' \<and>
      pps_pps pp' = nval \<and> pps_target pp' = pps_target pp \<and>
      pd_timestamp (pps_periodic pp') = pd_timestamp (pps_periodic pp)"
  using assms by (auto simp: one_le_u32 pps_store_def pps_ok_def periodic_change_rate_def)

lemma clamp_bounds:
  fixes t v :: u32
  assumes "1 \<le> t"
  shows "1 \<le> (let m = (if v > t then t else v) in if m = 0 then 1 else m)"
    and "(let m = (if v > t then t else v) in if m = 0 then 1 else m) \<le> t"
  using assms by (auto simp: Let_def word_le_nat_alt word_less_nat_alt Suc_le_eq unat_gt_0)

interpretation chg_pps: rate_change pps_change_pps
proof
  fix pp x assume "pps_ok pp"
  then have "1 \<le> pps_target pp" by (auto simp: pps_ok_def)
  from pps_store_ok [OF \<open>pps_ok pp\<close> clamp_bounds [OF this, of "pps_pps pp + word_of_int x"]]
  show "\<exists>pp'. pps_change_pps pp x = Inr (pps_pps pp', pp') \<and> pps_ok pp' \<and>
      pps_target pp' = pps_target pp \<and>
      pd_timestamp (pps_periodic pp') = pd_timestamp (pps_periodic pp)"
    unfolding pps_change_pps_def Let_def by blast
qed

interpretation dec_rate: rate_change pps_decrate
proof
  fix pp x assume "pps_ok pp"
  then have "1 \<le> pps_target pp" by (auto simp: pps_ok_def)
  from pps_store_ok [OF \<open>pps_ok pp\<close> clamp_bounds [OF this, of "pps_pps pp * word_of_int x div 100"]]
  show "\<exists>pp'. pps_decrate pp x = Inr (pps_pps pp', pp') \<and> pps_ok pp' \<and>
      pps_target pp' = pps_target pp \<and>
      pd_timestamp (pps_periodic pp') = pd_timestamp (pps_periodic pp)"
    unfolding pps_decrate_def Let_def by blast
qed

section \<open>Properties\<close>

text \<open>Any sequence of rate changes by \<open>pps_change_pps\<close> returns, and leaves the rate between
  one packet per second and the target, with the sleep interval of that rate.\<close>

theorem pps_changes_stay_in_range:
  assumes "pps_ok pp"
  shows "\<exists>pp'. pps_changes pps_change_pps pp xs = Inr pp' \<and>
    1 \<le> pps_pps pp' \<and> pps_pps pp' \<le> pps_target pp \<and>
    (pps_pps pp' = pps_target pp \<or>
     pd_ival (pps_periodic pp') = ucast (word_of_int NSECS_IN_SEC div pps_pps pp' :: u32))"
  using chg_pps.chg_run [OF assms, of xs] by (auto simp: pps_ok_def)

theorem pps_changes_stay_in_range_witness:
  "\<exists>pp'. pps_changes pps_change_pps
     \<lparr>pps_periodic = periodic_init (Timespec 1 0) 1000000, pps_pps = 1000, pps_target = 1000\<rparr>
     [1, -200, 1, -5000, -999, -1, 1] = Inr pp' \<and> pps_pps pp' = 2"
proof -
  let ?pp = "\<lparr>pps_periodic = periodic_init (Timespec 1 0) 1000000, pps_pps = 1000, pps_target = 1000\<rparr>"
  have "pps_ok ?pp" by (simp add: pps_ok_def)
  from pps_changes_stay_in_range [OF this, of "[1, -200, 1, -5000, -999, -1, 1]"] show ?thesis
    by (auto simp: pps_change_pps_def pps_store_def Let_def)
qed

lemma uint_add_int:
  fixes w :: u32
  assumes "0 \<le> uint w + d" "uint w + d < 2 ^ 32"
  shows "uint (w + word_of_int d) = uint w + d"
proof -
  have "uint (w + word_of_int d) = (uint w + d) mod 2 ^ 32"
    by (simp add: uint_word_ariths uint_word_of_int mod_simps)
  with assms show ?thesis by simp
qed

lemma uint_add_int_neg:
  fixes w :: u32
  assumes "uint w + d < 0" "- (2 ^ 31) \<le> d"
  shows "2 ^ 31 \<le> uint (w + word_of_int d)"
proof -
  have "d \<ge> - 2147483648" "0 \<le> uint w" using assms by simp_all
  then have "2147483648 \<le> uint w + d + 4294967296" by linarith
  then have p: "0 \<le> uint w + d + 2 ^ 32" "2 ^ 31 \<le> uint w + d + 2 ^ 32" by simp_all
  have "uint (w + word_of_int d) = (uint w + d) mod 2 ^ 32"
    by (simp add: uint_word_ariths uint_word_of_int mod_simps)
  also have "\<dots> = (uint w + d + 2 ^ 32) mod 2 ^ 32" by simp
  also have "\<dots> = uint w + d + 2 ^ 32"
    using assms p by (intro mod_pos_pos_trivial) auto
  finally show ?thesis using p by simp
qed

lemma pps_change_value:
  assumes "pps_ok pp" "uint (pps_target pp) < 2 ^ 31" "- (2 ^ 31) \<le> d" "d < 2 ^ 31"
  shows "\<exists>pp'. pps_change_pps pp d = Inr (pps_pps pp', pp') \<and>
     uint (pps_pps pp') =
       (if 0 \<le> uint (pps_pps pp) + d then max 1 (min (uint (pps_target pp)) (uint (pps_pps pp) + d))
        else uint (pps_target pp)) \<and> pps_ok pp' \<and> pps_target pp' = pps_target pp"
proof -
  define v where "v = (let m = (if pps_pps pp + word_of_int d > pps_target pp then pps_target pp
       else pps_pps pp + word_of_int d) in if m = 0 then 1 else m)"
  from assms(1) have t: "1 \<le> pps_target pp" and le: "uint (pps_pps pp) \<le> uint (pps_target pp)"
    by (auto simp: pps_ok_def word_le_def)
  then have t1: "1 \<le> uint (pps_target pp)" by (simp add: word_le_def)
  have "uint v = (if 0 \<le> uint (pps_pps pp) + d
        then max 1 (min (uint (pps_target pp)) (uint (pps_pps pp) + d)) else uint (pps_target pp))"
  proof (cases "0 \<le> uint (pps_pps pp) + d")
    case True
    with assms le have "uint (pps_pps pp + word_of_int d) = uint (pps_pps pp) + d"
      by (intro uint_add_int) auto
    with True t1 show ?thesis
      by (auto simp: v_def Let_def word_less_def word_uint_eq_iff)
  next
    case False
    with assms(3) have "2 ^ 31 \<le> uint (pps_pps pp + word_of_int d)" by (intro uint_add_int_neg) auto
    with False t1 assms(2) show ?thesis
      by (auto simp: v_def Let_def word_less_def word_uint_eq_iff)
  qed
  moreover have "pps_change_pps pp d = pps_store pp (pps_pps pp) v"
    by (simp add: pps_change_pps_def v_def Let_def)
  ultimately show ?thesis
    using pps_store_ok [OF assms(1) clamp_bounds [OF t, of "pps_pps pp + word_of_int d", folded v_def]]
    by auto
qed

text \<open>C37: for a target below \<open>2^31\<close>, a change by a 32-bit \<open>int\<close> adds it to the rate and clamps
  the sum between one and the target, as long as the sum is not negative; a cut larger than the
  current rate wraps around and puts the rate back to the full target instead of the minimum.\<close>

theorem pps_change_pps_rate:
  assumes "pps_ok pp" "uint (pps_target pp) < 2 ^ 31" "- (2 ^ 31) \<le> d" "d < 2 ^ 31"
  shows "\<exists>pp'. pps_change_pps pp d = Inr (pps_pps pp', pp') \<and>
     uint (pps_pps pp') =
       (if 0 \<le> uint (pps_pps pp) + d then max 1 (min (uint (pps_target pp)) (uint (pps_pps pp) + d))
        else uint (pps_target pp))"
  using pps_change_value [OF assms] by blast

theorem pps_change_pps_rate_witness:
  "\<exists>pp'. pps_change_pps
     \<lparr>pps_periodic = periodic_init (Timespec 1 0) 100000000, pps_pps = 10, pps_target = 1000\<rparr> (-20) =
       Inr (pps_pps pp', pp') \<and> pps_pps pp' = 1000"
  using pps_change_pps_rate
    [of "\<lparr>pps_periodic = periodic_init (Timespec 1 0) 100000000, pps_pps = 10, pps_target = 1000\<rparr>" "-20"]
  by (auto simp: pps_ok_def periodic_init_def const_defs word_uint_eq_iff)

end
