(* ===== verification/Ack.thy ===== *)
theory Ack
  imports Runavg Pps Mbuf Wire
begin

text \<open>
  The feedback between the two ends of \<open>src/src/iptfs.c\<close>: \<open>send_ack\<close>, which reports the sequence
  numbers seen and the packets dropped, and \<open>recv_ack\<close>, which averages the reports and changes the
  sending rate.
\<close>

section \<open>send\_ack\<close>

text \<open>The static buffer: four bytes of ones, then zeros.\<close>

definition ack_buffer :: bytes where
  "ack_buffer = [0xFF, 0xFF, 0xFF, 0xFF] @ replicate 16 0"

text \<open>
  The result is the packet handed to \<open>send\<close> (whose short writes are only logged), the cleared report
  and the static buffer.
\<close>

definition send_ack :: "bool \<Rightarrow> timespec \<Rightarrow> ackinfo \<Rightarrow> bytes \<Rightarrow> (bytes option \<times> ackinfo \<times> bytes) res" where
  "send_ack oneonly now ack buffer =
     bindE (requireE Assertion (\<not> oneonly)) (\<lambda>_.
     if ack_start ack = 0 then Inr (None, ack, buffer)
     else
       (let ndrop = (if ack_ndrop ack > 0xFFFFFF then 0xFFFFFF else ack_ndrop ack);
            b1 = put32 buffer 4 (0x40000000 OR ndrop);
            b2 = put32 b1 8 (word_of_int (tv_sec now * 1000 + tv_nsec now div 1000000));
            b3 = put32 b2 12 (ack_start ack);
            b4 = put32 b3 16 (ack_last ack)
        in Inr (Some b4, ack_zero, b4)))"

section \<open>recv\_ack\<close>

text \<open>The globals it works on; null pointers are \<open>None\<close>.\<close>

record feedback =
  g_avgpps :: "runavg option"
  g_avgdrops :: "runavg option"
  g_pps :: "pps option"

definition deref :: "'a option \<Rightarrow> 'a res" where
  "deref p = (case p of None \<Rightarrow> Inl NullPointer | Some a \<Rightarrow> Inr a)"

text \<open>The part that changes the rate: \<open>avg\<close> is the average of the drops.\<close>

definition ack_rate :: "u32 \<Rightarrow> u32 \<Rightarrow> pps \<Rightarrow> pps res" where
  "ack_rate avgdrops avgpps pp =
     (if avgdrops = 0 then bindE (pps_change_pps pp 1) (\<lambda>(_, pp'). Inr pp')
      else bindE (runavg_div (avgdrops * 100) avgpps) (\<lambda>_.
           bindE (pps_change_pps pp (sint (- avgdrops))) (\<lambda>(_, pp'). Inr pp')))"

definition ack_feed :: "feedback \<Rightarrow> u32 \<Rightarrow> u32 \<Rightarrow> feedback res" where
  "ack_feed fb runlen ndrop =
     bindE (deref (g_avgpps fb)) (\<lambda>a.
     bindE (runavg_add a runlen) (\<lambda>(_, a').
     bindE (deref (g_avgdrops fb)) (\<lambda>d.
     bindE (runavg_add d ndrop) (\<lambda>(ticked, d').
     let fb' = fb\<lparr>g_avgpps := Some a', g_avgdrops := Some d'\<rparr>
     in if \<not> ticked then Inr fb'
        else bindE (deref (g_pps fb)) (\<lambda>pp.
             bindE (ack_rate (ra_average d') (ra_average a') pp) (\<lambda>pp'.
             Inr (fb'\<lparr>g_pps := Some pp'\<rparr>)))))))"

definition recv_ack :: "bool \<Rightarrow> mbuf \<Rightarrow> feedback \<Rightarrow> feedback res" where
  "recv_ack oneonly m fb =
     (if oneonly then Inr fb
      else if MBUF_LEN m \<noteq> 20 then Inr fb
      else
        bindE (requireE Assertion (get32 (mb_space m) (mb_start m) = 0xFFFFFFFF)) (\<lambda>_.
        let mstart = mb_start m + 4;
            ndrop = get32 (mb_space m) mstart AND 0xFFFFFF;
            start = get32 (mb_space m) (mstart + 8);
            endseq = get32 (mb_space m) (mstart + 12);
            runlen = endseq - start
        in if endseq < start then Inr fb else ack_feed fb runlen ndrop))"

section \<open>Reading a packet's fields\<close>

lemma mbuf_get32:
  assumes "mbuf_wf b" "i + 4 \<le> length (mbuf_bytes b)"
  shows "get32 (mb_space b) (mb_start b + i) = get32 (mbuf_bytes b) i"
  using assms by (simp add: mbuf_bytes_def mbuf_wf_def w32.get_subseg)

lemma recv_ack_bytes:
  assumes "mbuf_wf m" "length (mbuf_bytes m) = 20"
  shows "recv_ack False m fb =
    (if get32 (mbuf_bytes m) 0 \<noteq> 0xFFFFFFFF then Inl Assertion
     else if get32 (mbuf_bytes m) 16 < get32 (mbuf_bytes m) 12 then Inr fb
     else ack_feed fb (get32 (mbuf_bytes m) 16 - get32 (mbuf_bytes m) 12) (get32 (mbuf_bytes m) 4 AND 0xFFFFFF))"
proof -
  have "MBUF_LEN m = 20" using length_mbuf_bytes [OF assms(1)] assms(2) by simp
  moreover note mbuf_get32 [OF assms(1), of 0] mbuf_get32 [OF assms(1), of 4] mbuf_get32 [OF assms(1), of 12]
    mbuf_get32 [OF assms(1), of 16]
  ultimately show ?thesis using assms(2) by (simp add: recv_ack_def Let_def add.assoc)
qed

lemma word_or_and_mask:
  fixes n :: u32
  assumes "n \<le> 0xFFFFFF"
  shows "(0x40000000 OR n) AND 0xFFFFFF = n" "(0x40000000 OR n) AND 0xC0000000 = 0x40000000"
proof -
  have "uint n < 2 ^ 24" using assms by (simp add: word_le_def)
  then have "take_bit 24 n = n"
    by (simp add: word_uint_eq_iff unsigned_take_bit_eq take_bit_int_eq_self)
  then have *: "bit n k \<Longrightarrow> k < 24" for k by (metis bit_take_bit_iff)
  have m: "0xFFFFFF = (mask 24 :: u32)" "0xC0000000 = (push_bit 30 (mask 2) :: u32)"
    by (simp_all add: mask_eq_exp_minus_1 push_bit_eq_mult)
  have "(0x40000000 :: int) = 2 ^ 30" by simp
  then have b: "bit (0x40000000 :: int) k \<longleftrightarrow> k = 30" for k
    by (simp only: bit_exp_iff) auto
  show "(0x40000000 OR n) AND 0xFFFFFF = n"
    unfolding m by (rule bit_word_eqI) (use * in \<open>auto simp: bit_simps b\<close>)
  show "(0x40000000 OR n) AND 0xC0000000 = 0x40000000"
    unfolding m by (rule bit_word_eqI) (use * in \<open>force simp: bit_simps b\<close>)
qed

section \<open>Properties\<close>

lemma send_ack_fields:
  assumes "ack_start ack \<noteq> 0" "length buffer = 20"
    and "send_ack False now ack buffer = Inr (pkt, ack', buffer')"
  shows "pkt = Some buffer' \<and> ack' = ack_zero \<and> length buffer' = 20 \<and> get32 buffer' 0 = get32 buffer 0 \<and>
    get32 buffer' 4 = 0x40000000 OR min (ack_ndrop ack) 0xFFFFFF \<and>
    get32 buffer' 12 = ack_start ack \<and> get32 buffer' 16 = ack_last ack"
  using assms
  by (auto simp: send_ack_def Let_def w32.get_put_other w32.get_put min_def)

text \<open>A state of the feedback for the examples.\<close>

definition feedback_demo :: feedback where
  "feedback_demo =
     \<lparr>g_avgpps = Some \<lparr>ra_runlen = 5, ra_values = [100, 100, 100, 100, 0], ra_ticks = 0, ra_index = 4,
                       ra_average = 100, ra_total = 400, ra_min = 1\<rparr>,
      g_avgdrops = Some \<lparr>ra_runlen = 5, ra_values = [10, 20, 0, 0, 0], ra_ticks = 0, ra_index = 4,
                       ra_average = 7, ra_total = 30, ra_min = 1\<rparr>,
      g_pps = Some \<lparr>pps_periodic = periodic_init (Timespec 1 0) 1000000, pps_pps = 1000, pps_target = 1000\<rparr>\<rparr>"

text \<open>C12: a report survives the trip. What \<open>send_ack\<close> sends is recognised as a report by the reader's
  test of the header bits, and \<open>recv_ack\<close> at the other end takes from it the span of sequence
  numbers and the number of drops (at most \<open>0xFFFFFF\<close> are reported); the sender's report is cleared.\<close>

theorem ack_roundtrip:
  assumes "ack_start ack \<noteq> 0" "length buffer = 20" "get32 buffer 0 = 0xFFFFFFFF"
    and "send_ack False now ack buffer = Inr (pkt, ack', buffer')"
    and "mbuf_wf m" "Some (mbuf_bytes m) = pkt"
  shows "get32 (mbuf_bytes m) 4 AND 0xC0000000 = 0x40000000 \<and> ack' = ack_zero \<and>
    recv_ack False m fb =
      (if ack_last ack < ack_start ack then Inr fb
       else ack_feed fb (ack_last ack - ack_start ack) (min (ack_ndrop ack) 0xFFFFFF))"
proof -
  note f = send_ack_fields [OF assms(1,2,4)]
  with assms(6) have b: "mbuf_bytes m = buffer'" by simp
  have "min (ack_ndrop ack) 0xFFFFFF \<le> 0xFFFFFF" by simp
  note w = word_or_and_mask [OF this]
  show ?thesis
    using f w assms(3) recv_ack_bytes [OF assms(5), of fb] by (simp add: b)
qed

theorem ack_roundtrip_witness:
  "\<exists>pkt buffer'. send_ack False (Timespec 7 5000000) \<lparr>ack_start = 3, ack_last = 12, ack_ndrop = 2\<rparr> ack_buffer =
      Inr (Some pkt, ack_zero, buffer') \<and>
    recv_ack False \<lparr>mb_space = pkt, mb_start = 0, mb_end = 20, mb_left = 0, mb_refcnt = 1\<rparr> feedback_demo = ack_feed feedback_demo 9 2"
proof -
  let ?ack = "\<lparr>ack_start = 3, ack_last = 12, ack_ndrop = 2\<rparr>"
  obtain pkt ack' buffer' where e: "send_ack False (Timespec 7 5000000) ?ack ack_buffer = Inr (pkt, ack', buffer')"
    by (simp add: send_ack_def Let_def)
  have len: "length ack_buffer = 20" "get32 ack_buffer 0 = 0xFFFFFFFF"
    by (simp_all add: ack_buffer_def get32_def)
  have f: "pkt = Some buffer'" "length buffer' = 20" "ack' = ack_zero"
    using send_ack_fields [OF _ len(1) e] by auto
  let ?m = "\<lparr>mb_space = buffer', mb_start = 0, mb_end = 20, mb_left = 0, mb_refcnt = 1\<rparr>"
  have "mbuf_wf ?m" "Some (mbuf_bytes ?m) = pkt" using f by (simp_all add: mbuf_wf_def mbuf_bytes_def subseg_def)
  from ack_roundtrip [OF _ len e this, of feedback_demo] e f show ?thesis by auto
qed

text \<open>What a report does to the averages and the rate once both averages have a representation.\<close>

definition feedback_ok :: "u32 list \<Rightarrow> u32 list \<Rightarrow> feedback \<Rightarrow> bool" where
  "feedback_ok rs ds fb \<longleftrightarrow>
     (\<exists>a d pp. g_avgpps fb = Some a \<and> g_avgdrops fb = Some d \<and> g_pps fb = Some pp \<and>
        runavg_repr rs a \<and> runavg_repr ds d \<and> ra_runlen a = 5 \<and> ra_runlen d = 5 \<and> ra_min a = 1 \<and> ra_min d = 1 \<and>
        pps_ok pp \<and> uint (pps_target pp) < 2 ^ 31 \<and> length rs = length ds)"

definition feedback_rate :: "feedback \<Rightarrow> int" where
  "feedback_rate fb = (case g_pps fb of Some pp \<Rightarrow> uint (pps_pps pp) | None \<Rightarrow> 0)"

definition feedback_target :: "feedback \<Rightarrow> int" where
  "feedback_target fb = (case g_pps fb of Some pp \<Rightarrow> uint (pps_target pp) | None \<Rightarrow> 0)"

text \<open>The rate that the mean number of drops \<open>avg\<close> asks for.\<close>

definition next_rate :: "int \<Rightarrow> int \<Rightarrow> int \<Rightarrow> int" where
  "next_rate target rate avg =
     (if avg = 0 then min target (rate + 1) else if avg \<le> rate then max 1 (rate - avg) else target)"

lemma ack_rate_eq:
  assumes "pps_ok pp" "uint (pps_target pp) < 2 ^ 31" "avgpps \<noteq> 0" "uint avg < 2 ^ 31"
  shows "\<exists>pp'. ack_rate avg avgpps pp = Inr pp' \<and> pps_ok pp' \<and> pps_target pp' = pps_target pp \<and>
    uint (pps_pps pp') = next_rate (uint (pps_target pp)) (uint (pps_pps pp)) (uint avg)"
proof (cases "avg = 0")
  case True
  have "1 \<le> uint (pps_pps pp)" using assms(1) by (simp add: pps_ok_def word_le_def)
  moreover have "uint (pps_pps pp) \<le> uint (pps_target pp)" using assms(1) by (simp add: pps_ok_def word_le_def)
  ultimately show ?thesis
    using True pps_change_value [OF assms(1,2), of 1] by (auto simp: ack_rate_def next_rate_def)
next
  case False
  have neg: "sint (- avg) = - uint avg"
  proof -
    have "- avg = word_of_int (- uint avg)" by simp
    then have "sint (- avg) = signed_take_bit 31 (- uint avg)" by (simp only: signed_of_int) simp
    also have "\<dots> = - uint avg" using assms(4) uint_ge_0 [of avg] by (intro signed_take_bit_int_eq_self) linarith+
    finally show ?thesis .
  qed
  have le: "uint (pps_pps pp) \<le> uint (pps_target pp)" using assms(1) by (simp add: pps_ok_def word_le_def)
  have pos: "0 < uint avg" using False uint_ge_0 [of avg] by (simp add: word_uint_eq_iff less_le)
  from pps_change_value [OF assms(1,2), of "- uint avg"] assms(4) show ?thesis
    using False neg assms(3) le pos
    by (auto simp: ack_rate_def runavg_div_def next_rate_def word_uint_eq_iff)
qed

text \<open>The mean of the last \<open>n\<close> values as \<open>runavg_add\<close> forms it: at least one unless all are zero.\<close>

definition mean_up :: "nat \<Rightarrow> u32 list \<Rightarrow> nat" where
  "mean_up n hs = (if window_sum n hs = 0 then 0 else max 1 (window_sum n hs div n))"

lemma window_average_up:
  assumes "window_sum 5 hs < 2 ^ 32" "5 \<le> length hs"
  shows "unat (window_average 5 1 hs) = mean_up 5 hs" "window_average 5 1 hs = 0 \<longleftrightarrow> window_sum 5 hs = 0"
proof -
  show u: "unat (window_average 5 1 hs) = mean_up 5 hs"
    using window_average_nat [of 5 1 hs] assms by (simp add: mean_up_def Let_def min_def)
  show "window_average 5 1 hs = 0 \<longleftrightarrow> window_sum 5 hs = 0"
    using u by (simp add: unat_eq_0 [symmetric] mean_up_def)
qed

lemma window_sum_le:
  assumes "\<forall>d \<in> set hs. d \<le> 0xFFFFFF"
  shows "window_sum 5 hs \<le> 5 * 0xFFFFFF"
proof -
  have "\<forall>k \<in> set (map unat (window 5 hs)). k \<le> 0xFFFFFF"
    using assms set_drop_subset [of _ hs] by (fastforce simp: window_def word_le_nat_alt)
  then have "sum_list (map unat (window 5 hs)) \<le> sum_list (map (\<lambda>_. 0xFFFFFF) (window 5 hs))"
    by (intro sum_list_mono) simp
  also have "\<dots> = length (window 5 hs) * 0xFFFFFF" by (simp add: sum_list_triv)
  also have "\<dots> \<le> 5 * 0xFFFFFF" by (simp add: length_window)
  finally show ?thesis by (simp add: window_sum_def)
qed

text \<open>What a report with the span \<open>runlen\<close> and the count \<open>ndrop\<close> does.\<close>

lemma ack_feed_cases:
  assumes ok: "feedback_ok rs ds fb" and len: "Suc (length ds) div 5 < 2 ^ 32"
    and spans: "window_sum 5 (rs @ [runlen]) < 2 ^ 32" and drops: "\<forall>d \<in> set (ds @ [ndrop]). d \<le> 0xFFFFFF"
  shows "case ack_feed fb runlen ndrop of
      Inl e \<Rightarrow> e = DivByZero \<and> Suc (length ds) mod 5 = 0 \<and> window_sum 5 (ds @ [ndrop]) \<noteq> 0 \<and> window_sum 5 (rs @ [runlen]) = 0
    | Inr fb' \<Rightarrow> (Suc (length ds) mod 5 \<noteq> 0 \<or> window_sum 5 (ds @ [ndrop]) = 0 \<or> window_sum 5 (rs @ [runlen]) \<noteq> 0) \<and>
        feedback_ok (rs @ [runlen]) (ds @ [ndrop]) fb' \<and> feedback_target fb' = feedback_target fb \<and>
        feedback_rate fb' =
          (if Suc (length ds) mod 5 = 0
           then next_rate (feedback_target fb) (feedback_rate fb) (int (mean_up 5 (ds @ [ndrop]))) else feedback_rate fb)"
proof -
  let ?fifth = "Suc (length ds) mod 5 = 0" and ?wr = "window_average 5 1 (rs @ [runlen])" and ?wd = "window_average 5 1 (ds @ [ndrop])"
  from ok obtain a d pp where g: "g_avgpps fb = Some a" "g_avgdrops fb = Some d" "g_pps fb = Some pp"
    and r: "runavg_repr rs a" "runavg_repr ds d" "ra_runlen a = 5" "ra_runlen d = 5" "ra_min a = 1" "ra_min d = 1"
    and p: "pps_ok pp" "uint (pps_target pp) < 2 ^ 31" and l: "length rs = length ds"
    by (auto simp: feedback_ok_def)
  from runavg_add_window [OF r(1), of runlen] r l len obtain a' where
    a': "runavg_add a runlen = Inr (?fifth, a')" "runavg_repr (rs @ [runlen]) a'" "ra_runlen a' = 5" "ra_min a' = 1"
      "ra_average a' = ?wr" by auto
  from runavg_add_window [OF r(2), of ndrop] r len obtain d' where
    d': "runavg_add d ndrop = Inr (?fifth, d')" "runavg_repr (ds @ [ndrop]) d'" "ra_runlen d' = 5" "ra_min d' = 1"
      "ra_average d' = ?wd" by auto
  let ?fb = "fb\<lparr>g_avgpps := Some a', g_avgdrops := Some d'\<rparr>"
  have feed: "ack_feed fb runlen ndrop = (if ?fifth then bindE (ack_rate ?wd ?wr pp) (\<lambda>pp'. Inr (?fb\<lparr>g_pps := Some pp'\<rparr>)) else Inr ?fb)"
    using g a'(1,5) d'(1,5) by (simp add: ack_feed_def deref_def Let_def)
  have new: "feedback_ok (rs @ [runlen]) (ds @ [ndrop]) (?fb\<lparr>g_pps := Some pp'\<rparr>)"
    if "pps_ok pp'" "pps_target pp' = pps_target pp" for pp'
    using that a' d' p l by (simp add: feedback_ok_def)
  have same: "?fb\<lparr>g_pps := Some pp\<rparr> = ?fb" using g by simp
  show ?thesis
  proof (cases ?fifth)
    case False
    have "feedback_ok (rs @ [runlen]) (ds @ [ndrop]) ?fb" using new [OF p(1) refl] unfolding same .
    with False feed g show ?thesis by (simp add: feedback_rate_def feedback_target_def)
  next
    case True
    then have n: "5 \<le> length (ds @ [ndrop])" "5 \<le> length (rs @ [runlen])" using l by (auto simp: mod_eq_0_iff_dvd dest: dvd_imp_le)
    have d32: "window_sum 5 (ds @ [ndrop]) < 2 ^ 32" "window_sum 5 (ds @ [ndrop]) < 2 ^ 31"
      using window_sum_le [OF drops] by simp_all
    note wd = window_average_up [OF d32(1) n(1)] and wr = window_average_up [OF spans n(2)]
    show ?thesis
    proof (cases "window_sum 5 (ds @ [ndrop]) \<noteq> 0 \<and> window_sum 5 (rs @ [runlen]) = 0")
      case z: True
      with wd wr have "ack_rate ?wd ?wr pp = Inl DivByZero" by (simp add: ack_rate_def runavg_div_def)
      with True feed z show ?thesis by simp
    next
      case nz: False
      have "mean_up 5 (ds @ [ndrop]) < 2 ^ 31"
        using le_less_trans [OF div_le_dividend d32(2), of 5] by (simp add: mean_up_def)
      then have u: "uint ?wd = int (mean_up 5 (ds @ [ndrop]))" "uint ?wd < 2 ^ 31" using wd(1) by (simp_all flip: uint_nat add: uint_nat)
      have "\<exists>pp'. ack_rate ?wd ?wr pp = Inr pp' \<and> pps_ok pp' \<and> pps_target pp' = pps_target pp \<and>
          uint (pps_pps pp') = next_rate (uint (pps_target pp)) (uint (pps_pps pp)) (uint ?wd)"
      proof (cases "?wr = 0")
        case True
        with nz wd(2) wr(2) have "?wd = 0" by blast
        with ack_rate_eq [OF p, of 1 ?wd] show ?thesis by (simp add: ack_rate_def)
      qed (use ack_rate_eq [OF p _ u(2)] in blast)
      then obtain pp' where pp': "ack_rate ?wd ?wr pp = Inr pp'" "pps_ok pp'" "pps_target pp' = pps_target pp"
          "uint (pps_pps pp') = next_rate (uint (pps_target pp)) (uint (pps_pps pp)) (uint ?wd)" by blast
      from new [OF pp'(2,3)] pp'(1,3,4) True feed nz g u(1) show ?thesis
        by (simp add: feedback_rate_def feedback_target_def)
    qed
  qed
qed

text \<open>The rate after the cut that the comment of \<open>recv_ack\<close> announces: a quarter of the percentage of \<open>drops\<close> in \<open>span\<close>.\<close>

definition announced_rate :: "int \<Rightarrow> int \<Rightarrow> int \<Rightarrow> int" where
  "announced_rate rate drops span = rate - rate * max 1 (100 * drops div span) div 400"

text \<open>C13: the congestion control. A report of twenty bytes that starts with four of ones is fed to the two averages, unless its
  range is reversed. Each fifth one changes the sending rate: up by one packet per second, to the target at most,
  when none of the last five reports a drop; otherwise down by the mean of the five drop counts, at least one, to
  no less than one (a mean above the rate puts it back to the target). With
  drops, and all five spans zero, it divides by zero. The four reports in between leave the rate.
  The comment of \<open>recv_ack\<close> announces another cut, of a quarter of the percentage dropped; that percentage is computed and
  not used. In the example of the witness it would take the rate from 1000 to 983, and the code takes it to 993.
  The state is one that earlier reports have led to (\<open>feedback_ok\<close>): the averages hold their spans \<open>rs\<close> and counts \<open>ds\<close>, of 24 bits
  each, and the target rate is below \<open>2^31\<close>. The spans of five reports are assumed to sum up to less than \<open>2^32\<close>.\<close>

theorem recv_ack_controls_rate:
  assumes "mbuf_wf m" "length (mbuf_bytes m) = 20" "get32 (mbuf_bytes m) 0 = 0xFFFFFFFF"
    and "seq1 = get32 (mbuf_bytes m) 12" "seq2 = get32 (mbuf_bytes m) 16" "ndrop = get32 (mbuf_bytes m) 4 AND 0xFFFFFF"
    and "feedback_ok rs ds fb" "Suc (length ds) div 5 < 2 ^ 32"
    and "window_sum 5 (rs @ [seq2 - seq1]) < 2 ^ 32" "\<forall>d \<in> set ds. d \<le> 0xFFFFFF"
  shows "if seq2 < seq1 then recv_ack False m fb = Inr fb
    else (case recv_ack False m fb of
      Inl e \<Rightarrow> e = DivByZero \<and> Suc (length ds) mod 5 = 0 \<and> window_sum 5 (ds @ [ndrop]) \<noteq> 0 \<and> window_sum 5 (rs @ [seq2 - seq1]) = 0
    | Inr fb' \<Rightarrow> (Suc (length ds) mod 5 \<noteq> 0 \<or> window_sum 5 (ds @ [ndrop]) = 0 \<or> window_sum 5 (rs @ [seq2 - seq1]) \<noteq> 0) \<and>
        feedback_ok (rs @ [seq2 - seq1]) (ds @ [ndrop]) fb' \<and> feedback_target fb' = feedback_target fb \<and>
        feedback_rate fb' =
          (if Suc (length ds) mod 5 \<noteq> 0 then feedback_rate fb
           else if window_sum 5 (ds @ [ndrop]) = 0 then min (feedback_target fb) (feedback_rate fb + 1)
           else let cut = int (max 1 (window_sum 5 (ds @ [ndrop]) div 5))
                in if cut \<le> feedback_rate fb then max 1 (feedback_rate fb - cut) else feedback_target fb))"
proof -
  have "ndrop \<le> 0xFFFFFF" unfolding assms(6) by (rule word_and_le1)
  then have "\<forall>d \<in> set (ds @ [ndrop]). d \<le> 0xFFFFFF" using assms(10) by simp
  from ack_feed_cases [OF assms(7-9) this] recv_ack_bytes [OF assms(1,2), of fb] assms(3-6) show ?thesis
    by (auto simp: next_rate_def mean_up_def Let_def split: sum.splits)
qed

lemma feedback_demo_ok: "feedback_ok [100, 100, 100, 100] [10, 20, 0, 0] feedback_demo"
  by (simp add: feedback_ok_def feedback_demo_def runavg_repr_def ring_shape_def window_def pps_ok_def)

theorem recv_ack_controls_rate_witness:
  "\<exists>fb'. recv_ack False \<lparr>mb_space = [0xFF, 0xFF, 0xFF, 0xFF, 0x40, 0, 0, 5, 0, 0, 0, 0, 0, 0, 0, 1, 0, 0, 0, 101],
       mb_start = 0, mb_end = 20, mb_left = 0, mb_refcnt = 1\<rparr> feedback_demo = Inr fb' \<and>
     feedback_rate fb' = 993 \<and> announced_rate 1000 7 100 = 983"
proof -
  let ?m = "\<lparr>mb_space = [0xFF, 0xFF, 0xFF, 0xFF, 0x40, 0, 0, 5, 0, 0, 0, 0, 0, 0, 0, 1, 0, 0, 0, 101],
       mb_start = 0, mb_end = 20, mb_left = 0, mb_refcnt = 1\<rparr> :: mbuf"
  have m: "mbuf_wf ?m" "length (mbuf_bytes ?m) = 20" "get32 (mbuf_bytes ?m) 0 = 0xFFFFFFFF"
    "1 = get32 (mbuf_bytes ?m) 12" "101 = get32 (mbuf_bytes ?m) 16" "5 = get32 (mbuf_bytes ?m) 4 AND 0xFFFFFF"
    by (simp_all add: mbuf_wf_def mbuf_bytes_def subseg_def get32_def)
  have w: "window_sum 5 [100, 100, 100, 100, 100] = 500" "window_sum 5 [10, 20, 0, 0, 5] = 35"
    by (simp_all add: window_sum_def window_def)
  have f: "feedback_rate feedback_demo = 1000" by (simp add: feedback_rate_def feedback_demo_def)
  have "window_sum 5 ([100, 100, 100, 100] @ [101 - 1]) < 2 ^ 32" "\<forall>d \<in> set [10, 20, 0, 0 :: u32]. d \<le> 0xFFFFFF"
    using w by simp_all
  from recv_ack_controls_rate [OF m feedback_demo_ok _ this] show ?thesis
    by (auto simp: w f announced_rate_def split: sum.splits)
qed

text \<open>C22: a peer can end the program. When the last five reports all have an empty span of sequence
  numbers but the drop counts are not all zero, the fifth report divides by the zero average.\<close>

theorem recv_ack_divides_by_zero:
  assumes "feedback_ok rs ds fb" "Suc (length ds) div 5 < 2 ^ 32" "Suc (length ds) mod 5 = 0"
    and "window_average 5 1 (rs @ [runlen]) = 0" "window_average 5 1 (ds @ [ndrop]) \<noteq> 0"
  shows "ack_feed fb runlen ndrop = Inl DivByZero"
proof -
  from assms(1) obtain a d pp where g: "g_avgpps fb = Some a" "g_avgdrops fb = Some d" "g_pps fb = Some pp"
    and r: "runavg_repr rs a" "runavg_repr ds d" "ra_runlen a = 5" "ra_runlen d = 5" "ra_min a = 1" "ra_min d = 1"
    and l: "length rs = length ds"
    by (auto simp: feedback_ok_def)
  from runavg_add_window [OF r(1), of runlen] r l assms(2) obtain a' where
    a': "runavg_add a runlen = Inr (Suc (length ds) mod 5 = 0, a')" "ra_average a' = 0" using assms(4) by auto
  from runavg_add_window [OF r(2), of ndrop] r assms(2) obtain d' where
    d': "runavg_add d ndrop = Inr (Suc (length ds) mod 5 = 0, d')" "ra_average d' \<noteq> 0" using assms(5) by auto
  show ?thesis
    using g a' d' assms(3) by (simp add: ack_feed_def deref_def Let_def ack_rate_def runavg_div_def)
qed

theorem recv_ack_divides_by_zero_witness:
  "ack_feed (feedback_demo\<lparr>g_avgpps := Some \<lparr>ra_runlen = 5, ra_values = [0, 0, 0, 0, 0], ra_ticks = 0, ra_index = 4,
      ra_average = 0, ra_total = 0, ra_min = 1\<rparr>\<rparr>) 0 5 = Inl DivByZero"
  by (rule recv_ack_divides_by_zero [of "[0, 0, 0, 0]" "[10, 20, 0, 0]"])
     (simp_all add: feedback_ok_def feedback_demo_def runavg_repr_def ring_shape_def window_def pps_ok_def
        window_average_def Let_def word_uint_eq_iff uint_div)

end
