(* ===== verification/Ratelimit.thy ===== *)
theory Ratelimit
  imports Clock
begin

text \<open>
  The receive rate limiter of \<open>src/src/util.c\<close> (\<open>struct ratelimit\<close>, \<open>new_ratelimit\<close>,
  \<open>limit\<close>): a ring of the sizes and arrival times of the last \<open>count\<close> accepted packets and the
  running total of their bytes.
\<close>

section \<open>State and operations\<close>

record ratelimit =
  rl_rate :: u64
  rl_overhead :: u32
  rl_count :: u32
  rl_totb :: u64
  rl_ndrops :: u64
  rl_pktidx :: u32
  rl_times :: "timespec list"
  rl_sizes :: "u16 list"

definition new_ratelimit :: "u32 \<Rightarrow> u32 \<Rightarrow> u32 \<Rightarrow> ratelimit" where
  "new_ratelimit rate overhead count =
     \<lparr>rl_rate = ucast (rate div 8), rl_overhead = overhead, rl_count = count, rl_totb = 0,
      rl_ndrops = 0, rl_pktidx = 0, rl_times = replicate (unat count) (Timespec 0 0),
      rl_sizes = replicate (unat count) 0\<rparr>"

definition ts_isset :: "timespec \<Rightarrow> bool" where
  "ts_isset t \<longleftrightarrow> tv_sec t \<noteq> 0 \<or> tv_nsec t \<noteq> 0"

definition limit_rate :: "u64 \<Rightarrow> timespec \<Rightarrow> timespec \<Rightarrow> u64 res" where
  "limit_rate ntotb otime ntime =
     (if ts_isset otime
      then (let delta = clock_delta ntime otime
            in bindE (requireE DivByZero (delta \<noteq> 0))
                 (\<lambda>_. Inr (ntotb * word_of_int NSECS_IN_SEC div delta)))
      else Inr 0)"

definition limit :: "ratelimit \<Rightarrow> u32 \<Rightarrow> timespec \<Rightarrow> (bool \<times> ratelimit) res" where
  "limit rl n ntime =
     (let i = unat (rl_pktidx rl) in
      bindE (requireE OutOfBounds (i < length (rl_times rl) \<and> i < length (rl_sizes rl))) (\<lambda>_.
      let ntotb = rl_totb rl + ucast n - ucast (rl_sizes rl ! i);
          n' = (if n > rl_overhead rl then n - rl_overhead rl else n)
      in bindE (limit_rate ntotb (rl_times rl ! i) ntime) (\<lambda>rate.
         if rate > rl_rate rl then Inr (True, rl\<lparr>rl_ndrops := rl_ndrops rl + 1\<rparr>)
         else bindE (requireE DivByZero (rl_count rl \<noteq> 0)) (\<lambda>_.
              Inr (False, rl\<lparr>rl_totb := ntotb, rl_times := (rl_times rl)[i := ntime],
                             rl_sizes := (rl_sizes rl)[i := ucast n'],
                             rl_pktidx := (rl_pktidx rl + 1) mod rl_count rl\<rparr>)))))"

section \<open>The total is the sum of the window\<close>

definition window_bytes :: "u16 list \<Rightarrow> int" where
  "window_bytes ss = (\<Sum>s\<leftarrow>ss. uint s)"

definition rl_ok :: "ratelimit \<Rightarrow> bool" where
  "rl_ok rl \<longleftrightarrow> rl_overhead rl = 0 \<and> 0 < rl_count rl \<and> rl_count rl \<le> 1024 \<and>
     length (rl_times rl) = unat (rl_count rl) \<and> length (rl_sizes rl) = unat (rl_count rl) \<and>
     rl_pktidx rl < rl_count rl \<and> uint (rl_totb rl) = window_bytes (rl_sizes rl)"

lemma window_bytes_update:
  "i < length ss \<Longrightarrow> window_bytes (ss[i := s]) = window_bytes ss + uint s - uint (ss ! i)"
proof (induction ss arbitrary: i)
  case Nil
  then show ?case by simp
next
  case (Cons a ss)
  then show ?case by (cases i) (auto simp: window_bytes_def)
qed

lemma uint_u16_bounds: "0 \<le> uint s" "uint s \<le> 65535" for s :: u16
  using uint_lt2p [of s] by simp_all

lemma window_bytes_bounds: "0 \<le> window_bytes ss" "window_bytes ss \<le> 65535 * int (length ss)"
proof -
  show "0 \<le> window_bytes ss" unfolding window_bytes_def by (induction ss) auto
  show "window_bytes ss \<le> 65535 * int (length ss)"
    unfolding window_bytes_def
    by (induction ss) (auto simp: algebra_simps intro!: add_mono uint_u16_bounds)
qed

lemma rl_ok_new: "0 < count \<Longrightarrow> count \<le> 1024 \<Longrightarrow> rl_ok (new_ratelimit rate 0 count)"
  by (simp add: rl_ok_def new_ratelimit_def window_bytes_def sum_list_replicate)

lemma limit_total:
  fixes n :: u32
  assumes "rl_ok rl" "n < 65536"
  defines "i \<equiv> unat (rl_pktidx rl)"
  shows "i < length (rl_sizes rl)" "i < length (rl_times rl)"
    and "uint (rl_totb rl + ucast n - ucast (rl_sizes rl ! i)) = window_bytes ((rl_sizes rl)[i := ucast n])"
    and "window_bytes ((rl_sizes rl)[i := ucast n]) \<le> 65535 * 1024"
proof -
  from assms(1) show i: "i < length (rl_sizes rl)" and "i < length (rl_times rl)"
    by (auto simp: rl_ok_def i_def word_less_nat_alt)
  have len: "int (length (rl_sizes rl)) \<le> 1024"
    using assms(1) by (auto simp: rl_ok_def word_le_def)
  have u: "uint (ucast n :: u16) = uint n"
    using assms(2) by (simp add: unsigned_ucast_eq take_bit_eq_mod word_less_def)
  have w: "window_bytes ((rl_sizes rl)[i := ucast n]) = uint (rl_totb rl) + uint n - uint (rl_sizes rl ! i)"
    using assms(1) i by (simp add: window_bytes_update rl_ok_def u)
  show le: "window_bytes ((rl_sizes rl)[i := ucast n]) \<le> 65535 * 1024"
    using window_bytes_bounds(2) [of "(rl_sizes rl)[i := ucast n]"] len by simp
  have "uint (rl_totb rl + ucast n - ucast (rl_sizes rl ! i)) =
      window_bytes ((rl_sizes rl)[i := ucast n]) mod 2 ^ 64"
    unfolding w by (simp add: uint_word_ariths unsigned_ucast_eq take_bit_eq_mod mod_simps)
  with le window_bytes_bounds(1) [of "(rl_sizes rl)[i := ucast n]"]
  show "uint (rl_totb rl + ucast n - ucast (rl_sizes rl ! i)) = window_bytes ((rl_sizes rl)[i := ucast n])"
    by simp
qed

lemma limit_rate_exact:
  assumes "uint tot \<le> 65535 * 1024" "ts_ok now" "ts_ok old" "old < now" "tv_sec now - tv_sec old \<le> 4"
    and "ts_isset old"
  shows "\<exists>r. limit_rate tot old now = Inr r \<and>
     uint r = uint tot * NSECS_IN_SEC div (nanos now - nanos old)"
proof -
  have d: "uint (clock_delta now old) = nanos now - nanos old"
    using assms by (intro clock_delta_small) auto
  have "0 < nanos now - nanos old"
    using assms(2-4) by (auto simp: less_timespec_def ts_defs)
  with d have "clock_delta now old \<noteq> 0" by auto
  moreover have "uint (tot * word_of_int NSECS_IN_SEC :: u64) = uint tot * NSECS_IN_SEC"
    using assms(1) by (simp add: uint_word_ariths uint_word_of_int const_defs)
  ultimately show ?thesis
    using assms(6) by (simp add: limit_rate_def uint_div_distrib d)
qed

lemma pktidx_step:
  "c \<noteq> 0 \<Longrightarrow> (x + 1) mod c < (c :: u32)"
  by (simp add: word_mod_less_divisor word_gt_0)

lemma limit_unfold:
  assumes "rl_ok rl" "n < 65536"
  defines "i \<equiv> unat (rl_pktidx rl)"
  defines "tot \<equiv> rl_totb rl + ucast n - ucast (rl_sizes rl ! i)"
  shows "limit rl n now = bindE (limit_rate tot (rl_times rl ! i) now) (\<lambda>rate.
      if rate > rl_rate rl then Inr (True, rl\<lparr>rl_ndrops := rl_ndrops rl + 1\<rparr>)
      else Inr (False, rl\<lparr>rl_totb := tot, rl_times := (rl_times rl)[i := now],
                         rl_sizes := (rl_sizes rl)[i := ucast n],
                         rl_pktidx := (rl_pktidx rl + 1) mod rl_count rl\<rparr>))"
proof -
  have "rl_overhead rl = 0" "rl_count rl \<noteq> 0" using assms(1) by (auto simp: rl_ok_def)
  then show ?thesis
    using limit_total [OF assms(1,2), folded i_def]
    by (simp add: limit_def i_def [symmetric] tot_def [symmetric] Let_def cong: if_cong)
qed

lemma limit_ok:
  assumes "rl_ok rl" "n < 65536" "limit rl n now = Inr (b, rl')"
  shows "rl_ok rl'"
proof (cases b)
  case True
  with assms(1,3) show ?thesis
    unfolding limit_unfold [OF assms(1,2)] by (auto simp: res_simps rl_ok_def split: if_splits)
next
  case False
  with assms(3) have rl': "rl' = rl\<lparr>
      rl_totb := rl_totb rl + ucast n - ucast (rl_sizes rl ! unat (rl_pktidx rl)),
      rl_times := (rl_times rl)[unat (rl_pktidx rl) := now],
      rl_sizes := (rl_sizes rl)[unat (rl_pktidx rl) := ucast n],
      rl_pktidx := (rl_pktidx rl + 1) mod rl_count rl\<rparr>"
    unfolding limit_unfold [OF assms(1,2)] by (auto simp: res_simps split: if_splits)
  have "rl_count rl \<noteq> 0" using assms(1) by (auto simp: rl_ok_def)
  with assms(1) limit_total(3) [OF assms(1,2)] show ?thesis
    unfolding rl' by (simp add: rl_ok_def pktidx_step)
qed

fun limit_run :: "ratelimit \<Rightarrow> (u32 \<times> timespec) list \<Rightarrow> ratelimit res" where
  "limit_run rl [] = Inr rl"
| "limit_run rl ((n, now) # ps) = bindE (limit rl n now) (\<lambda>(_, rl'). limit_run rl' ps)"

lemma limit_run_ok:
  "rl_ok rl \<Longrightarrow> \<forall>(n, t) \<in> set ps. n < 65536 \<Longrightarrow> limit_run rl ps = Inr rl' \<Longrightarrow> rl_ok rl'"
proof (induction ps arbitrary: rl)
  case Nil
  then show ?case by simp
next
  case (Cons p ps)
  then show ?case by (cases p) (auto simp: res_simps dest: limit_ok)
qed

text \<open>C35: whatever packets of at most 65535 bytes have gone through a limiter created without
  overhead, its running byte total is the sum of the sizes of the packets in its window, and its
  index and arrays stay within the window size.\<close>

theorem limit_total_is_window_sum:
  assumes "0 < count" "count \<le> 1024" "\<forall>(n, t) \<in> set ps. n < 65536"
    and "limit_run (new_ratelimit rate 0 count) ps = Inr rl"
  shows "uint (rl_totb rl) = window_bytes (rl_sizes rl) \<and> rl_pktidx rl < rl_count rl \<and>
         length (rl_sizes rl) = unat (rl_count rl)"
  using limit_run_ok [OF rl_ok_new [OF assms(1,2)] assms(3,4)] by (simp add: rl_ok_def)

theorem limit_total_is_window_sum_witness:
  "\<exists>rl. limit_run (new_ratelimit 80000000 0 2) [(1500, Timespec 5 0), (60, Timespec 5 1000), (900, Timespec 5 900000)]
     = Inr rl \<and> uint (rl_totb rl) = 960"
proof -
  have rl: "limit_run (new_ratelimit 80000000 0 2)
      [(1500, Timespec 5 0), (60, Timespec 5 1000), (900, Timespec 5 900000)] =
    Inr \<lparr>rl_rate = 10000000, rl_overhead = 0, rl_count = 2, rl_totb = 960, rl_ndrops = 0, rl_pktidx = 1,
      rl_times = [Timespec 5 900000, Timespec 5 1000], rl_sizes = [900, 60]\<rparr>"
    by code_simp
  from limit_total_is_window_sum [OF _ _ _ rl] rl show ?thesis
    by (simp add: window_bytes_def)
qed

text \<open>C36: the decision itself: when the slot to be reused holds a time stamp less than five seconds
  old, the packet is refused exactly when the bytes of the window with this packet, over the time
  since that stamp, exceed the configured bytes per second; a refusal changes only the drop count.\<close>

theorem limit_refuses_above_rate:
  assumes "rl_ok rl" "n < 65536"
  defines "old \<equiv> rl_times rl ! unat (rl_pktidx rl)"
  assumes "ts_ok now" "ts_ok old" "old < now" "tv_sec now - tv_sec old \<le> 4" "ts_isset old"
  shows "\<exists>b rl'. limit rl n now = Inr (b, rl') \<and>
     (b \<longleftrightarrow> uint (rl_rate rl) <
        window_bytes ((rl_sizes rl)[unat (rl_pktidx rl) := ucast n]) * NSECS_IN_SEC div
          (nanos now - nanos old)) \<and>
     (b \<longrightarrow> rl' = rl\<lparr>rl_ndrops := rl_ndrops rl + 1\<rparr>)"
proof -
  note t = limit_total [OF assms(1,2)]
  from limit_rate_exact [of "rl_totb rl + ucast n - ucast (rl_sizes rl ! unat (rl_pktidx rl))" now old]
  obtain r where "limit_rate (rl_totb rl + ucast n - ucast (rl_sizes rl ! unat (rl_pktidx rl))) old now = Inr r"
    and "uint r = window_bytes ((rl_sizes rl)[unat (rl_pktidx rl) := ucast n]) * NSECS_IN_SEC div
          (nanos now - nanos old)"
    using t assms(4-) by auto
  then show ?thesis
    unfolding limit_unfold [OF assms(1,2)] old_def by (auto simp: word_less_def)
qed

theorem limit_refuses_above_rate_witness:
  "\<exists>rl'. limit \<lparr>rl_rate = 1000, rl_overhead = 0, rl_count = 1, rl_totb = 700, rl_ndrops = 0, rl_pktidx = 0,
        rl_times = [Timespec 9 0], rl_sizes = [700]\<rparr> 1100 (Timespec 10 0) = Inr (True, rl')"
  using limit_refuses_above_rate [of "\<lparr>rl_rate = 1000, rl_overhead = 0, rl_count = 1, rl_totb = 700,
      rl_ndrops = 0, rl_pktidx = 0, rl_times = [Timespec 9 0], rl_sizes = [700]\<rparr>" 1100 "Timespec 10 0"]
  by (auto simp: rl_ok_def window_bytes_def ts_defs less_timespec_def ts_isset_def)

end
