(* ===== verification/ReadTfs.thy ===== *)
theory ReadTfs
  imports Egress Ack Ratelimit
begin

text \<open>
  The receiving threads of \<open>src/src/iptfs.c\<close>: one turn of the loops of \<open>read_tfs_pkts\<close> and of
  \<open>write_intf_pkts\<close>. A turn takes the clock readings and the result of \<open>recvfrom\<close> as arguments.
\<close>

section \<open>The reading thread\<close>

record rtfs =
  rt_eg :: egress
  rt_tbuf :: nat
  rt_m :: "nat option"
  rt_ack :: ackinfo
  rt_rl :: "ratelimit option"
  rt_timer :: stimer
  rt_ackbuf :: bytes
  rt_fb :: feedback

definition eg_put :: "nat \<Rightarrow> mbuf \<Rightarrow> egress \<Rightarrow> egress" where
  "eg_put a b st = st\<lparr>eg_mem := (eg_mem st)\<lparr>m_mbufs := (m_mbufs (eg_mem st))(a := b)\<rparr>\<rparr>"

text \<open>
  What comes before the loop. \<open>timer\<close> is the uninitialised timer, which one-only mode leaves as it is.
\<close>

definition read_tfs_start :: "bool \<Rightarrow> u64 \<Rightarrow> u64 \<Rightarrow> timespec \<Rightarrow> stimer \<Rightarrow> bytes \<Rightarrow> feedback \<Rightarrow> egress \<Rightarrow> rtfs res" where
  "read_tfs_start oneonly ack_ms congest_rate now timer ackbuf fb eg =
     bindE (mqueue_pop (m_freeq (eg_mem eg))) (\<lambda>(a, q).
     let eg1 = eg\<lparr>eg_mem := (eg_mem eg)\<lparr>m_freeq := q\<rparr>\<rparr>;
         b = eg_mbuf eg1 a
     in Inr \<lparr>rt_eg = eg_put a (b\<lparr>mb_refcnt := mb_refcnt b + 1\<rparr>) eg1, rt_tbuf = a, rt_m = None, rt_ack = ack_zero,
             rt_rl = (if congest_rate > 0 then Some (new_ratelimit (ucast congest_rate) 0 10) else None),
             rt_timer = (if oneonly then timer else st_reset now (ack_ms * 1000000)),
             rt_ackbuf = ackbuf, rt_fb = fb\<rparr>)"

text \<open>The buffer for the next packet: the old one again if nothing refers to it.\<close>

definition tbuf_turn :: "nat \<Rightarrow> egress \<Rightarrow> (nat \<times> egress) res" where
  "tbuf_turn tb eg =
     (let b = eg_mbuf eg tb; eg1 = eg_put tb (b\<lparr>mb_refcnt := mb_refcnt b - 1\<rparr>) eg in
      bindE (if mb_refcnt b = 1
             then bindE (mbuf_reset (eg_mbuf eg1 tb) HDRSPACE) (\<lambda>b'. Inr (tb, eg_put tb b' eg1))
             else bindE (mqueue_pop (m_freeq (eg_mem eg1)))
                    (\<lambda>(a, q). Inr (a, eg1\<lparr>eg_mem := (eg_mem eg1)\<lparr>m_freeq := q\<rparr>\<rparr>)))
        (\<lambda>(a, eg2). Inr (a, eg_put a ((eg_mbuf eg2 a)\<lparr>mb_refcnt := 1\<rparr>) eg2)))"

text \<open>
  A datagram is written to the buffer as far as there is room; the result is the number of bytes written.
\<close>

datatype recv = RecvErr | Recv bytes

definition tbuf_recv :: "nat \<Rightarrow> bytes \<Rightarrow> egress \<Rightarrow> nat \<times> egress" where
  "tbuf_recv a d eg =
     (let b = eg_mbuf eg a; n = min (length d) (nat (MBUF_AVAIL b))
      in (n, eg_put a (b\<lparr>mb_space := splice_at (mb_start b) (take n d) (mb_space b)\<rparr>) eg))"

definition rt_drop :: "rtfs \<Rightarrow> rtfs" where
  "rt_drop rt = rt\<lparr>rt_ack := (rt_ack rt)\<lparr>ack_ndrop := ack_ndrop (rt_ack rt) + 1\<rparr>\<rparr>"

text \<open>The checks before the packet is looked at: whether it is let in.\<close>

definition read_tfs_admit :: "nat \<Rightarrow> timespec \<Rightarrow> rtfs \<Rightarrow> (bool \<times> rtfs) res" where
  "read_tfs_admit n now rt =
     (if n = 0 then Inr (False, rt)
      else if n < 8 then Inr (False, rt_drop rt)
      else case rt_rl rt of
        None \<Rightarrow> Inr (True, rt)
      | Some rl \<Rightarrow> bindE (limit rl (word_of_nat n) now) (\<lambda>(over, rl').
          let rt' = rt\<lparr>rt_rl := Some rl'\<rparr> in Inr (if over then (False, rt_drop rt') else (True, rt'))))"

text \<open>A data packet: duplicates, losses, reassembly.\<close>

definition read_tfs_data :: "u32 \<Rightarrow> rtfs \<Rightarrow> rtfs res" where
  "read_tfs_data seq rt =
     (let ack = (if ack_start (rt_ack rt) = 0 then (rt_ack rt)\<lparr>ack_start := seq\<rparr> else rt_ack rt) in
      if seq \<le> ack_last ack then Inr (rt\<lparr>rt_ack := ack\<rparr>)
      else
        (let lost = (seq \<noteq> ack_last ack + 1 \<and> ack_last ack \<noteq> 0);
             ack' = (if lost then ack\<lparr>ack_ndrop := ack_ndrop ack + (seq - (ack_last ack + 1))\<rparr> else ack);
             eg = rt_eg rt
         in bindE (case rt_m rt of
                     Some v \<Rightarrow> if lost then bindE (miov_reset (eg_mem eg) v) (\<lambda>s. Inr (eg\<lparr>eg_mem := s\<rparr>)) else Inr eg
                   | None \<Rightarrow> Inr eg) (\<lambda>eg1.
            bindE (add_to_inner_packet (rt_tbuf rt) True (rt_m rt) eg1) (\<lambda>(m', eg2).
            Inr (rt\<lparr>rt_ack := ack'\<lparr>ack_last := seq\<rparr>, rt_m := m', rt_eg := eg2\<rparr>)))))"

text \<open>Reports, unknown versions and data.\<close>

definition read_tfs_dispatch :: "bool \<Rightarrow> nat \<Rightarrow> rtfs \<Rightarrow> rtfs res" where
  "read_tfs_dispatch oneonly n rt =
     (let a = rt_tbuf rt; b = (eg_mbuf (rt_eg rt) a)\<lparr>mb_end := mb_start (eg_mbuf (rt_eg rt) a) + n\<rparr>;
          rt1 = rt\<lparr>rt_eg := eg_put a b (rt_eg rt)\<rparr>;
          offset = get32 (mb_space b) (mb_start b + 4)
      in if offset AND 0xC0000000 = 0x40000000
         then bindE (recv_ack oneonly b (rt_fb rt1)) (\<lambda>fb. Inr (rt1\<lparr>rt_fb := fb\<rparr>))
         else if offset AND 0x80000000 \<noteq> 0 then Inr (rt_drop rt1)
         else read_tfs_data (get32 (mb_space b) (mb_start b)) rt1)"

text \<open>The report that is due at the start of a turn.\<close>

definition read_tfs_report :: "bool \<Rightarrow> timespec \<Rightarrow> rtfs \<Rightarrow> (bytes option \<times> rtfs) res" where
  "read_tfs_report oneonly now rt =
     (if oneonly then Inr (None, rt)
      else
        (let (fire, timer) = st_check now (rt_timer rt); rt1 = rt\<lparr>rt_timer := timer\<rparr>
         in if fire
            then bindE (send_ack oneonly (st_ts timer) (rt_ack rt1) (rt_ackbuf rt1)) (\<lambda>(pkt, ack, buf).
                 Inr (pkt, rt1\<lparr>rt_ack := ack, rt_ackbuf := buf\<rparr>))
            else Inr (None, rt1)))"

definition read_tfs_step :: "bool \<Rightarrow> timespec \<Rightarrow> recv \<Rightarrow> timespec \<Rightarrow> rtfs \<Rightarrow> (bytes option \<times> rtfs) res" where
  "read_tfs_step oneonly now1 r now2 rt =
     bindE (read_tfs_report oneonly now1 rt) (\<lambda>(pkt, rt1).
     bindE (tbuf_turn (rt_tbuf rt1) (rt_eg rt1)) (\<lambda>(a, eg).
     let rt2 = rt1\<lparr>rt_tbuf := a, rt_eg := eg\<rparr>
     in case r of
          RecvErr \<Rightarrow> Inr (pkt, rt2)
        | Recv d \<Rightarrow>
            (let (n, eg') = tbuf_recv a d eg; rt3 = rt2\<lparr>rt_eg := eg'\<rparr>
             in bindE (read_tfs_admit n now2 rt3) (\<lambda>(ok, rt4).
                bindE (if ok then read_tfs_dispatch oneonly n rt4 else Inr rt4) (\<lambda>rt5. Inr (pkt, rt5))))))"

section \<open>The writing thread\<close>

text \<open>
  The bytes that \<open>writev\<close> gathers; its return value is only logged.
\<close>

definition iov_gather :: "mem \<Rightarrow> iovec list \<Rightarrow> bytes" where
  "iov_gather s iovs =
     concat (map (\<lambda>iv. case iov_base iv of
        PBuf a i \<Rightarrow> subseg i (nat (iov_len iv)) (mb_space (m_mbufs s a)) | _ \<Rightarrow> []) iovs)"

definition write_intf_step :: "egress \<Rightarrow> (bytes \<times> egress) res" where
  "write_intf_step eg =
     bindE (miovq_pop (eg_outq eg)) (\<lambda>(v, q).
     let mi = m_miovs (eg_mem eg) v; data = iov_gather (eg_mem eg) (take (mi_niov mi) (mi_iov mi))
     in bindE (miovq_push (eg_mem eg) (eg_iovfreeq eg) v) (\<lambda>(_, s, fq).
        Inr (data, eg\<lparr>eg_mem := s, eg_iovfreeq := fq, eg_outq := q\<rparr>)))"

end
