(* ===== verification/EgressSys.thy ===== *)
theory EgressSys
  imports Reassembly Refcount ReadTfs
begin

text \<open>
  The receiving side as a system of two threads: the invariant that ties buffers, reference counts,
  scatter lists and queues together, and its preservation by every turn of either thread.
\<close>

section \<open>The invariant\<close>

definition holders :: "nat \<Rightarrow> nat \<Rightarrow> egress \<Rightarrow> nat \<Rightarrow> nat" where
  "holders nv tb st a = (if a = tb then 1 else 0) + refs nv st a"

definition capacity :: "nat \<Rightarrow> egress \<Rightarrow> nat" where
  "capacity nv st = (\<Sum>v<nv. length (mi_iov (eg_miov st v)))"

definition sys_inv :: "nat \<Rightarrow> nat \<Rightarrow> egress \<Rightarrow> nat \<Rightarrow> nat option \<Rightarrow> bool" where
  "sys_inv nv nb st tb m \<longleftrightarrow> good nv tb st m \<and> pool_ok nb (holders nv tb st) (eg_mem st) \<and>
     capacity nv st < 2 ^ 32 - 1 \<and> vq_freeq (eg_iovfreeq st) \<and> nv \<le> vq_size (eg_iovfreeq st) \<and>
     mq_hdrspace (m_freeq (eg_mem st)) = HDRSPACE"

lemma pool_ok_ref_inv: "pool_ok nb (holders nv tb st) (eg_mem st) \<Longrightarrow> ref_inv nv tb st"
  by (simp add: pool_ok_def ref_inv_def holders_def eg_mbuf_def)

lemma refs_le_capacity:
  assumes "\<forall>v<nv. miov_wf st (eg_miov st v)"
  shows "refs nv st a \<le> capacity nv st"
  unfolding refs_def capacity_def
proof (rule sum_mono)
  fix v assume "v \<in> {..<nv}"
  then have "miov_wf st (eg_miov st v)" using assms by simp
  then have "length (miov_refs (eg_miov st v)) = mi_niov (eg_miov st v)"
    "mi_niov (eg_miov st v) \<le> length (mi_iov (eg_miov st v))"
    by (rule miov_wf_refs, simp add: miov_wf_def)
  then have "length (miov_refs (eg_miov st v)) \<le> length (mi_iov (eg_miov st v))"
    by simp
  then show "count_list (miov_refs (eg_miov st v)) a \<le> length (mi_iov (eg_miov st v))"
    by (rule le_trans [OF count_le_length])
qed

lemma refs_pos: "v < nv \<Longrightarrow> a \<in> set (miov_refs (eg_miov st v)) \<Longrightarrow> 0 < refs nv st a"
  unfolding refs_def by (rule sum_pos2 [of _ v]) (auto simp: count_list_0_iff intro!: gr0I)

section \<open>States with the same lists\<close>

lemma miov_local:
  assumes wf: "miov_wf st mi" and sp: "\<And>a. a \<in> set (miov_refs mi) \<Longrightarrow> mb_space (eg_mbuf st' a) = mb_space (eg_mbuf st a)"
  shows "miov_bytes st' mi = miov_bytes st mi" "miov_wf st' mi"
proof -
  have seg: "seg_bytes st' (mi_iov mi ! i) = seg_bytes st (mi_iov mi ! i)" if less: "i < mi_niov mi" for i
  proof -
    have i: "i < length (mi_mbufs mi)" using wf that by (auto simp: miov_wf_def)
    have "\<forall>i < mi_niov mi. \<exists>j. iov_base (mi_iov mi ! i) = PBuf (mi_mbufs mi ! i) j"
      using wf by (simp add: miov_wf_def)
    then obtain j where "iov_base (mi_iov mi ! i) = PBuf (mi_mbufs mi ! i) j" using less by blast
    moreover have "mi_mbufs mi ! i \<in> set (miov_refs mi)"
      using that i by (auto simp: miov_refs_def in_set_conv_nth)
    ultimately show ?thesis using sp by (simp add: seg_bytes_def)
  qed
  have "map (seg_bytes st') (take (mi_niov mi) (mi_iov mi)) = map (seg_bytes st) (take (mi_niov mi) (mi_iov mi))"
    by (rule nth_equalityI) (simp_all add: seg)
  then show b: "miov_bytes st' mi = miov_bytes st mi" unfolding miov_bytes_def by (rule arg_cong)
  show "miov_wf st' mi" using wf seg [of 0] by (simp add: miov_wf_def b)
qed

lemma same_lists:
  assumes inv: "eg_inv nv st m" and q: "eg_iovfreeq st' = eg_iovfreeq st" "eg_outq st' = eg_outq st"
    and mi: "eg_miov st' = eg_miov st"
    and sp: "\<And>a. 0 < refs nv st a \<Longrightarrow> mb_space (eg_mbuf st' a) = mb_space (eg_mbuf st a)"
  shows "eg_inv nv st' m" "held_clean st' m = held_clean st m" "out_bytes st' = out_bytes st"
    "rx_of st' m = rx_of st m" "refs nv st' = refs nv st" "capacity nv st' = capacity nv st"
    "free_list st' = free_list st" "out_list st' = out_list st"
proof -
  have l: "free_list st' = free_list st" "out_list st' = out_list st"
    using q by (simp_all add: free_list_def out_list_def)
  have loc: "miov_bytes st' (eg_miov st v) = miov_bytes st (eg_miov st v)" "miov_wf st' (eg_miov st v)" if "v < nv" for v
    using miov_local [of st "eg_miov st v" st'] inv that sp refs_pos [OF that] by (auto simp: eg_inv_def)
  show "eg_inv nv st' m" using inv loc(2) unfolding eg_inv_def mi l q by blast
  show "held_clean st' m = held_clean st m" by (simp add: held_clean_def mi)
  have "\<forall>v \<in> set (out_list st). v < nv" using inv by (auto simp: eg_inv_def)
  then show "out_bytes st' = out_bytes st" using loc(1) by (simp add: out_bytes_def l mi)
  show "rx_of st' m = rx_of st m" using inv loc(1) by (cases m) (auto simp: rx_of_def mi eg_inv_def Let_def)
  show "refs nv st' = refs nv st" by (simp add: refs_def fun_eq_iff mi)
  show "capacity nv st' = capacity nv st" by (simp add: capacity_def mi)
  show "free_list st' = free_list st" "out_list st' = out_list st" by (fact l)+
qed

lemma eg_put_simps [simp]:
  "eg_mbuf (eg_put a b st) x = (if x = a then b else eg_mbuf st x)" "eg_miov (eg_put a b st) = eg_miov st"
  "eg_iovfreeq (eg_put a b st) = eg_iovfreeq st" "eg_outq (eg_put a b st) = eg_outq st"
  "m_freeq (eg_mem (eg_put a b st)) = m_freeq (eg_mem st)"
  by (simp_all add: eg_put_def eg_mbuf_def eg_miov_def fun_eq_iff)

lemma pool_ok_mbufs:
  "pool_ok nb f (eg_mem st) \<longleftrightarrow>
     mqueue_ok (m_freeq (eg_mem st)) \<and> nb \<le> mq_size (m_freeq (eg_mem st)) \<and>
     distinct (mqueue_contents (m_freeq (eg_mem st))) \<and>
     set (mqueue_contents (m_freeq (eg_mem st))) = {a. a < nb \<and> f a = 0} \<and>
     (\<forall>a. mb_refcnt (eg_mbuf st a) = word_of_nat (f a) \<and> f a < 2 ^ 32 \<and> (0 < f a \<longrightarrow> a < nb)) \<and>
     (\<forall>a < nb. mq_hdrspace (m_freeq (eg_mem st)) \<le> length (mb_space (eg_mbuf st a)) \<and>
        (f a = 0 \<longrightarrow> idle_mbuf (mq_hdrspace (m_freeq (eg_mem st))) (eg_mbuf st a)))"
  by (simp add: pool_ok_def eg_mbuf_def)

text \<open>Changing the packet in the buffer the thread works on.\<close>

lemma sys_inv_put:
  assumes inv: "sys_inv nv nb st tb m" and r: "refs nv st tb = 0"
    and b: "mb_refcnt b = mb_refcnt (eg_mbuf st tb)" "mbuf_wf b"
      "length (mb_space b) = length (mb_space (eg_mbuf st tb))"
  shows "sys_inv nv nb (eg_put tb b st) tb m" "out_bytes (eg_put tb b st) = out_bytes st"
    "rx_of (eg_put tb b st) m = rx_of st m" "refs nv (eg_put tb b st) = refs nv st"
    "free_list (eg_put tb b st) = free_list st"
proof -
  let ?s = "eg_put tb b st"
  have eg: "eg_inv nv st m" "held_clean st m" using inv by (auto simp: sys_inv_def good_def)
  have "mb_space (eg_mbuf ?s a) = mb_space (eg_mbuf st a)" if "0 < refs nv st a" for a using that r by auto
  note sl = same_lists [OF eg(1) _ _ _ this, simplified]
  show "out_bytes ?s = out_bytes st" "rx_of ?s m = rx_of st m" "refs nv ?s = refs nv st"
    "free_list ?s = free_list st" using sl by simp_all
  have h: "holders nv tb ?s = holders nv tb st" using sl(5) by (simp add: holders_def fun_eq_iff)
  have pool: "pool_ok nb (holders nv tb st) (eg_mem st)" using inv by (simp add: sys_inv_def)
  have "pool_ok nb (holders nv tb ?s) (eg_mem ?s)"
    using pool b unfolding pool_ok_mbufs h by (auto simp: holders_def)
  then show "sys_inv nv nb ?s tb m"
    using inv sl eg b pool_ok_ref_inv [of nb nv tb ?s] by (simp add: sys_inv_def good_def)
qed

section \<open>The parts of a turn\<close>

text \<open>Reassembly.\<close>

lemma word_of_nat_eq:
  "(word_of_nat x :: u32) = word_of_nat y \<Longrightarrow> x < 2 ^ 32 \<Longrightarrow> y < 2 ^ 32 \<Longrightarrow> x = y"
  by (drule arg_cong [of _ _ unat]) (simp add: unat_of_nat)

lemma add_to_inner_packet_sys:
  assumes inv: "sys_inv nv nb st tb m" and len: "8 < length (rest st tb)" "length (rest st tb) < 65536 + 8"
    and ok: "add_to_inner_packet tb True m st = Inr (m', st')"
  shows "sys_inv nv nb st' tb m'" "same_spaces st st'"
    "\<exists>ds r'. rx_packet (unat (get16 (rest st tb) 6)) (drop 8 (rest st tb)) (rx_of st m) = Inr (ds, r') \<and>
       rx_of st' m' = r' \<and> out_bytes st' = out_bytes st @ ds"
proof -
  have g: "good nv tb st m" using inv by (simp add: sys_inv_def)
  from add_to_inner_packet_Inr [OF g len ok] obtain ds r' where
    rx: "rx_packet (unat (get16 (rest st tb) 6)) (drop 8 (rest st tb)) (rx_of st m) = Inr (ds, r')"
    and p: "post nv tb st m ds r' m' st'" by blast
  then show "\<exists>ds r'. rx_packet (unat (get16 (rest st tb) 6)) (drop 8 (rest st tb)) (rx_of st m) = Inr (ds, r') \<and>
       rx_of st' m' = r' \<and> out_bytes st' = out_bytes st @ ds"
    by (auto simp: post_def)
  have g': "good nv tb st' m'" and fr: "frame tb st st'" using p by (auto simp: post_def)
  then show "same_spaces st st'" by (simp add: frame_def)
  have pool: "pool_ok nb (holders nv tb st) (eg_mem st)" using inv by (simp add: sys_inv_def)
  have cap: "capacity nv st' = capacity nv st" using fr by (simp add: capacity_def frame_def)
  have "\<forall>v<nv. miov_wf st' (eg_miov st' v)" using g' by (auto simp: good_def eg_inv_def)
  then have le: "refs nv st' a < 2 ^ 32 - 1" for a
    using refs_le_capacity [of nv st' a] inv cap by (simp add: sys_inv_def)
  have same: "holders nv tb st' a = holders nv tb st a" if "a \<noteq> tb" for a
  proof -
    have "(word_of_nat (refs nv st' a) :: u32) = word_of_nat (refs nv st a)"
      using g g' fr that unfolding good_def ref_inv_def frame_def by (metis add_0)
    moreover have "holders nv tb st a < 2 ^ 32" using pool by (simp add: pool_ok_def)
    ultimately have "refs nv st' a = refs nv st a"
      using le [of a] that by (intro word_of_nat_eq) (simp_all add: holders_def)
    then show ?thesis using that by (simp add: holders_def)
  qed
  then have z: "holders nv tb st' a = 0 \<longleftrightarrow> holders nv tb st a = 0" for a
    by (cases "a = tb") (simp_all add: holders_def)
  have tb: "tb < nb" using pool by (auto simp: pool_ok_def holders_def)
  have buf: "eg_mbuf st' a = eg_mbuf st a" if "a \<noteq> tb" for a using fr that by (simp add: frame_def)
  have lt: "holders nv tb st' a < 2 ^ 32" for a
    using le [of a] by (cases "a = tb") (simp_all add: holders_def)
  have cnt: "mb_refcnt (eg_mbuf st' a) = word_of_nat (holders nv tb st' a)" for a
    using g' by (simp add: good_def ref_inv_def holders_def)
  have nb: "a < nb" if "0 < holders nv tb st' a" for a
    using that z [of a] pool by (auto simp: pool_ok_def)
  have idle: "idle_mbuf (mq_hdrspace (m_freeq (eg_mem st))) (eg_mbuf st' a)" if "a < nb" "holders nv tb st' a = 0" for a
  proof -
    have "a \<noteq> tb" using that(2) by (auto simp: holders_def)
    then show ?thesis using that z [of a] pool buf by (simp add: pool_ok_mbufs)
  qed
  have "pool_ok nb (holders nv tb st') (eg_mem st')"
    using pool fr lt cnt nb idle unfolding pool_ok_mbufs z frame_def same_spaces_def by simp
  then show "sys_inv nv nb st' tb m'"
    using inv g' fr cap by (simp add: sys_inv_def frame_def)
qed

text \<open>The buffer for the next packet.\<close>

lemma tbuf_turn_same:
  assumes inv: "sys_inv nv nb st tb m" and one: "mb_refcnt (eg_mbuf st tb) = 1"
  shows "\<exists>st'. tbuf_turn tb st = Inr (tb, st') \<and> sys_inv nv nb st' tb m \<and> refs nv st' tb = 0 \<and>
    idle_mbuf HDRSPACE (eg_mbuf st' tb) \<and> out_bytes st' = out_bytes st \<and> rx_of st' m = rx_of st m \<and>
    free_list st' = free_list st \<and> same_spaces st st' \<and> eg_miov st' = eg_miov st"
proof -
  let ?b = "(eg_mbuf st tb)\<lparr>mb_start := HDRSPACE, mb_end := HDRSPACE, mb_left := 0, mb_refcnt := 1\<rparr>"
  have pool: "pool_ok nb (holders nv tb st) (eg_mem st)" and hdr: "mq_hdrspace (m_freeq (eg_mem st)) = HDRSPACE"
    using inv by (auto simp: sys_inv_def)
  have "holders nv tb st tb = 1" using refcnt_one [OF pool, of tb] one by (simp add: eg_mbuf_def)
  then have r: "refs nv st tb = 0" by (simp add: holders_def)
  have "tb < nb" using pool by (auto simp: pool_ok_def holders_def)
  then have len: "HDRSPACE \<le> length (mb_space (eg_mbuf st tb))" using pool hdr by (simp add: pool_ok_mbufs)
  have "tbuf_turn tb st = Inr (tb, eg_put tb ?b st)"
    using one by (simp add: tbuf_turn_def mbuf_reset_def Let_def) (simp add: eg_put_def)
  moreover note sys_inv_put [OF inv r, of ?b]
  ultimately show ?thesis using one len r by (simp add: mbuf_wf_def idle_mbuf_def same_spaces_def)
qed

text \<open>The buffer in hand is passed on to the scatter lists, and the last free one taken in its place.\<close>

lemma turn_pool:
  assumes pool: "pool_ok nb (holders nv tb st) (eg_mem st)" and hdr: "mq_hdrspace (m_freeq (eg_mem st)) = HDRSPACE"
    and rtb: "0 < refs nv st tb" and ha: "holders nv tb st a = 0" "a < nb"
    and a: "a = last (mqueue_contents (m_freeq (eg_mem st)))" and ne: "mqueue_contents (m_freeq (eg_mem st)) \<noteq> []"
    and buf: "\<And>x. eg_mbuf st' x = (if x = a then (eg_mbuf st a)\<lparr>mb_refcnt := 1\<rparr>
      else if x = tb then (eg_mbuf st tb)\<lparr>mb_refcnt := mb_refcnt (eg_mbuf st tb) - 1\<rparr> else eg_mbuf st x)"
    and sl: "refs nv st' = refs nv st" and mi: "m_freeq (eg_mem st') = q"
    and q': "mqueue_ok q" "mqueue_contents q = butlast (mqueue_contents (m_freeq (eg_mem st)))"
      "mq_size q = mq_size (m_freeq (eg_mem st))" "mq_hdrspace q = mq_hdrspace (m_freeq (eg_mem st))"
  shows "pool_ok nb (holders nv a st') (eg_mem st')"
proof -
  let ?b = "eg_mbuf st tb" and ?q = "m_freeq (eg_mem st)"
  have atb: "a \<noteq> tb" and ra: "refs nv st a = 0" using ha(1) by (auto simp: holders_def)
  have conts: "set (butlast (mqueue_contents ?q)) = set (mqueue_contents ?q) - {a}"
  proof -
    have "distinct (butlast (mqueue_contents ?q) @ [a])" using pool a ne by (simp add: pool_ok_def)
    moreover have "set (mqueue_contents ?q) = set (butlast (mqueue_contents ?q) @ [a])" using a ne by simp
    ultimately show ?thesis by auto
  qed
  have set: "{x. x < nb \<and> holders nv a st' x = 0} = {x. x < nb \<and> holders nv tb st x = 0} - {a}"
    using rtb by (auto simp: holders_def sl)
  have cnt: "mb_refcnt (eg_mbuf st' x) = word_of_nat (holders nv a st' x)" for x
  proof -
    have "mb_refcnt (eg_mbuf st x) = word_of_nat (holders nv tb st x)" using pool by (simp add: pool_ok_mbufs)
    then show ?thesis using ra
      by (cases "x = tb") (simp_all add: buf holders_def sl)
  qed
  have lt: "holders nv a st' x < 2 ^ 32 \<and> (0 < holders nv a st' x \<longrightarrow> x < nb)" for x
  proof (cases "x = a")
    case True
    then show ?thesis using ha ra by (simp add: holders_def sl)
  next
    case False
    then have "holders nv a st' x \<le> holders nv tb st x" by (simp add: holders_def sl)
    moreover have "holders nv tb st x < 2 ^ 32 \<and> (0 < holders nv tb st x \<longrightarrow> x < nb)"
      using pool by (simp add: pool_ok_def)
    ultimately show ?thesis by auto
  qed
  have len: "HDRSPACE \<le> length (mb_space (eg_mbuf st' x))" if "x < nb" for x
    using pool hdr that by (simp add: pool_ok_mbufs buf)
  have idle': "idle_mbuf HDRSPACE (eg_mbuf st' x)" if "x < nb" "holders nv a st' x = 0" for x
  proof -
    have "x \<noteq> a" "x \<noteq> tb" "refs nv st x = 0" using that(2) rtb by (auto simp: holders_def sl split: if_splits)
    then show ?thesis using pool hdr that(1) by (simp add: pool_ok_mbufs buf holders_def)
  qed
  show ?thesis
    unfolding pool_ok_mbufs set mi
    using pool q' hdr conts cnt lt len idle' by (simp add: pool_ok_def distinct_butlast)
qed

lemma tbuf_turn_new:
  assumes inv: "sys_inv nv nb st tb m" and many: "mb_refcnt (eg_mbuf st tb) \<noteq> 1"
    and ok: "tbuf_turn tb st = Inr (a, st')"
  shows "sys_inv nv nb st' a m \<and> refs nv st' a = 0 \<and> idle_mbuf HDRSPACE (eg_mbuf st' a) \<and>
    out_bytes st' = out_bytes st \<and> rx_of st' m = rx_of st m \<and> free_list st' = free_list st \<and> same_spaces st st' \<and>
    eg_miov st' = eg_miov st"
proof -
  let ?b = "eg_mbuf st tb" and ?q = "m_freeq (eg_mem st)"
  have pool: "pool_ok nb (holders nv tb st) (eg_mem st)" and hdr: "mq_hdrspace ?q = HDRSPACE"
    and eg: "eg_inv nv st m" "held_clean st m" using inv by (auto simp: sys_inv_def good_def)
  have rtb: "0 < refs nv st tb"
    using refcnt_one [OF pool, of tb] many by (auto simp: eg_mbuf_def holders_def)
  from ok many obtain q where q: "mqueue_pop ?q = Inr (a, q)"
    and st': "st' = (eg_put a ((eg_mbuf (eg_put tb (?b\<lparr>mb_refcnt := mb_refcnt ?b - 1\<rparr>) st) a)\<lparr>mb_refcnt := 1\<rparr>)
       ((eg_put tb (?b\<lparr>mb_refcnt := mb_refcnt ?b - 1\<rparr>) st)\<lparr>eg_mem := (eg_mem (eg_put tb (?b\<lparr>mb_refcnt := mb_refcnt ?b - 1\<rparr>) st))\<lparr>m_freeq := q\<rparr>\<rparr>))"
    by (auto simp: tbuf_turn_def Let_def res_simps eg_mbuf_def split: prod.splits)
  have qok: "mqueue_ok ?q" using pool by (simp add: pool_ok_def)
  have ne: "mqueue_contents ?q \<noteq> []" using q qok
    by (auto simp: mqueue_pop_def mqueue_abs_defs res_simps)
  from mqueue_pop_top [OF qok ne] q have a: "a = last (mqueue_contents ?q)" and q': "mqueue_ok q"
    "mqueue_contents q = butlast (mqueue_contents ?q)" "mq_size q = mq_size ?q" "mq_hdrspace q = mq_hdrspace ?q" by auto
  have "a \<in> set (mqueue_contents ?q)" using a ne by simp
  then have ha: "holders nv tb st a = 0" "a < nb" using pool by (auto simp: pool_ok_def)
  then have atb: "a \<noteq> tb" and ra: "refs nv st a = 0" by (auto simp: holders_def)
  have buf: "eg_mbuf st' x = (if x = a then (eg_mbuf st a)\<lparr>mb_refcnt := 1\<rparr>
      else if x = tb then ?b\<lparr>mb_refcnt := mb_refcnt ?b - 1\<rparr> else eg_mbuf st x)" for x
    using atb by (simp add: st' eg_put_def eg_mbuf_def)
  have mi: "eg_miov st' = eg_miov st" "eg_iovfreeq st' = eg_iovfreeq st" "eg_outq st' = eg_outq st"
    "m_freeq (eg_mem st') = q"
    by (simp_all add: st' eg_put_def eg_miov_def fun_eq_iff)
  have "mb_space (eg_mbuf st' x) = mb_space (eg_mbuf st x)" for x by (simp add: buf)
  note sl = same_lists [OF eg(1) mi(2,3,1) this]
  have idle: "idle_mbuf HDRSPACE (eg_mbuf st a)" using pool ha hdr by (simp add: pool_ok_mbufs)
  have "pool_ok nb (holders nv a st') (eg_mem st')"
    by (rule turn_pool [OF pool hdr rtb ha a ne buf _ mi(4) q']) (simp add: sl(5) fun_eq_iff)
  moreover have "mbuf_wf (eg_mbuf st' a)" using idle by (simp add: buf idle_mbuf_def mbuf_wf_def)
  ultimately have "sys_inv nv nb st' a m"
    using inv sl eg pool_ok_ref_inv [of nb nv a st'] mi q'(4) hdr by (simp add: sys_inv_def good_def)
  moreover have "idle_mbuf HDRSPACE (eg_mbuf st' a)" using idle by (simp add: buf idle_mbuf_def)
  moreover have "same_spaces st st'" by (simp add: same_spaces_def buf)
  ultimately show ?thesis using sl ra mi by simp
qed

text \<open>Emptying a list and giving its references back.\<close>

lemma miov_wf_cleared:
  assumes "miov_wf st mi"
  shows "miov_wf st (miov_cleared mi)"
proof -
  have "length (mi_mbufs mi) = length (mi_iov mi)" using assms unfolding miov_wf_def by blast
  then show ?thesis by (simp add: miov_wf_def miov_cleared_def miov_bytes_def)
qed

lemma miov_clean_cleared [simp]: "miov_clean (miov_cleared mi)"
  by (simp add: miov_clean_def miov_cleared_def)

lemma length_cleared [simp]: "mi_iov (miov_cleared mi) = mi_iov mi" "mi_niov (miov_cleared mi) = 0"
  "mi_len (miov_cleared mi) = 0"
  by (simp_all add: miov_cleared_def)

lemma reset_effect:
  assumes wf: "\<forall>v<nv. miov_wf st (eg_miov st v)" and v: "v < nv"
    and pool: "pool_ok nb (holders nv tb st) (eg_mem st)"
  shows "\<exists>s. miov_reset (eg_mem st) v = Inr s \<and>
    pool_ok nb (holders nv tb (st\<lparr>eg_mem := s\<rparr>)) s \<and>
    eg_miov (st\<lparr>eg_mem := s\<rparr>) = (eg_miov st)(v := miov_cleared (eg_miov st v)) \<and>
    same_spaces st (st\<lparr>eg_mem := s\<rparr>) \<and> mq_hdrspace (m_freeq s) = mq_hdrspace (m_freeq (eg_mem st)) \<and>
    mb_start (m_mbufs s tb) = mb_start (eg_mbuf st tb) \<and> mb_end (m_mbufs s tb) = mb_end (eg_mbuf st tb)"
proof -
  let ?c = "\<lambda>w. count_list (miov_refs (eg_miov st w))" and ?f = "holders nv tb st"
  have "?c v a \<le> refs nv st a" for a unfolding refs_def using v by (intro member_le_sum) auto
  then have le: "count_list (miov_refs (m_miovs (eg_mem st) v)) a \<le> ?f a" for a
    by (simp add: holders_def eg_miov_def trans_le_add2)
  from miov_reset_pool [OF pool le] obtain s1 where
    1: "miov_reset (eg_mem st) v = Inr (s1\<lparr>m_miovs := (m_miovs (eg_mem st))(v := miov_cleared (m_miovs (eg_mem st) v))\<rparr>)"
      "pool_ok nb (\<lambda>a. ?f a - ?c v a) s1" "deref_frame (\<lambda>a. ?f a - ?c v a) (eg_mem st) s1"
    by (auto simp: eg_miov_def)
  let ?s = "s1\<lparr>m_miovs := (m_miovs (eg_mem st))(v := miov_cleared (m_miovs (eg_mem st) v))\<rparr>"
  let ?st = "st\<lparr>eg_mem := ?s\<rparr>"
  have mi: "eg_miov ?st = (eg_miov st)(v := miov_cleared (eg_miov st v))"
    by (simp add: eg_miov_def fun_eq_iff)
  have refs: "refs nv ?st a + ?c v a = refs nv st a" for a
  proof -
    have "(\<lambda>w. count_list (miov_refs (eg_miov ?st w)) a) = (\<lambda>w. ?c w a)(v := 0)"
      unfolding mi by (auto simp: miov_refs_def fun_eq_iff)
    then show ?thesis
      using sum_fun_upd [of "{..<nv}" v "\<lambda>w. ?c w a" 0] v by (simp only: refs_def) simp
  qed
  have h: "holders nv tb ?st = (\<lambda>a. ?f a - ?c v a)"
  proof
    fix a show "holders nv tb ?st a = ?f a - ?c v a" using refs [of a] by (simp add: holders_def)
  qed
  have "0 < ?f tb - ?c v tb" using refs [of tb] by (simp add: holders_def)
  then have "mb_start (m_mbufs ?s tb) = mb_start (eg_mbuf st tb)" "mb_end (m_mbufs ?s tb) = mb_end (eg_mbuf st tb)"
    using 1(3) by (auto simp: deref_frame_def eg_mbuf_def)
  moreover have "same_spaces st ?st" using 1(3) by (simp add: same_spaces_def deref_frame_def eg_mbuf_def)
  moreover have "pool_ok nb (holders nv tb ?st) ?s" using 1(2) by (simp add: h)
  ultimately show ?thesis using 1(1,3) mi by (intro exI [of _ ?s]) (simp add: deref_frame_def)
qed

text \<open>A loss: the inner packet in progress is given up.\<close>

lemma loss_sys:
  assumes inv: "sys_inv nv nb st tb (Some v)"
  shows "\<exists>s. miov_reset (eg_mem st) v = Inr s \<and> sys_inv nv nb (st\<lparr>eg_mem := s\<rparr>) tb (Some v) \<and>
    rx_of (st\<lparr>eg_mem := s\<rparr>) (Some v) = RxIdle \<and> out_bytes (st\<lparr>eg_mem := s\<rparr>) = out_bytes st \<and>
    rest (st\<lparr>eg_mem := s\<rparr>) tb = rest st tb \<and> same_spaces st (st\<lparr>eg_mem := s\<rparr>)"
proof -
  have eg: "eg_inv nv st (Some v)" and pool: "pool_ok nb (holders nv tb st) (eg_mem st)"
    and tb: "mbuf_wf (eg_mbuf st tb)" using inv by (auto simp: sys_inv_def good_def)
  have wf: "\<forall>w<nv. miov_wf st (eg_miov st w)" and v: "v < nv" using eg by (auto simp: eg_inv_def)
  from reset_effect [OF wf v pool] obtain s where
    s: "miov_reset (eg_mem st) v = Inr s" "pool_ok nb (holders nv tb (st\<lparr>eg_mem := s\<rparr>)) s"
      "same_spaces st (st\<lparr>eg_mem := s\<rparr>)" "mq_hdrspace (m_freeq s) = mq_hdrspace (m_freeq (eg_mem st))"
      "mb_start (m_mbufs s tb) = mb_start (eg_mbuf st tb)" "mb_end (m_mbufs s tb) = mb_end (eg_mbuf st tb)"
    and mi: "eg_miov (st\<lparr>eg_mem := s\<rparr>) = (eg_miov st)(v := miov_cleared (eg_miov st v))" by blast
  let ?st = "st\<lparr>eg_mem := s\<rparr>"
  have l: "free_list ?st = free_list st" "out_list ?st = out_list st" by (simp_all add: free_list_def out_list_def)
  have mi_v: "eg_miov ?st w = (if w = v then miov_cleared (eg_miov st v) else eg_miov st w)" for w by (simp add: mi)
  have out: "v \<notin> set (out_list st)" "v \<notin> set (free_list st)" using eg by (auto simp: eg_inv_def)
  have "miov_wf ?st (eg_miov ?st w) \<and> 0 < length (mi_iov (eg_miov ?st w))" if "w < nv" for w
    using wf that eg by (simp add: mi_v miov_wf_same [OF s(3)] miov_wf_cleared eg_inv_def)
  moreover have "\<forall>w \<in> set (free_list st). miov_clean (eg_miov ?st w)"
    using eg by (simp add: mi_v eg_inv_def)
  ultimately have "eg_inv nv ?st (Some v)" using eg unfolding eg_inv_def l by simp
  moreover have "out_bytes ?st = out_bytes st"
    unfolding out_bytes_def l using out(1) by (intro map_cong refl) (auto simp: mi_v miov_bytes_same [OF s(3)])
  moreover have "capacity nv ?st = capacity nv st" unfolding capacity_def by (rule sum.cong) (auto simp: mi_v)
  moreover have sp: "mb_space (m_mbufs s tb) = mb_space (eg_mbuf st tb)"
    using s(3) by (simp add: same_spaces_def eg_mbuf_def)
  then have "mbuf_wf (eg_mbuf ?st tb)" "rest ?st tb = rest st tb"
    using tb s(5,6) by (simp_all add: eg_mbuf_def mbuf_wf_def rest_def mbuf_bytes_def)
  moreover have "ref_inv nv tb ?st" using s(2) pool_ok_ref_inv [of nb nv tb ?st] by simp
  ultimately show ?thesis
    using s inv by (intro exI [of _ s]) (simp add: sys_inv_def good_def held_clean_def rx_of_simps mi_v)
qed

text \<open>The writing thread.\<close>

lemma iov_gather_bytes: "iov_gather (eg_mem st) xs = concat (map (seg_bytes st) xs)"
  unfolding iov_gather_def seg_bytes_def [abs_def] eg_mbuf_def by (rule refl)

lemma write_intf_blocked:
  "eg_inv nv st m \<Longrightarrow> out_list st = [] \<Longrightarrow> write_intf_step st = Inl Blocked"
  by (auto simp: write_intf_step_def eg_inv_def out_list_def miovq_abs_defs miovq_pop_def)

lemma sys_inv_frame:
  "sys_inv nv nb st tb m \<longleftrightarrow>
     eg_inv nv st m \<and> held_clean st m \<and> mbuf_wf (eg_mbuf st tb) \<and> pool_ok nb (holders nv tb st) (eg_mem st) \<and>
     capacity nv st < 2 ^ 32 - 1 \<and> vq_freeq (eg_iovfreeq st) \<and> nv \<le> vq_size (eg_iovfreeq st) \<and>
     mq_hdrspace (m_freeq (eg_mem st)) = HDRSPACE"
  using pool_ok_ref_inv [of nb nv tb st] by (auto simp: sys_inv_def good_def)

lemma write_intf_sys:
  assumes inv: "sys_inv nv nb st tb m" and ne: "out_list st \<noteq> []"
  shows "\<exists>st'. write_intf_step st = Inr (last (out_bytes st), st') \<and> sys_inv nv nb st' tb m \<and>
    out_bytes st' = butlast (out_bytes st) \<and> rx_of st' m = rx_of st m \<and> rest st' tb = rest st tb \<and>
    length (free_list st') = Suc (length (free_list st)) \<and> same_spaces st st'"
proof -
  have eg: "eg_inv nv st m" and pool: "pool_ok nb (holders nv tb st) (eg_mem st)"
    and fq: "vq_freeq (eg_iovfreeq st)" "nv \<le> vq_size (eg_iovfreeq st)" using inv by (auto simp: sys_inv_frame)
  have okq: "miovq_ok (eg_outq st)" "miovq_ok (eg_iovfreeq st)" and wf: "\<forall>w<nv. miov_wf st (eg_miov st w)"
    and dist: "distinct (held m @ free_list st @ out_list st)" "set (held m @ free_list st @ out_list st) \<subseteq> {..<nv}"
    using eg by (auto simp: eg_inv_def)
  define v where "v = last (out_list st)"
  have ol: "out_list st = butlast (out_list st) @ [v]" using ne by (simp add: v_def)
  from miovq_pop_top [OF okq(1)] ne obtain q where q: "miovq_pop (eg_outq st) = Inr (v, q)" "miovq_ok q"
      "miovq_contents q = butlast (out_list st)" "vq_size q = vq_size (eg_outq st)" "vq_freeq q = vq_freeq (eg_outq st)"
    by (auto simp: out_list_def v_def)
  have v: "v < nv" "v \<notin> set (held m)" "v \<notin> set (free_list st)" "v \<notin> set (butlast (out_list st))"
    using dist by (subst (asm) (1 2) ol; auto)+
  have "distinct (v # free_list st)" "set (v # free_list st) \<subseteq> {..<nv}" using dist v by auto
  then have "length (v # free_list st) \<le> nv" by (metis card_lessThan card_mono distinct_card finite_lessThan)
  then have "length (miovq_contents (eg_iovfreeq st)) < vq_size (eg_iovfreeq st)"
    using fq by (simp add: free_list_def)
  from miovq_put_room [OF okq(2) this, of v] obtain f where f: "miovq_put (eg_iovfreeq st) v =
      Inr (Suc (length (free_list st)), f)" "miovq_ok f" "miovq_contents f = free_list st @ [v]"
      "vq_size f = vq_size (eg_iovfreeq st)" "vq_freeq f = vq_freeq (eg_iovfreeq st)"
    by (auto simp: free_list_def)
  from reset_effect [OF wf v(1) pool] obtain s where
    s: "miov_reset (eg_mem st) v = Inr s" "pool_ok nb (holders nv tb (st\<lparr>eg_mem := s\<rparr>)) s"
      "same_spaces st (st\<lparr>eg_mem := s\<rparr>)" "mq_hdrspace (m_freeq s) = mq_hdrspace (m_freeq (eg_mem st))"
      "mb_start (m_mbufs s tb) = mb_start (eg_mbuf st tb)" "mb_end (m_mbufs s tb) = mb_end (eg_mbuf st tb)"
    and mi: "eg_miov (st\<lparr>eg_mem := s\<rparr>) = (eg_miov st)(v := miov_cleared (eg_miov st v))" by blast
  let ?st = "st\<lparr>eg_mem := s, eg_iovfreeq := f, eg_outq := q\<rparr>"
  have mi_w: "eg_miov ?st w = (if w = v then miov_cleared (eg_miov st v) else eg_miov st w)" for w
    using fun_cong [OF mi, of w] by (simp add: eg_miov_def)
  have same: "same_spaces st ?st" using s(3) by (simp add: same_spaces_def eg_mbuf_def)
  have l: "free_list ?st = free_list st @ [v]" "out_list ?st = butlast (out_list st)"
    using f(3) q(3) by (simp_all add: free_list_def out_list_def)
  have "iov_gather (eg_mem st) (take (mi_niov (eg_miov st v)) (mi_iov (eg_miov st v))) = last (out_bytes st)"
    using ne by (simp add: iov_gather_bytes out_bytes_def last_map miov_bytes_def v_def)
  then have step: "write_intf_step st = Inr (last (out_bytes st), ?st)"
    using q(1) f(1) fq(1) s(1) by (simp add: write_intf_step_def miovq_push_def eg_miov_def Let_def)
  have "miov_wf ?st (eg_miov ?st w) \<and> 0 < length (mi_iov (eg_miov ?st w))" if "w < nv" for w
    using wf that eg by (simp add: mi_w miov_wf_same [OF same] miov_wf_cleared eg_inv_def)
  moreover have "\<forall>w \<in> set (free_list st @ [v]). miov_clean (eg_miov ?st w)"
    using eg by (simp add: mi_w eg_inv_def)
  moreover have "distinct (held m @ (free_list st @ [v]) @ butlast (out_list st))"
    "set (held m @ (free_list st @ [v]) @ butlast (out_list st)) \<subseteq> {..<nv}"
    using dist v by (auto simp: distinct_butlast dest: in_set_butlastD)
  ultimately have "eg_inv nv ?st m" using eg q f unfolding eg_inv_def l by simp
  moreover have "out_bytes ?st = butlast (out_bytes st)"
    unfolding out_bytes_def l map_butlast [symmetric]
    using v(4) by (intro map_cong refl) (auto simp: mi_w miov_bytes_same [OF same])
  moreover have "capacity nv ?st = capacity nv st" unfolding capacity_def by (rule sum.cong) (auto simp: mi_w)
  moreover have "mb_space (m_mbufs s tb) = mb_space (eg_mbuf st tb)"
    using s(3) by (simp add: same_spaces_def eg_mbuf_def)
  then have "mbuf_wf (eg_mbuf ?st tb)" "rest ?st tb = rest st tb"
    using inv s(5,6) by (simp_all add: sys_inv_frame eg_mbuf_def mbuf_wf_def rest_def mbuf_bytes_def)
  moreover have "rx_of ?st m = rx_of st m"
    using v(2) by (cases m) (simp_all add: rx_of_def mi_w miov_bytes_same [OF same] Let_def)
  moreover have "held_clean ?st m" using inv v(2) by (auto simp: sys_inv_frame held_clean_def mi_w)
  moreover have "holders nv tb ?st = holders nv tb (st\<lparr>eg_mem := s\<rparr>)"
    by (simp add: fun_eq_iff holders_def refs_def eg_miov_def)
  ultimately show ?thesis
    using step s(2,4) inv f(4,5) l same by (intro exI [of _ ?st]) (simp add: sys_inv_frame)
qed

section \<open>A whole turn of the reading thread\<close>

definition sized :: "nat \<Rightarrow> egress \<Rightarrow> bool" where
  "sized nb st \<longleftrightarrow> (\<forall>a<nb. length (mb_space (eg_mbuf st a)) = MAXBUF)"

lemma sized_same: "same_spaces st st' \<Longrightarrow> sized nb st' = sized nb st"
  by (simp add: sized_def same_spaces_def)

definition rt_inv :: "nat \<Rightarrow> nat \<Rightarrow> rtfs \<Rightarrow> bool" where
  "rt_inv nv nb rt \<longleftrightarrow> sys_inv nv nb (rt_eg rt) (rt_tbuf rt) (rt_m rt) \<and> sized nb (rt_eg rt)"

lemma sys_inv_tb: "sys_inv nv nb st tb m \<Longrightarrow> tb < nb"
  by (auto simp: sys_inv_def pool_ok_def holders_def)

lemma tbuf_turn_sys:
  assumes "sys_inv nv nb st tb m" "tbuf_turn tb st = Inr (a, st')"
  shows "sys_inv nv nb st' a m" "refs nv st' a = 0" "idle_mbuf HDRSPACE (eg_mbuf st' a)"
    "out_bytes st' = out_bytes st" "rx_of st' m = rx_of st m" "free_list st' = free_list st" "same_spaces st st'"
    "eg_miov st' = eg_miov st"
  using tbuf_turn_same [OF assms(1)] tbuf_turn_new [OF assms(1) _ assms(2)] assms(2)
  by (cases "mb_refcnt (eg_mbuf st tb) = 1"; auto)+

lemma tbuf_turn_progress:
  assumes inv: "sys_inv nv nb st tb m" and av: "mb_refcnt (eg_mbuf st tb) = 1 \<or> mqueue_contents (m_freeq (eg_mem st)) \<noteq> []"
  shows "\<exists>a st'. tbuf_turn tb st = Inr (a, st')"
proof (cases "mb_refcnt (eg_mbuf st tb) = 1")
  case True
  then show ?thesis using tbuf_turn_same [OF inv] by blast
next
  case False
  have "mqueue_ok (m_freeq (eg_mem st))" using inv by (simp add: sys_inv_def pool_ok_def)
  from mqueue_pop_top [OF this] av False obtain a q where "mqueue_pop (m_freeq (eg_mem st)) = Inr (a, q)" by blast
  then show ?thesis using False by (simp add: tbuf_turn_def Let_def)
qed

text \<open>A datagram is received, and the buffer's end set: then the buffer holds the datagram's bytes.\<close>

lemma tbuf_recv_sys:
  assumes inv: "sys_inv nv nb st a m" and r: "refs nv st a = 0" and idle: "idle_mbuf HDRSPACE (eg_mbuf st a)"
    and sz: "sized nb st" and recv: "tbuf_recv a d st = (n, st1)"
  defines "st2 \<equiv> eg_put a ((eg_mbuf st1 a)\<lparr>mb_end := mb_start (eg_mbuf st1 a) + n\<rparr>) st1"
  shows "sys_inv nv nb st1 a m" "sized nb st1" "out_bytes st1 = out_bytes st" "rx_of st1 m = rx_of st m"
    "free_list st1 = free_list st"
    "sys_inv nv nb st2 a m" "sized nb st2" "out_bytes st2 = out_bytes st" "rx_of st2 m = rx_of st m"
    "free_list st2 = free_list st"
    "n = min (length d) (MAXBUF - HDRSPACE)" "rest st2 a = take n d"
proof -
  have len: "length (mb_space (eg_mbuf st a)) = MAXBUF" using sz sys_inv_tb [OF inv] by (simp add: sized_def)
  have idle': "mb_start (eg_mbuf st a) = HDRSPACE" "mb_end (eg_mbuf st a) = HDRSPACE" "HDRSPACE \<le> MAXBUF"
    using idle len by (simp_all add: idle_mbuf_def)
  have "nat (MBUF_AVAIL (eg_mbuf st a)) = MAXBUF - HDRSPACE" using len idle' by (simp add: MBUF_AVAIL_def)
  then have n: "n = min (length d) (MAXBUF - HDRSPACE)"
    and st1: "st1 = eg_put a ((eg_mbuf st a)\<lparr>mb_space := splice_at HDRSPACE (take n d) (mb_space (eg_mbuf st a))\<rparr>) st"
    using recv idle' by (auto simp: tbuf_recv_def Let_def)
  have tn: "length (take n d) = n" "HDRSPACE + n \<le> MAXBUF" using n idle' by auto
  then have sl: "length (splice_at HDRSPACE (take n d) (mb_space (eg_mbuf st a))) = MAXBUF"
    using len by (subst length_splice_at) auto
  note p1 = sys_inv_put [OF inv r, of "(eg_mbuf st a)\<lparr>mb_space := splice_at HDRSPACE (take n d) (mb_space (eg_mbuf st a))\<rparr>",
      folded st1]
  have w1: "sys_inv nv nb st1 a m" "out_bytes st1 = out_bytes st" "rx_of st1 m = rx_of st m" "refs nv st1 = refs nv st"
    "free_list st1 = free_list st"
    using p1 sl len idle' by (simp_all add: mbuf_wf_def)
  then show "sys_inv nv nb st1 a m" "out_bytes st1 = out_bytes st" "rx_of st1 m = rx_of st m"
    "free_list st1 = free_list st" by simp_all
  show s1: "sized nb st1" using sz sl by (simp add: sized_def st1)
  have b1: "mb_start (eg_mbuf st1 a) = HDRSPACE" "length (mb_space (eg_mbuf st1 a)) = MAXBUF"
    using idle' sl by (simp_all add: st1)
  note p2 = sys_inv_put [OF w1(1), of "(eg_mbuf st1 a)\<lparr>mb_end := mb_start (eg_mbuf st1 a) + n\<rparr>", folded st2_def]
  show "sys_inv nv nb st2 a m" "out_bytes st2 = out_bytes st" "rx_of st2 m = rx_of st m" "free_list st2 = free_list st"
    using p2 w1 r b1 tn by (simp_all add: mbuf_wf_def)
  show "sized nb st2" using s1 by (simp add: sized_def st2_def)
  show "n = min (length d) (MAXBUF - HDRSPACE)" by (fact n)
  have "subseg HDRSPACE (length (take n d)) (splice_at HDRSPACE (take n d) (mb_space (eg_mbuf st a))) = take n d"
    by (rule subseg_splice_at) (use tn len in simp)
  then show "rest st2 a = take n d"
    using b1 tn(1) by (simp add: rest_def mbuf_bytes_def st2_def) (simp add: st1)
qed

text \<open>A data packet whose sequence number is accepted: what the buffer holds goes to reassembly.\<close>

lemma read_tfs_data_sys:
  assumes inv: "rt_inv nv nb rt" and len: "8 \<le> length (rest (rt_eg rt) (rt_tbuf rt))"
      "length (rest (rt_eg rt) (rt_tbuf rt)) < 65536"
    and ok: "read_tfs_data seq rt = Inr rt'"
  shows "rt_inv nv nb rt'"
proof -
  let ?eg = "rt_eg rt" and ?tb = "rt_tbuf rt" and ?m = "rt_m rt"
  let ?ack = "if ack_start (rt_ack rt) = 0 then (rt_ack rt)\<lparr>ack_start := seq\<rparr> else rt_ack rt"
  have sys: "sys_inv nv nb ?eg ?tb ?m" and sz: "sized nb ?eg" using inv by (auto simp: rt_inv_def)
  show ?thesis
  proof (cases "seq \<le> ack_last ?ack")
    case True
    then show ?thesis using ok inv by (auto simp: read_tfs_data_def Let_def rt_inv_def)
  next
    case False
    have "\<exists>eg1. sys_inv nv nb eg1 ?tb ?m \<and> same_spaces ?eg eg1 \<and> rest eg1 ?tb = rest ?eg ?tb \<and>
      (\<exists>m' eg2. add_to_inner_packet ?tb True ?m eg1 = Inr (m', eg2) \<and> rt_eg rt' = eg2 \<and> rt_m rt' = m' \<and> rt_tbuf rt' = ?tb)"
    proof (cases "?m \<noteq> None \<and> seq \<noteq> ack_last ?ack + 1 \<and> ack_last ?ack \<noteq> 0")
      case True
      then obtain v where v: "?m = Some v" by auto
      from loss_sys [OF sys [unfolded v]] obtain s where s: "miov_reset (eg_mem ?eg) v = Inr s"
        "sys_inv nv nb (?eg\<lparr>eg_mem := s\<rparr>) ?tb (Some v)" "rest (?eg\<lparr>eg_mem := s\<rparr>) ?tb = rest ?eg ?tb"
        "same_spaces ?eg (?eg\<lparr>eg_mem := s\<rparr>)" by blast
      then show ?thesis
        using ok False True v by (intro exI [of _ "?eg\<lparr>eg_mem := s\<rparr>"])
          (auto simp: read_tfs_data_def Let_def res_simps split: if_splits)
    next
      case no: False
      then show ?thesis
        using ok False sys same_spaces_refl by (intro exI [of _ ?eg])
          (auto simp: read_tfs_data_def Let_def res_simps split: option.splits if_splits)
    qed
    then obtain eg1 m' eg2 where 1: "sys_inv nv nb eg1 ?tb ?m" "same_spaces ?eg eg1" "rest eg1 ?tb = rest ?eg ?tb"
      "add_to_inner_packet ?tb True ?m eg1 = Inr (m', eg2)" "rt_eg rt' = eg2" "rt_m rt' = m'" "rt_tbuf rt' = ?tb" by blast
    have "length (rest eg1 ?tb) \<noteq> 8"
    proof
      assume "length (rest eg1 ?tb) = 8"
      moreover have "mbuf_wf (eg_mbuf eg1 ?tb)" using 1(1) by (simp add: sys_inv_frame)
      ultimately show False using header_only_aborts [of eg1 ?tb ?m] 1(4) by simp
    qed
    then have "8 < length (rest eg1 ?tb)" "length (rest eg1 ?tb) < 65536 + 8" using len 1(3) by auto
    from add_to_inner_packet_sys [OF 1(1) this 1(4)] show ?thesis
      using 1 sz sized_same same_spaces_trans by (metis rt_inv_def)
  qed
qed

definition rt_received :: "nat \<Rightarrow> rtfs \<Rightarrow> rtfs" where
  "rt_received n rt =
     rt\<lparr>rt_eg := eg_put (rt_tbuf rt) ((eg_mbuf (rt_eg rt) (rt_tbuf rt))\<lparr>mb_end := mb_start (eg_mbuf (rt_eg rt) (rt_tbuf rt)) + n\<rparr>) (rt_eg rt)\<rparr>"

lemma read_tfs_dispatch_Inr:
  assumes "read_tfs_dispatch oneonly n rt = Inr rt'"
  shows "(\<exists>fb. rt' = (rt_received n rt)\<lparr>rt_fb := fb\<rparr>) \<or> rt' = rt_drop (rt_received n rt) \<or>
    (\<exists>seq. read_tfs_data seq (rt_received n rt) = Inr rt')"
  using assms unfolding read_tfs_dispatch_def Let_def rt_received_def [symmetric]
  by (simp only: bindE_eq_Inr split: if_splits) blast+

lemma read_tfs_step_sys:
  assumes inv: "rt_inv nv nb rt" and ok: "read_tfs_step oneonly now1 r now2 rt = Inr (pkt, rt')"
  shows "rt_inv nv nb rt'"
proof -
  from ok obtain rt1 a eg where rep: "read_tfs_report oneonly now1 rt = Inr (pkt, rt1)"
    and turn: "tbuf_turn (rt_tbuf rt1) (rt_eg rt1) = Inr (a, eg)"
    by (cases r) (auto simp: read_tfs_step_def res_simps Let_def case_prod_unfold)
  have same: "rt_eg rt1 = rt_eg rt" "rt_tbuf rt1 = rt_tbuf rt" "rt_m rt1 = rt_m rt"
    using rep by (auto simp: read_tfs_report_def Let_def res_simps split: if_splits prod.splits)
  have sys: "sys_inv nv nb (rt_eg rt) (rt_tbuf rt) (rt_m rt)" using inv by (simp add: rt_inv_def)
  note t = tbuf_turn_sys [OF sys turn [unfolded same]]
  have sz: "sized nb eg" using inv sized_same [OF t(7)] by (simp add: rt_inv_def)
  let ?rt2 = "rt1\<lparr>rt_tbuf := a, rt_eg := eg\<rparr>"
  show ?thesis
  proof (cases r)
    case RecvErr
    then show ?thesis using ok rep turn t(1) sz same by (auto simp: read_tfs_step_def rt_inv_def)
  next
    case (Recv d)
    obtain n eg' where recv: "tbuf_recv a d eg = (n, eg')" by fastforce
    note rs = tbuf_recv_sys [OF t(1,2,3) sz recv]
    from ok rep turn recv Recv obtain go rt4 where
      adm: "read_tfs_admit n now2 (?rt2\<lparr>rt_eg := eg'\<rparr>) = Inr (go, rt4)"
      and dis: "(if go then read_tfs_dispatch oneonly n rt4 else Inr rt4) = Inr rt'"
      by (auto simp: read_tfs_step_def res_simps)
    have 4: "rt_eg rt4 = eg'" "rt_tbuf rt4 = a" "rt_m rt4 = rt_m rt" "go \<Longrightarrow> 8 \<le> n"
      using adm same by (auto simp: read_tfs_admit_def rt_drop_def Let_def res_simps split: if_splits option.splits)
    show ?thesis
    proof (cases go)
      case False
      then show ?thesis using dis 4 rs(1,2) by (auto simp: rt_inv_def)
    next
      case True
      let ?rt1 = "rt_received n rt4"
      have inv1: "rt_inv nv nb ?rt1" using rs(6,7) 4 by (simp add: rt_inv_def rt_received_def)
      have "n \<le> length d" "n < 65536" using rs(11) by (auto simp: const_defs)
      then have len: "8 \<le> length (rest (rt_eg ?rt1) (rt_tbuf ?rt1))" "length (rest (rt_eg ?rt1) (rt_tbuf ?rt1)) < 65536"
        using rs(12) 4 True by (auto simp: rt_received_def)
      have "read_tfs_dispatch oneonly n rt4 = Inr rt'" using dis True by simp
      from read_tfs_dispatch_Inr [OF this] consider (ack) fb where "rt' = ?rt1\<lparr>rt_fb := fb\<rparr>"
        | (drop) "rt' = rt_drop ?rt1" | (data) seq where "read_tfs_data seq ?rt1 = Inr rt'" by blast
      then show ?thesis
      proof cases
        case data
        then show ?thesis using read_tfs_data_sys [OF inv1 len] by blast
      qed (use inv1 in \<open>auto simp: rt_inv_def rt_drop_def\<close>)
    qed
  qed
qed

end
