(* ===== verification/EgressRun.thy ===== *)
theory EgressRun
  imports EgressSys "HOL-Library.Multiset"
begin

text \<open>
  Runs of the receiving side: what one received datagram does, the two threads' turns in any order as
  a step relation, and what comes out of the tunnel interface in a whole run.
\<close>

section \<open>One datagram\<close>

text \<open>The state of the inner packet in progress that an accepted packet is added to.\<close>

definition lost_before :: "u32 \<Rightarrow> ackinfo \<Rightarrow> bool" where
  "lost_before seq ack \<longleftrightarrow> seq \<noteq> ack_last ack + 1 \<and> ack_last ack \<noteq> 0"

lemma read_tfs_data_rx:
  assumes inv: "rt_inv nv nb rt" and len: "8 < length (rest (rt_eg rt) (rt_tbuf rt))"
      "length (rest (rt_eg rt) (rt_tbuf rt)) < 65536"
    and seq: "ack_last (rt_ack rt) < seq"
    and ok: "read_tfs_data seq rt = Inr rt'"
  shows "\<exists>ds. rx_packet (unat (get16 (rest (rt_eg rt) (rt_tbuf rt)) 6)) (drop 8 (rest (rt_eg rt) (rt_tbuf rt)))
        (if lost_before seq (rt_ack rt) then RxIdle else rx_of (rt_eg rt) (rt_m rt)) = Inr (ds, rx_of (rt_eg rt') (rt_m rt')) \<and>
      out_bytes (rt_eg rt') = out_bytes (rt_eg rt) @ ds \<and> ack_last (rt_ack rt') = seq \<and> rt_rl rt' = rt_rl rt"
proof -
  let ?eg = "rt_eg rt" and ?tb = "rt_tbuf rt" and ?m = "rt_m rt"
  let ?ack = "if ack_start (rt_ack rt) = 0 then (rt_ack rt)\<lparr>ack_start := seq\<rparr> else rt_ack rt"
  have last: "ack_last ?ack = ack_last (rt_ack rt)" by simp
  have sys: "sys_inv nv nb ?eg ?tb ?m" using inv by (simp add: rt_inv_def)
  have "\<exists>eg1. sys_inv nv nb eg1 ?tb ?m \<and> rest eg1 ?tb = rest ?eg ?tb \<and> out_bytes eg1 = out_bytes ?eg \<and>
      rx_of eg1 ?m = (if lost_before seq (rt_ack rt) then RxIdle else rx_of ?eg ?m) \<and>
      (\<exists>m' eg2 ack'. add_to_inner_packet ?tb True ?m eg1 = Inr (m', eg2) \<and>
         rt' = rt\<lparr>rt_ack := ack'\<lparr>ack_last := seq\<rparr>, rt_m := m', rt_eg := eg2\<rparr>)"
  proof (cases "lost_before seq (rt_ack rt)")
    case True
    show ?thesis
    proof (cases ?m)
      case None
      then show ?thesis
        using ok True seq sys by (intro exI [of _ ?eg])
          (auto simp: read_tfs_data_def Let_def res_simps last rx_of_simps not_le split: if_splits)
    next
      case (Some v)
      from loss_sys [OF sys [unfolded Some]] obtain s where s: "miov_reset (eg_mem ?eg) v = Inr s"
        "sys_inv nv nb (?eg\<lparr>eg_mem := s\<rparr>) ?tb (Some v)" "rest (?eg\<lparr>eg_mem := s\<rparr>) ?tb = rest ?eg ?tb"
        "rx_of (?eg\<lparr>eg_mem := s\<rparr>) (Some v) = RxIdle" "out_bytes (?eg\<lparr>eg_mem := s\<rparr>) = out_bytes ?eg" by blast
      then show ?thesis
        using ok True seq Some by (intro exI [of _ "?eg\<lparr>eg_mem := s\<rparr>"])
          (auto simp: read_tfs_data_def Let_def res_simps last lost_before_def not_le split: if_splits)
    qed
  next
    case False
    then show ?thesis
      using ok seq sys by (intro exI [of _ ?eg])
        (auto simp: read_tfs_data_def Let_def res_simps last lost_before_def not_le split: option.splits if_splits)
  qed
  then obtain eg1 m' eg2 ack' where 1: "sys_inv nv nb eg1 ?tb ?m" "rest eg1 ?tb = rest ?eg ?tb"
    "out_bytes eg1 = out_bytes ?eg" "rx_of eg1 ?m = (if lost_before seq (rt_ack rt) then RxIdle else rx_of ?eg ?m)"
    "add_to_inner_packet ?tb True ?m eg1 = Inr (m', eg2)"
    "rt' = rt\<lparr>rt_ack := ack'\<lparr>ack_last := seq\<rparr>, rt_m := m', rt_eg := eg2\<rparr>" by blast
  have "8 < length (rest eg1 ?tb)" "length (rest eg1 ?tb) < 65536 + 8" using len 1(2) by auto
  from add_to_inner_packet_sys(3) [OF 1(1) this 1(5)] show ?thesis using 1 by auto
qed

text \<open>A turn on a data packet is \<open>read_tfs_data\<close> on the buffer that holds the packet.\<close>

lemma read_tfs_step_data:
  assumes inv: "rt_inv nv nb rt" and rl: "rt_rl rt = None"
    and rep: "read_tfs_report oneonly now1 rt = Inr (pkt, rt1)"
    and turn: "tbuf_turn (rt_tbuf rt) (rt_eg rt) = Inr (a, eg)" and d: "length d \<le> MAXBUF - HDRSPACE - 8"
  shows "\<exists>rt5. read_tfs_step oneonly now1 (Recv (tfs_bytes seq off d)) now2 rt =
      bindE (read_tfs_data seq rt5) (\<lambda>rt'. Inr (pkt, rt')) \<and>
    rt_inv nv nb rt5 \<and> rest (rt_eg rt5) (rt_tbuf rt5) = tfs_bytes seq off d \<and> refs nv (rt_eg rt5) (rt_tbuf rt5) = 0 \<and>
    rt_m rt5 = rt_m rt \<and> rt_ack rt5 = rt_ack rt1 \<and> rt_rl rt5 = None \<and> eg_miov (rt_eg rt5) = eg_miov (rt_eg rt) \<and>
    rx_of (rt_eg rt5) (rt_m rt) = rx_of (rt_eg rt) (rt_m rt) \<and> out_bytes (rt_eg rt5) = out_bytes (rt_eg rt) \<and>
    free_list (rt_eg rt5) = free_list (rt_eg rt)"
proof -
  let ?p = "tfs_bytes seq off d"
  have same: "rt_eg rt1 = rt_eg rt" "rt_tbuf rt1 = rt_tbuf rt" "rt_m rt1 = rt_m rt" "rt_rl rt1 = None"
    using rep rl by (auto simp: read_tfs_report_def Let_def res_simps split: if_splits prod.splits)
  obtain n eg' where recv: "tbuf_recv a ?p eg = (n, eg')" by fastforce
  have sys: "sys_inv nv nb (rt_eg rt) (rt_tbuf rt) (rt_m rt)" using inv by (simp add: rt_inv_def)
  note t = tbuf_turn_sys [OF sys turn]
  have sz: "sized nb eg" using inv sized_same [OF t(7)] by (simp add: rt_inv_def)
  note rs = tbuf_recv_sys [OF t(1,2,3) sz recv]
  have n: "n = 8 + length d" using rs(11) d by (simp add: const_defs)
  let ?rt4 = "rt1\<lparr>rt_tbuf := a, rt_eg := eg'\<rparr>"
  let ?rt5 = "rt_received n ?rt4"
  let ?st = "eg_put a ((eg_mbuf eg' a)\<lparr>mb_end := mb_start (eg_mbuf eg' a) + n\<rparr>) eg'"
  have eg5: "rt_eg ?rt5 = ?st" "rt_tbuf ?rt5 = a" "rt_m ?rt5 = rt_m rt" "rt_ack ?rt5 = rt_ack rt1" "rt_rl ?rt5 = None"
    using same by (simp_all add: rt_received_def)
  have r: "rest ?st a = ?p" using rs(12) n by simp
  have wf: "mbuf_wf (eg_mbuf ?st a)" using rs(6) by (simp add: sys_inv_frame)
  have f: "get32 (mb_space (eg_mbuf ?st a)) (mb_start (eg_mbuf ?st a)) = seq"
    "get32 (mb_space (eg_mbuf ?st a)) (mb_start (eg_mbuf ?st a) + 4) = get32 ?p 4"
    using mbuf_get32 [OF wf, of 0] mbuf_get32 [OF wf, of 4] r n by (simp_all add: rest_def tfs_bytes_fields)
  have "read_tfs_dispatch oneonly n ?rt4 = read_tfs_data seq ?rt5"
    using f unfolding read_tfs_dispatch_def Let_def rt_received_def by (simp add: tfs_bytes_version)
  then have "read_tfs_step oneonly now1 (Recv ?p) now2 rt = bindE (read_tfs_data seq ?rt5) (\<lambda>rt'. Inr (pkt, rt'))"
    using rep turn recv n same by (simp add: read_tfs_step_def read_tfs_admit_def)
  moreover have mi: "eg_miov ?st = eg_miov (rt_eg rt)" using recv t(8) by (auto simp: tbuf_recv_def Let_def)
  moreover have "refs nv ?st a = 0" using t(2) mi t(8) by (simp add: refs_def)
  moreover have "rt_inv nv nb ?rt5" using rs(6,7) eg5 by (simp add: rt_inv_def)
  ultimately show ?thesis using r rs(8-10) t(4-6) eg5 by (intro exI [of _ ?rt5]) simp
qed

lemma read_tfs_step_rx:
  assumes inv: "rt_inv nv nb rt" and rl: "rt_rl rt = None"
    and rep: "read_tfs_report oneonly now1 rt = Inr (pkt0, rt1)"
    and d: "d \<noteq> []" "length d \<le> MAXBUF - HDRSPACE - 8" and seq: "ack_last (rt_ack rt1) < seq"
    and ok: "read_tfs_step oneonly now1 (Recv (tfs_bytes seq off d)) now2 rt = Inr (pkt, rt')"
  shows "\<exists>ds. rx_packet (unat off) d
        (if lost_before seq (rt_ack rt1) then RxIdle else rx_of (rt_eg rt) (rt_m rt)) = Inr (ds, rx_of (rt_eg rt') (rt_m rt')) \<and>
      out_bytes (rt_eg rt') = out_bytes (rt_eg rt) @ ds \<and> ack_last (rt_ack rt') = seq \<and> rt_rl rt' = None"
proof -
  have "rt_tbuf rt1 = rt_tbuf rt" "rt_eg rt1 = rt_eg rt"
    using rep by (auto simp: read_tfs_report_def Let_def res_simps split: if_splits prod.splits)
  with ok rep obtain a eg where turn: "tbuf_turn (rt_tbuf rt) (rt_eg rt) = Inr (a, eg)"
    by (auto simp: read_tfs_step_def res_simps Let_def case_prod_unfold)
  from read_tfs_step_data [OF inv rl rep turn d(2), of seq off now2] obtain rt5 where
    5: "read_tfs_step oneonly now1 (Recv (tfs_bytes seq off d)) now2 rt = bindE (read_tfs_data seq rt5) (\<lambda>rt'. Inr (pkt0, rt'))"
      "rt_inv nv nb rt5" "rest (rt_eg rt5) (rt_tbuf rt5) = tfs_bytes seq off d" "rt_m rt5 = rt_m rt" "rt_ack rt5 = rt_ack rt1"
      "rt_rl rt5 = None" "rx_of (rt_eg rt5) (rt_m rt) = rx_of (rt_eg rt) (rt_m rt)" "out_bytes (rt_eg rt5) = out_bytes (rt_eg rt)"
    by blast
  have len: "8 < length (rest (rt_eg rt5) (rt_tbuf rt5))" "length (rest (rt_eg rt5) (rt_tbuf rt5)) < 65536"
    using d 5(3) by (simp_all add: const_defs)
  have "read_tfs_data seq rt5 = Inr rt'" "ack_last (rt_ack rt5) < seq" using ok seq 5(1,5) by (auto simp: res_simps)
  from read_tfs_data_rx [OF 5(2) len this(2,1)] show ?thesis unfolding 5(3) tfs_bytes_fields 5(4-8) .
qed

text \<open>A turn finishes when there is a buffer, room in the list and a free list to spare.\<close>

lemma read_tfs_step_progress:
  assumes inv: "rt_inv nv nb rt" and rl: "rt_rl rt = None"
    and rep: "read_tfs_report oneonly now1 rt = Inr (pkt, rt1)"
    and av: "mb_refcnt (eg_mbuf (rt_eg rt) (rt_tbuf rt)) = 1 \<or> mqueue_contents (m_freeq (eg_mem (rt_eg rt))) \<noteq> []"
    and d: "d \<noteq> []" "length d \<le> MAXBUF - HDRSPACE - 8" and seq: "ack_last (rt_ack rt1) < seq"
    and nl: "\<not> lost_before seq (rt_ack rt1)"
    and room: "\<forall>v. rt_m rt = Some v \<longrightarrow> mi_niov (eg_miov (rt_eg rt) v) < length (mi_iov (eg_miov (rt_eg rt) v))"
    and rx: "rx_packet (unat off) d (rx_of (rt_eg rt) (rt_m rt)) = Inr (ds, r')"
    and free: "length ds < length (free_list (rt_eg rt)) + length (held (rt_m rt))"
  shows "\<exists>rt'. read_tfs_step oneonly now1 (Recv (tfs_bytes seq off d)) now2 rt = Inr (pkt, rt')"
proof -
  have sys: "sys_inv nv nb (rt_eg rt) (rt_tbuf rt) (rt_m rt)" using inv by (simp add: rt_inv_def)
  from tbuf_turn_progress [OF sys av] obtain a eg where turn: "tbuf_turn (rt_tbuf rt) (rt_eg rt) = Inr (a, eg)" by blast
  from read_tfs_step_data [OF inv rl rep turn d(2), of seq off now2] obtain rt5 where
    5: "read_tfs_step oneonly now1 (Recv (tfs_bytes seq off d)) now2 rt = bindE (read_tfs_data seq rt5) (\<lambda>rt'. Inr (pkt, rt'))"
      "rt_inv nv nb rt5" "rest (rt_eg rt5) (rt_tbuf rt5) = tfs_bytes seq off d" "rt_m rt5 = rt_m rt" "rt_ack rt5 = rt_ack rt1"
      "eg_miov (rt_eg rt5) = eg_miov (rt_eg rt)" "rx_of (rt_eg rt5) (rt_m rt) = rx_of (rt_eg rt) (rt_m rt)"
      "free_list (rt_eg rt5) = free_list (rt_eg rt)" by blast
  have g: "good nv (rt_tbuf rt5) (rt_eg rt5) (rt_m rt)" using 5(2,4) by (simp add: rt_inv_def sys_inv_def)
  have "\<exists>m' eg2. add_to_inner_packet (rt_tbuf rt5) True (rt_m rt) (rt_eg rt5) = Inr (m', eg2)"
    using add_to_inner_packet_post [OF g, of ds r'] d room rx free 5(3,6-8) by (auto simp: tfs_bytes_fields const_defs)
  then have "\<exists>rt'. read_tfs_data seq rt5 = Inr rt'"
    using seq nl unfolding read_tfs_data_def Let_def 5(4,5)
    by (auto simp: lost_before_def not_le split: option.splits)
  with 5(1) show ?thesis by auto
qed

section \<open>The two threads\<close>

text \<open>
  A turn of the reading thread, with the two clock readings and what \<open>recvfrom\<close> returns, or a
  turn of the writing thread. A thread that would wait on a queue does not take its turn until it
  can finish it. Each step yields the packets written to the tunnel interface.
\<close>

datatype egress_event = Turn timespec recv timespec | WriteIntf

inductive egress_step :: "bool \<Rightarrow> rtfs \<Rightarrow> egress_event \<Rightarrow> bytes list \<Rightarrow> rtfs \<Rightarrow> bool" for oneonly where
  turn: "read_tfs_step oneonly t1 r t2 rt = Inr (pkt, rt') \<Longrightarrow> egress_step oneonly rt (Turn t1 r t2) [] rt'"
| wrt: "write_intf_step (rt_eg rt) = Inr (data, eg') \<Longrightarrow> egress_step oneonly rt WriteIntf [data] (rt\<lparr>rt_eg := eg'\<rparr>)"

inductive_cases turnE: "egress_step oneonly rt (Turn t1 r t2) ws rt'"
inductive_cases wrtE: "egress_step oneonly rt WriteIntf ws rt'"

inductive egress_run :: "bool \<Rightarrow> rtfs \<Rightarrow> egress_event list \<Rightarrow> bytes list \<Rightarrow> rtfs \<Rightarrow> bool" for oneonly where
  done_run: "egress_run oneonly rt [] [] rt"
| step_run: "egress_step oneonly rt e ws rt1 \<Longrightarrow> egress_run oneonly rt1 es vs rt2 \<Longrightarrow>
    egress_run oneonly rt (e # es) (ws @ vs) rt2"

inductive_cases run_ConsE: "egress_run oneonly rt (e # es) ws rt'"

lemma write_step_sys:
  assumes inv: "rt_inv nv nb rt" and ok: "write_intf_step (rt_eg rt) = Inr (data, eg')"
  shows "rt_inv nv nb (rt\<lparr>rt_eg := eg'\<rparr>) \<and> out_bytes (rt_eg rt) = out_bytes eg' @ [data] \<and>
    rx_of eg' (rt_m rt) = rx_of (rt_eg rt) (rt_m rt)"
proof -
  have sys: "sys_inv nv nb (rt_eg rt) (rt_tbuf rt) (rt_m rt)" using inv by (simp add: rt_inv_def)
  then have ne: "out_list (rt_eg rt) \<noteq> []"
    using ok write_intf_blocked [of nv "rt_eg rt" "rt_m rt"] by (auto simp: sys_inv_frame)
  then have "out_bytes (rt_eg rt) \<noteq> []" by (simp add: out_bytes_def)
  with write_intf_sys [OF sys ne] ok inv sized_same show ?thesis by (auto simp: rt_inv_def)
qed

lemma egress_step_sys:
  assumes "egress_step oneonly rt e ws rt'" "rt_inv nv nb rt"
  shows "rt_inv nv nb rt'"
  using assms(1)
proof cases
  case (turn t1 r t2 pkt)
  then show ?thesis using read_tfs_step_sys assms(2) by blast
next
  case (wrt data eg')
  then show ?thesis using write_step_sys assms(2) by blast
qed

lemma egress_run_sys:
  assumes "egress_run oneonly rt es ws rt'" "rt_inv nv nb rt"
  shows "rt_inv nv nb rt'"
  using assms by (induction rule: egress_run.induct) (auto intro: egress_step_sys)

section \<open>A run on consecutive data packets\<close>

fun datagrams :: "egress_event list \<Rightarrow> bytes list" where
  "datagrams [] = []"
| "datagrams (Turn t1 (Recv d) t2 # es) = d # datagrams es"
| "datagrams (e # es) = datagrams es"

lemma report_last:
  assumes "read_tfs_report oneonly now rt = Inr (pkt, rt1)"
  shows "ack_last (rt_ack rt1) = ack_last (rt_ack rt) \<or> ack_last (rt_ack rt1) = 0"
  using assms
  by (auto simp: read_tfs_report_def Let_def res_simps send_ack_def ack_zero_def split: if_splits prod.splits)

lemma read_tfs_step_err:
  assumes inv: "rt_inv nv nb rt" and ok: "read_tfs_step oneonly t1 RecvErr t2 rt = Inr (pkt, rt')"
  shows "out_bytes (rt_eg rt') = out_bytes (rt_eg rt) \<and> rx_of (rt_eg rt') (rt_m rt') = rx_of (rt_eg rt) (rt_m rt) \<and>
    rt_rl rt' = rt_rl rt \<and> (ack_last (rt_ack rt') = ack_last (rt_ack rt) \<or> ack_last (rt_ack rt') = 0)"
proof -
  from ok obtain rt1 a eg where rep: "read_tfs_report oneonly t1 rt = Inr (pkt, rt1)"
    and turn: "tbuf_turn (rt_tbuf rt1) (rt_eg rt1) = Inr (a, eg)" and rt': "rt' = rt1\<lparr>rt_tbuf := a, rt_eg := eg\<rparr>"
    by (auto simp: read_tfs_step_def res_simps Let_def)
  have same: "rt_eg rt1 = rt_eg rt" "rt_tbuf rt1 = rt_tbuf rt" "rt_m rt1 = rt_m rt" "rt_rl rt1 = rt_rl rt"
    using rep by (auto simp: read_tfs_report_def Let_def res_simps split: if_splits prod.splits)
  have sys: "sys_inv nv nb (rt_eg rt) (rt_tbuf rt) (rt_m rt)" using inv by (simp add: rt_inv_def)
  from tbuf_turn_sys [OF sys turn [unfolded same]] rt' same report_last [OF rep] show ?thesis by auto
qed

lemma egress_run_rx:
  assumes "egress_run oneonly rt es ws rt'" "rt_inv nv nb rt" "rt_rl rt = None"
    and "datagrams es = map wire pkts" "consecutive s pkts"
    and "ack_last (rt_ack rt) = 0 \<or> ack_last (rt_ack rt) + 1 = s"
  shows "\<exists>ds. rx_run (map framed pkts) (rx_of (rt_eg rt) (rt_m rt)) = Inr (ds, rx_of (rt_eg rt') (rt_m rt')) \<and>
    mset ws + mset (out_bytes (rt_eg rt')) = mset (out_bytes (rt_eg rt)) + mset ds"
  using assms
proof (induction arbitrary: pkts s rule: egress_run.induct)
  case (done_run rt)
  then show ?case by simp
next
  case (step_run rt e ws rt1 es vs rt2)
  have inv1: "rt_inv nv nb rt1" using egress_step_sys step_run by blast
  from step_run.hyps(1) show ?case
  proof cases
    case (turn t1 r t2 pkt)
    show ?thesis
    proof (cases r)
      case RecvErr
      note 1 = read_tfs_step_err [OF step_run.prems(1) turn(3) [unfolded RecvErr]]
      have "ack_last (rt_ack rt1) = 0 \<or> ack_last (rt_ack rt1) + 1 = s" using 1 step_run.prems(5) by auto
      from step_run.IH [OF inv1 _ _ step_run.prems(4) this] show ?thesis
        using 1 step_run.prems(2,3) turn RecvErr by auto
    next
      case (Recv p)
      with step_run.prems(3) turn obtain seq off d ps where pk: "pkts = (seq, off, d) # ps"
        "p = tfs_bytes seq off d" "datagrams es = map wire ps"
        by (cases pkts) (auto simp: wire_def)
      with step_run.prems(4) have c: "seq = s" "s \<noteq> 0" "d \<noteq> []" "length d \<le> MAXBUF - HDRSPACE - 8"
        "consecutive (s + 1) ps" by auto
      from turn(3) obtain rt0 where rep: "read_tfs_report oneonly t1 rt = Inr (pkt, rt0)"
        by (cases r) (auto simp: read_tfs_step_def res_simps Let_def case_prod_unfold)
      have l: "ack_last (rt_ack rt0) = 0 \<or> ack_last (rt_ack rt0) + 1 = s"
        using report_last [OF rep] step_run.prems(5) by auto
      have lt: "ack_last (rt_ack rt0) < seq"
        using l c(1,2) succ_less by (auto simp: word_gt_0)
      have nl: "\<not> lost_before seq (rt_ack rt0)" using l c(1) by (auto simp: lost_before_def)
      from read_tfs_step_rx [OF step_run.prems(1,2) rep c(3,4) lt, of off t2 pkt rt1] turn(3) Recv pk(2) nl
      obtain ds where 1: "rx_packet (unat off) d (rx_of (rt_eg rt) (rt_m rt)) = Inr (ds, rx_of (rt_eg rt1) (rt_m rt1))"
        "out_bytes (rt_eg rt1) = out_bytes (rt_eg rt) @ ds" "ack_last (rt_ack rt1) = seq" "rt_rl rt1 = None" by auto
      from step_run.IH [OF inv1 1(4) pk(3) c(5)] 1(3) c(1) obtain es' where
        2: "rx_run (map framed ps) (rx_of (rt_eg rt1) (rt_m rt1)) = Inr (es', rx_of (rt_eg rt2) (rt_m rt2))"
        "mset vs + mset (out_bytes (rt_eg rt2)) = mset (out_bytes (rt_eg rt1)) + mset es'" by auto
      show ?thesis using 1 2 pk turn(2) by (auto simp: framed_def)
    qed
  next
    case (wrt data eg')
    note 1 = write_step_sys [OF step_run.prems(1) wrt(4)]
    from step_run.IH [OF inv1 _ _ step_run.prems(4)] step_run.prems(2,3,5) wrt obtain ds where
      "rx_run (map framed pkts) (rx_of eg' (rt_m rt)) = Inr (ds, rx_of (rt_eg rt2) (rt_m rt2))"
      "mset vs + mset (out_bytes (rt_eg rt2)) = mset (out_bytes eg') + mset ds" by auto
    then show ?thesis using 1 wrt(2) by (auto simp: union_assoc)
  qed
qed

end
