(* ===== verification/EgressSetup.thy ===== *)
theory EgressSetup
  imports EgressRun "HOL-Library.Signed_Division"
begin

text \<open>
  \<open>tfs_tunnel_egress\<close> of \<open>src/src/iptfs.c\<close>, which allocates the receiving side, the proof
  that the reading thread starts in a state of the invariant, and the properties of whole runs.
\<close>

section \<open>Set-up\<close>

text \<open>
  The arguments after \<open>tfsmtu\<close> are the contents of the memory that \<open>malloc\<close> returned: the headers
  of the buffers, their bytes and the slots of the free queue; the headers of the scatter lists, their
  arrays and the slots of their free queue; the slots of the output queue. The result holds the
  two averages of the feedback as well.
\<close>

definition tfs_tunnel_egress :: "int \<Rightarrow> mheap \<Rightarrow> bytes \<Rightarrow> nat list \<Rightarrow> (nat \<Rightarrow> miov) \<Rightarrow> (nat \<Rightarrow> iovec list) \<Rightarrow>
    (nat \<Rightarrow> nat list) \<Rightarrow> nat list \<Rightarrow> nat list \<Rightarrow> (egress \<times> runavg \<times> runavg) res" where
  "tfs_tunnel_egress tfsmtu raw space slots rawm iovs ptrs vslots oslots =
     (let (h, freeq) = mqueue_new_freeq raw space slots OUTERQSZ MAXBUF HDRSPACE in
      bindE (requireE DivByZero (tfsmtu \<noteq> 0)) (\<lambda>_.
      let maxiov = unat (word_of_int (int MAXBUF sdiv tfsmtu + 2) :: u32);
          (mis, iovfreeq) = miovq_new_freeq rawm iovs ptrs vslots OUTERQSZ maxiov;
          iovoutq = miovq_new oslots OUTERQSZ
      in Inr (\<lparr>eg_mem = \<lparr>m_mbufs = h, m_freeq = freeq, m_miovs = mis\<rparr>, eg_iovfreeq = iovfreeq, eg_outq = iovoutq\<rparr>,
              runavg_new 5 1, runavg_new 5 1)))"

text \<open>Memory as the code needs to find it: the code clears neither counts nor lengths.\<close>

definition zeroed :: "mheap \<Rightarrow> bytes \<Rightarrow> nat list \<Rightarrow> (nat \<Rightarrow> miov) \<Rightarrow> nat list \<Rightarrow> nat list \<Rightarrow> bool" where
  "zeroed raw space slots rawm vslots oslots \<longleftrightarrow>
     length space = OUTERQSZ * MAXBUF \<and> length slots = OUTERQSZ \<and> length vslots = OUTERQSZ \<and> length oslots = OUTERQSZ \<and>
     (\<forall>a. mb_refcnt (raw a) = 0) \<and> (\<forall>v. mi_niov (rawm v) = 0 \<and> mi_len (rawm v) = 0 \<and> mi_left (rawm v) = 0)"

lemma start_sys:
  assumes z: "zeroed raw space slots rawm vslots oslots"
    and arr: "\<forall>v. 0 < length (iovs v) \<and> length (iovs v) \<le> 2 ^ 20 \<and> length (ptrs v) = length (iovs v)"
    and set: "tfs_tunnel_egress tfsmtu raw space slots rawm iovs ptrs vslots oslots = Inr (eg, a1, a2)"
    and go: "read_tfs_start oneonly ack_ms congest now timer buf fb eg = Inr rt"
  shows "rt_inv OUTERQSZ OUTERQSZ rt" "rx_of (rt_eg rt) (rt_m rt) = RxIdle" "out_bytes (rt_eg rt) = []"
    "rt_m rt = None" "length (free_list (rt_eg rt)) = OUTERQSZ" "mqueue_contents (m_freeq (eg_mem (rt_eg rt))) \<noteq> []"
proof -
  define hq where "hq = mqueue_new_freeq raw space slots OUTERQSZ MAXBUF HDRSPACE"
  define mx where "mx = unat (word_of_int (int MAXBUF sdiv tfsmtu + 2) :: u32)"
  define vq where "vq = miovq_new_freeq rawm iovs ptrs vslots OUTERQSZ mx"
  have sl: "length slots = OUTERQSZ" "length vslots = OUTERQSZ" using z by (auto simp: zeroed_def)
  note hs = mqueue_new_freeq_state [OF sl(1), where raw = raw and space = space and maxbuf = MAXBUF and hdr = HDRSPACE, folded hq_def]
  note vs = miovq_new_freeq_state [OF sl(2), where raw = rawm and iovs = iovs and ptrs = ptrs and maxiov = mx, folded vq_def]
  have eg: "eg = \<lparr>eg_mem = \<lparr>m_mbufs = fst hq, m_freeq = snd hq, m_miovs = fst vq\<rparr>, eg_iovfreeq = snd vq,
      eg_outq = miovq_new oslots OUTERQSZ\<rparr>"
    using set by (auto simp: tfs_tunnel_egress_def hq_def mx_def vq_def case_prod_unfold Let_def res_simps)
  have ne: "mqueue_contents (snd hq) \<noteq> []" by (simp add: hs(2) OUTERQSZ_def)
  define a where "a = OUTERQSZ - 1"
  then have Suc: "OUTERQSZ = Suc a" by (simp add: OUTERQSZ_def)
  have a: "a < OUTERQSZ" "last [0..<OUTERQSZ] = a" "butlast [0..<OUTERQSZ] = [0..<a]"
    unfolding Suc by simp_all
  from mqueue_pop_top [OF hs(1) ne] obtain q where q: "mqueue_pop (snd hq) = Inr (a, q)" "mqueue_ok q"
    "mqueue_contents q = [0..<a]" "mq_size q = OUTERQSZ" "mq_hdrspace q = HDRSPACE"
    by (auto simp: hs a)
  define st where "st = rt_eg rt"
  have rt: "rt_tbuf rt = a" "rt_m rt = None"
    and st: "st = eg_put a ((fst hq a)\<lparr>mb_refcnt := mb_refcnt (fst hq a) + 1\<rparr>) (eg\<lparr>eg_mem := (eg_mem eg)\<lparr>m_freeq := q\<rparr>\<rparr>)"
    using go q(1) by (auto simp: read_tfs_start_def eg Let_def eg_mbuf_def st_def)
  have len: "length (subseg (i * MAXBUF) MAXBUF space) = MAXBUF" if "i < OUTERQSZ" for i
  proof (rule length_subseg)
    have "(i + 1) * MAXBUF \<le> OUTERQSZ * MAXBUF" using that by (intro mult_le_mono1) simp
    then show "i * MAXBUF + MAXBUF \<le> length space" using z by (simp add: zeroed_def)
  qed
  have buf: "eg_mbuf st x = (if x = a then (fst hq a)\<lparr>mb_refcnt := mb_refcnt (fst hq a) + 1\<rparr> else fst hq x)" for x
    by (simp add: st) (simp add: eg_mbuf_def eg)
  have mi: "eg_miov st v = fst vq v" "eg_iovfreeq st = snd vq" "eg_outq st = miovq_new oslots OUTERQSZ"
    "m_freeq (eg_mem st) = q" for v
    by (simp_all add: st) (simp_all add: eg eg_miov_def)
  have vq0: "mi_niov (fst vq v) = 0" "mi_len (fst vq v) = 0" "mi_left (fst vq v) = 0" "mi_iov (fst vq v) = iovs v"
    "mi_mbufs (fst vq v) = ptrs v" if "v < OUTERQSZ" for v
    using vs(5) [OF that] z by (simp_all add: zeroed_def)
  have fl: "free_list st = [0..<OUTERQSZ]" "out_list st = []"
    by (simp_all add: free_list_def out_list_def mi vs(2)) (simp add: miovq_new_def miovq_contents_def)
  have refs: "refs OUTERQSZ st x = 0" for x by (simp add: refs_def mi miov_refs_def vq0)
  have cnt: "mb_refcnt (fst hq x) = 0" for x
    using hs(5) [of x] hs(6) [of x] z by (cases "x < OUTERQSZ") (simp_all add: zeroed_def)
  have idle: "idle_mbuf HDRSPACE (eg_mbuf st x)" "length (mb_space (eg_mbuf st x)) = MAXBUF" if "x < OUTERQSZ" for x
    using hs(5) [OF that] len [OF that] HDR_le_MAXBUF by (auto simp: buf idle_mbuf_def)
  have HDR_len: "HDRSPACE \<le> length (mb_space (fst hq x))" if "x < OUTERQSZ" for x
    using idle(2) [OF that] HDR_le_MAXBUF by (auto simp: buf split: if_splits)
  have "{x. x < OUTERQSZ \<and> holders OUTERQSZ a st x = 0} = {..<a}"
    using a(1) by (auto simp: holders_def refs a_def)
  then have pool: "pool_ok OUTERQSZ (holders OUTERQSZ a st) (eg_mem st)"
    using q idle(1) a(1) cnt HDR_len by (auto simp: pool_ok_mbufs mi buf holders_def refs)
  have "eg_inv OUTERQSZ st None"
    unfolding eg_inv_def fl mi using vs arr z vq0
    by (auto simp: miov_clean_def miov_wf_def miov_bytes_def miovq_new_def miovq_ok_def zeroed_def)
  moreover have "capacity OUTERQSZ st < 2 ^ 32 - 1"
  proof -
    have "capacity OUTERQSZ st \<le> (\<Sum>v<OUTERQSZ. 2 ^ 20)"
      unfolding capacity_def mi using arr vq0 by (intro sum_mono) simp
    then show ?thesis by (simp add: OUTERQSZ_def)
  qed
  moreover have "mbuf_wf (eg_mbuf st a)" using idle(1) [OF a(1)] by (simp add: idle_mbuf_def mbuf_wf_def)
  ultimately have "sys_inv OUTERQSZ OUTERQSZ st a None"
    using pool q(5) vs(3,4) by (simp add: sys_inv_frame held_clean_def mi)
  then show "rt_inv OUTERQSZ OUTERQSZ rt" using idle(2) by (simp add: rt_inv_def rt st_def sized_def)
  show "rx_of (rt_eg rt) (rt_m rt) = RxIdle" by (simp add: rt rx_of_simps)
  show "out_bytes (rt_eg rt) = []" using fl by (simp add: out_bytes_def st_def)
  show "rt_m rt = None" by (fact rt)
  show "length (free_list (rt_eg rt)) = OUTERQSZ" using fl by (simp add: st_def)
  show "mqueue_contents (m_freeq (eg_mem (rt_eg rt))) \<noteq> []"
    using mi(4) q(3) by (simp add: st_def a_def OUTERQSZ_def)
qed

section \<open>Properties of whole runs\<close>

text \<open>Nothing but lists of the model's memory, to have a start for the examples.\<close>

definition start_demo :: "rtfs res" where
  "start_demo =
     bindE (tfs_tunnel_egress 1500 (\<lambda>_. mbuf_new 0 0) (replicate (OUTERQSZ * MAXBUF) 0) (replicate OUTERQSZ 0)
       (\<lambda>_. \<lparr>mi_iov = [], mi_mbufs = [], mi_len = 0, mi_left = 0, mi_niov = 0, mi_maxiov = 0\<rparr>)
       (\<lambda>_. replicate 8 \<lparr>iov_base = PPad, iov_len = 0\<rparr>) (\<lambda>_. replicate 8 0)
       (replicate OUTERQSZ 0) (replicate OUTERQSZ 0))
       (\<lambda>(eg, a, d). read_tfs_start False 1000 0 (Timespec 1 0) \<lparr>st_ts = Timespec 0 0, st_nsecs = 0\<rparr> ack_buffer
          \<lparr>g_avgpps = Some a, g_avgdrops = Some d, g_pps = None\<rparr> eg)"

lemma start_demo_inv:
  "\<exists>rt. start_demo = Inr rt \<and> rt_inv OUTERQSZ OUTERQSZ rt \<and> rx_of (rt_eg rt) (rt_m rt) = RxIdle \<and>
     out_bytes (rt_eg rt) = [] \<and> rt_rl rt = None \<and> ack_last (rt_ack rt) = 0 \<and>
     rt_m rt = None \<and> length (free_list (rt_eg rt)) = OUTERQSZ \<and>
     mqueue_contents (m_freeq (eg_mem (rt_eg rt))) \<noteq> []"
proof -
  let ?raw = "\<lambda>_ :: nat. mbuf_new 0 0" and ?space = "replicate (OUTERQSZ * MAXBUF) (0 :: u8)"
  let ?slots = "replicate OUTERQSZ (0 :: nat)"
  let ?rawm = "\<lambda>_ :: nat. \<lparr>mi_iov = [], mi_mbufs = [], mi_len = 0, mi_left = 0, mi_niov = 0, mi_maxiov = 0\<rparr>"
  let ?iovs = "\<lambda>_ :: nat. replicate 8 \<lparr>iov_base = PPad, iov_len = 0\<rparr>" and ?ptrs = "\<lambda>_ :: nat. replicate 8 (0 :: nat)"
  have z: "zeroed ?raw ?space ?slots ?rawm ?slots ?slots" by (simp add: zeroed_def mbuf_new_def)
  have arr: "\<forall>v. 0 < length (?iovs v) \<and> length (?iovs v) \<le> 2 ^ 20 \<and> length (?ptrs v) = length (?iovs v)" by simp
  obtain eg a d where eg: "tfs_tunnel_egress 1500 ?raw ?space ?slots ?rawm ?iovs ?ptrs ?slots ?slots = Inr (eg, a, d)"
    by (simp add: tfs_tunnel_egress_def case_prod_unfold Let_def)
  have "m_freeq (eg_mem eg) = snd (mqueue_new_freeq ?raw ?space ?slots OUTERQSZ MAXBUF HDRSPACE)"
    using eg by (auto simp: tfs_tunnel_egress_def case_prod_unfold Let_def)
  then have "mqueue_ok (m_freeq (eg_mem eg))" "mqueue_contents (m_freeq (eg_mem eg)) \<noteq> []"
    using mqueue_new_freeq_state(1,2) [of ?slots OUTERQSZ ?raw ?space MAXBUF HDRSPACE] by (simp_all add: OUTERQSZ_def)
  from mqueue_pop_top [OF this] obtain x q where q: "mqueue_pop (m_freeq (eg_mem eg)) = Inr (x, q)" by blast
  then obtain rt where rt: "read_tfs_start False 1000 0 (Timespec 1 0) \<lparr>st_ts = Timespec 0 0, st_nsecs = 0\<rparr> ack_buffer
      \<lparr>g_avgpps = Some a, g_avgdrops = Some d, g_pps = None\<rparr> eg = Inr rt" "rt_rl rt = None" "ack_last (rt_ack rt) = 0"
    by (simp add: read_tfs_start_def Let_def ack_zero_def)
  then have "start_demo = Inr rt" unfolding start_demo_def eg by simp
  then show ?thesis using start_sys [OF z arr eg rt(1)] rt by auto
qed

lemma report_progress: "\<exists>pkt rt1. read_tfs_report False now rt = Inr (pkt, rt1)"
  by (auto simp: read_tfs_report_def send_ack_def Let_def case_prod_unfold)

text \<open>One packet received and one inner packet written.\<close>

definition demo_payload :: bytes where
  "demo_payload = [0x45, 0, 0, 7, 10, 20, 30,  0x45, 0, 0, 9, 40]"

lemma demo_payload_rx:
  "rx_packet (unat (0 :: u16)) demo_payload RxIdle =
     Inr ([[0x45, 0, 0, 7, 10, 20, 30]], RxPartial [0x45, 0, 0, 9, 40] 4)"
  by (simp add: demo_payload_def rx_packet_def rx_blocks.simps is_pad_def block_len_def get16_def)

lemma demo_run_of:
  assumes d: "d \<noteq> []" "length d \<le> MAXBUF - HDRSPACE - 8" and rx: "rx_packet (unat (0 :: u16)) d RxIdle = Inr ([p], r')"
  shows "\<exists>rt rt'. start_demo = Inr rt \<and> rt_inv OUTERQSZ OUTERQSZ rt \<and> rt_rl rt = None \<and> ack_last (rt_ack rt) = 0 \<and>
     rx_of (rt_eg rt) (rt_m rt) = RxIdle \<and> out_bytes (rt_eg rt) = [] \<and>
     egress_run False rt [Turn (Timespec 1 500) (Recv (tfs_bytes 1 0 d)) (Timespec 1 600), WriteIntf]
       [p] rt'"
proof -
  from start_demo_inv obtain rt where 0: "start_demo = Inr rt" "rt_inv OUTERQSZ OUTERQSZ rt"
    "rx_of (rt_eg rt) (rt_m rt) = RxIdle" "out_bytes (rt_eg rt) = []" "rt_rl rt = None" "ack_last (rt_ack rt) = 0"
    "rt_m rt = None" "length (free_list (rt_eg rt)) = OUTERQSZ" "mqueue_contents (m_freeq (eg_mem (rt_eg rt))) \<noteq> []"
    by blast
  from report_progress [of "Timespec 1 500" rt] obtain pkt rt0 where
    rep: "read_tfs_report False (Timespec 1 500) rt = Inr (pkt, rt0)" by blast
  have last: "ack_last (rt_ack rt0) = 0" using report_last [OF rep] 0(6) by auto
  have seq: "ack_last (rt_ack rt0) < 1" "\<not> lost_before 1 (rt_ack rt0)" using last by (simp_all add: lost_before_def)
  obtain rt1 where 1: "read_tfs_step False (Timespec 1 500) (Recv (tfs_bytes 1 0 d)) (Timespec 1 600) rt = Inr (pkt, rt1)"
    using read_tfs_step_progress [OF 0(2,5) rep _ d seq, where off = 0 and
        ds = "[p]" and r' = "r'"] 0 rx by (auto simp: OUTERQSZ_def)
  have out: "out_bytes (rt_eg rt1) = [p]"
    using read_tfs_step_rx [OF 0(2,5) rep d seq(1) 1] seq(2) 0(3,4) rx by auto
  then have ne: "out_list (rt_eg rt1) \<noteq> []" by (auto simp: out_bytes_def)
  have "sys_inv OUTERQSZ OUTERQSZ (rt_eg rt1) (rt_tbuf rt1) (rt_m rt1)"
    using read_tfs_step_sys [OF 0(2) 1] by (simp add: rt_inv_def)
  from write_intf_sys [OF this ne] out obtain eg2 where
    "write_intf_step (rt_eg rt1) = Inr (p, eg2)" by auto
  then have "egress_step False rt1 WriteIntf [p] (rt1\<lparr>rt_eg := eg2\<rparr>)" by (rule wrt)
  from step_run [OF turn [OF 1] step_run [OF this done_run]] 0 show ?thesis by auto
qed

lemma demo_run:
  "\<exists>rt rt'. start_demo = Inr rt \<and> rt_inv OUTERQSZ OUTERQSZ rt \<and> rt_rl rt = None \<and> ack_last (rt_ack rt) = 0 \<and>
     rx_of (rt_eg rt) (rt_m rt) = RxIdle \<and> out_bytes (rt_eg rt) = [] \<and>
     egress_run False rt [Turn (Timespec 1 500) (Recv (tfs_bytes 1 0 demo_payload)) (Timespec 1 600), WriteIntf]
       [[0x45, 0, 0, 7, 10, 20, 30]] rt'"
  by (rule demo_run_of [OF _ _ demo_payload_rx]) (simp_all add: demo_payload_def const_defs)

text \<open>By turns the receiving side stays consistent for ever. After set-up over zeroed memory, whatever
  datagrams arrive and in whatever order the two threads take their turns: every buffer is held
  by exactly as many references as its count says and is in the free queue exactly when nobody
  holds it, and every scatter list is free and empty, queued for the writer, or held by the reader.\<close>

theorem egress_run_keeps_invariant:
  assumes "zeroed raw space slots rawm vslots oslots"
    and "\<forall>v. 0 < length (iovs v) \<and> length (iovs v) \<le> 2 ^ 20 \<and> length (ptrs v) = length (iovs v)"
    and "tfs_tunnel_egress tfsmtu raw space slots rawm iovs ptrs vslots oslots = Inr (eg, a1, a2)"
    and "read_tfs_start oneonly ack_ms congest now timer buf fb eg = Inr rt"
    and "egress_run oneonly rt es ws rt'"
  shows "sys_inv OUTERQSZ OUTERQSZ (rt_eg rt') (rt_tbuf rt') (rt_m rt')"
  using egress_run_sys [OF assms(5) start_sys(1) [OF assms(1-4)]] by (simp add: rt_inv_def)

theorem egress_run_keeps_invariant_witness:
  "\<exists>rt rt'. start_demo = Inr rt \<and>
     egress_run False rt [Turn (Timespec 1 500) (Recv (tfs_bytes 1 0 demo_payload)) (Timespec 1 600), WriteIntf]
       [[0x45, 0, 0, 7, 10, 20, 30]] rt' \<and>
     sys_inv OUTERQSZ OUTERQSZ (rt_eg rt') (rt_tbuf rt') (rt_m rt')"
proof -
  from demo_run obtain rt rt' where 0: "start_demo = Inr rt"
    and run: "egress_run False rt [Turn (Timespec 1 500) (Recv (tfs_bytes 1 0 demo_payload)) (Timespec 1 600), WriteIntf]
       [[0x45, 0, 0, 7, 10, 20, 30]] rt'" by blast
  let ?slots = "replicate OUTERQSZ (0 :: nat)"
  let ?rawm = "\<lparr>mi_iov = [], mi_mbufs = [], mi_len = 0, mi_left = 0, mi_niov = 0, mi_maxiov = 0\<rparr>"
  let ?iovs = "\<lambda>_ :: nat. replicate 8 \<lparr>iov_base = PPad, iov_len = 0\<rparr>" and ?ptrs = "\<lambda>_ :: nat. replicate 8 (0 :: nat)"
  have z: "zeroed (\<lambda>_. mbuf_new 0 0) (replicate (OUTERQSZ * MAXBUF) 0) ?slots (\<lambda>_. ?rawm) ?slots ?slots"
    by (simp add: zeroed_def mbuf_new_def)
  have arr: "\<forall>v. 0 < length (?iovs v) \<and> length (?iovs v) \<le> 2 ^ 20 \<and> length (?ptrs v) = length (?iovs v)" by simp
  from 0 obtain eg a d where
    "tfs_tunnel_egress 1500 (\<lambda>_. mbuf_new 0 0) (replicate (OUTERQSZ * MAXBUF) 0) ?slots (\<lambda>_. ?rawm) ?iovs ?ptrs ?slots ?slots
       = Inr (eg, a, d)"
    "read_tfs_start False 1000 0 (Timespec 1 0) \<lparr>st_ts = Timespec 0 0, st_nsecs = 0\<rparr> ack_buffer
       \<lparr>g_avgpps = Some a, g_avgdrops = Some d, g_pps = None\<rparr> eg = Inr rt"
    by (auto simp: start_demo_def res_simps)
  from egress_run_keeps_invariant [OF z arr this run] 0 run show ?thesis by blast
qed

text \<open>By turns nothing is lost, invented or altered. When the datagrams of a run are consecutive data
  packets, the inner packets written to the tunnel interface during the run, together with the ones
  still queued, are those that were queued before and those that the framing specification cuts
  out of the packets; and the packet in progress is the specification's.\<close>

theorem egress_run_delivers:
  assumes "egress_run oneonly rt es ws rt'" "rt_inv nv nb rt" "rt_rl rt = None"
    and "datagrams es = map wire pkts" "consecutive s pkts"
    and "ack_last (rt_ack rt) = 0 \<or> ack_last (rt_ack rt) + 1 = s"
  shows "\<exists>ds. rx_run (map framed pkts) (rx_of (rt_eg rt) (rt_m rt)) = Inr (ds, rx_of (rt_eg rt') (rt_m rt')) \<and>
    mset ws + mset (out_bytes (rt_eg rt')) = mset (out_bytes (rt_eg rt)) + mset ds"
  by (rule egress_run_rx [OF assms])

theorem egress_run_delivers_witness:
  "\<exists>rt rt'. start_demo = Inr rt \<and>
     egress_run False rt [Turn (Timespec 1 500) (Recv (tfs_bytes 1 0 demo_payload)) (Timespec 1 600), WriteIntf]
       [[0x45, 0, 0, 7, 10, 20, 30]] rt' \<and>
     rx_of (rt_eg rt') (rt_m rt') = RxPartial [0x45, 0, 0, 9, 40] 4 \<and> out_bytes (rt_eg rt') = []"
proof -
  from demo_run obtain rt rt' where 0: "start_demo = Inr rt" "rt_inv OUTERQSZ OUTERQSZ rt" "rt_rl rt = None"
    "ack_last (rt_ack rt) = 0" "rx_of (rt_eg rt) (rt_m rt) = RxIdle" "out_bytes (rt_eg rt) = []"
    and run: "egress_run False rt [Turn (Timespec 1 500) (Recv (tfs_bytes 1 0 demo_payload)) (Timespec 1 600), WriteIntf]
       [[0x45, 0, 0, 7, 10, 20, 30]] rt'" by blast
  have "consecutive 1 [(1, 0, demo_payload)]" by (simp add: demo_payload_def const_defs)
  from egress_run_delivers [OF run 0(2,3) _ this] 0 demo_payload_rx run show ?thesis
    by (auto simp: wire_def framed_def)
qed

end
