(* ===== verification/RxInterleave.thy ===== *)
theory RxInterleave
  imports EgressSetup
begin

text \<open>
  The receiving side at the grain of its queue operations and of its changes of reference counts. The code
  locks a queue for one operation only and counts references atomically, so the interface writer can come between
  any two such operations of the tunnel reader. Here a step of either thread is what it does up to and
  including its next operation on a queue, its next release of a buffer or its next system call; the turns of
  \<open>EgressRun\<close> are the runs in which no other thread comes between.
\<close>

section \<open>Steps of the tunnel reader\<close>

text \<open>
  Where the reader is: at the top of its loop; waiting for a buffer from the free queue; in \<open>recvfrom\<close>; in
  \<open>miov_reset\<close> on the inner packet in progress, with the references it still has to give back; before a call
  of \<open>add_to_inner_packet\<close>, the first one for a tunnel packet or a recursive one; in that call, with the scatter
  list it fills.
\<close>

datatype rphase = RTop | RPop | RRecv | RReset "nat list" | RCall bool | RBody nat int int

text \<open>The report, and the reader's reference to its buffer given back.\<close>

definition reader_top :: "bool \<Rightarrow> timespec \<Rightarrow> rtfs \<Rightarrow> (bytes option \<times> rtfs \<times> rphase) res" where
  "reader_top oneonly now rt =
     bindE (read_tfs_report oneonly now rt) (\<lambda>(pkt, rt1).
     let tb = rt_tbuf rt1; b = eg_mbuf (rt_eg rt1) tb; eg = eg_put tb (b\<lparr>mb_refcnt := mb_refcnt b - 1\<rparr>) (rt_eg rt1)
     in if mb_refcnt b = 1
        then bindE (mbuf_reset (eg_mbuf eg tb) HDRSPACE) (\<lambda>b'.
             Inr (pkt, rt1\<lparr>rt_eg := eg_put tb (b'\<lparr>mb_refcnt := 1\<rparr>) eg\<rparr>, RRecv))
        else Inr (pkt, rt1\<lparr>rt_eg := eg\<rparr>, RPop))"

definition reader_pop :: "rtfs \<Rightarrow> rtfs res" where
  "reader_pop rt =
     bindE (mqueue_pop (m_freeq (eg_mem (rt_eg rt)))) (\<lambda>(a, q).
     let eg = (rt_eg rt)\<lparr>eg_mem := (eg_mem (rt_eg rt))\<lparr>m_freeq := q\<rparr>\<rparr>
     in Inr (rt\<lparr>rt_tbuf := a, rt_eg := eg_put a ((eg_mbuf eg a)\<lparr>mb_refcnt := 1\<rparr>) eg\<rparr>))"

text \<open>
  A data packet: the counts of the report are the thread's own, so they are updated at once; what
  remains is to drop the inner packet in progress after a loss, and to call \<open>add_to_inner_packet\<close>.
\<close>

definition reader_data :: "u32 \<Rightarrow> rtfs \<Rightarrow> rtfs \<times> rphase" where
  "reader_data seq rt =
     (let ack = (if ack_start (rt_ack rt) = 0 then (rt_ack rt)\<lparr>ack_start := seq\<rparr> else rt_ack rt) in
      if seq \<le> ack_last ack then (rt\<lparr>rt_ack := ack\<rparr>, RTop)
      else
        (let lost = (seq \<noteq> ack_last ack + 1 \<and> ack_last ack \<noteq> 0);
             ack' = (if lost then ack\<lparr>ack_ndrop := ack_ndrop ack + (seq - (ack_last ack + 1))\<rparr> else ack)
         in (rt\<lparr>rt_ack := ack'\<lparr>ack_last := seq\<rparr>\<rparr>,
             case rt_m rt of
               Some v \<Rightarrow> if lost then RReset (miov_refs (eg_miov (rt_eg rt) v)) else RCall True
             | None \<Rightarrow> RCall True)))"

definition reader_dispatch :: "bool \<Rightarrow> nat \<Rightarrow> rtfs \<Rightarrow> (rtfs \<times> rphase) res" where
  "reader_dispatch oneonly n rt =
     (let a = rt_tbuf rt; b = (eg_mbuf (rt_eg rt) a)\<lparr>mb_end := mb_start (eg_mbuf (rt_eg rt) a) + n\<rparr>;
          rt1 = rt\<lparr>rt_eg := eg_put a b (rt_eg rt)\<rparr>;
          offset = get32 (mb_space b) (mb_start b + 4)
      in if offset AND 0xC0000000 = 0x40000000
         then bindE (recv_ack oneonly b (rt_fb rt1)) (\<lambda>fb. Inr (rt1\<lparr>rt_fb := fb\<rparr>, RTop))
         else if offset AND 0x80000000 \<noteq> 0 then Inr (rt_drop rt1, RTop)
         else Inr (reader_data (get32 (mb_space b) (mb_start b)) rt1))"

definition reader_recv :: "bool \<Rightarrow> recv \<Rightarrow> timespec \<Rightarrow> rtfs \<Rightarrow> (rtfs \<times> rphase) res" where
  "reader_recv oneonly r now rt =
     (case r of
        RecvErr \<Rightarrow> Inr (rt, RTop)
      | Recv d \<Rightarrow>
          (let (n, eg) = tbuf_recv (rt_tbuf rt) d (rt_eg rt)
           in bindE (read_tfs_admit n now (rt\<lparr>rt_eg := eg\<rparr>)) (\<lambda>(ok, rt1).
              if ok then reader_dispatch oneonly n rt1 else Inr (rt1, RTop))))"

definition eg_clear :: "nat \<Rightarrow> egress \<Rightarrow> egress" where
  "eg_clear v eg =
     eg\<lparr>eg_mem := (eg_mem eg)\<lparr>m_miovs := (m_miovs (eg_mem eg))(v := (eg_miov eg v)\<lparr>mi_niov := 0, mi_len := 0, mi_left := 0\<rparr>)\<rparr>\<rparr>"

definition eg_deref :: "nat \<Rightarrow> egress \<Rightarrow> egress res" where
  "eg_deref a eg = bindE (mbuf_deref (eg_mem eg) a) (\<lambda>s. Inr (eg\<lparr>eg_mem := s\<rparr>))"

text \<open>
  The steps other than the return of \<open>recvfrom\<close>, in which the thread waits for a datagram. While a call of
  \<open>add_to_inner_packet\<close> runs, \<open>rt_m\<close> is the list the call holds.
\<close>

definition reader_step :: "bool \<Rightarrow> timespec \<Rightarrow> rtfs \<Rightarrow> rphase \<Rightarrow> (bytes option \<times> rtfs \<times> rphase) res" where
  "reader_step oneonly now rt ph =
     (case ph of
        RTop \<Rightarrow> reader_top oneonly now rt
      | RPop \<Rightarrow> bindE (reader_pop rt) (\<lambda>rt1. Inr (None, rt1, RRecv))
      | RRecv \<Rightarrow> Inl Blocked
      | RReset [] \<Rightarrow>
          Inr (None, case rt_m rt of None \<Rightarrow> rt | Some v \<Rightarrow> rt\<lparr>rt_eg := eg_clear v (rt_eg rt)\<rparr>, RCall True)
      | RReset (a # as) \<Rightarrow> bindE (eg_deref a (rt_eg rt)) (\<lambda>eg. Inr (None, rt\<lparr>rt_eg := eg\<rparr>, RReset as))
      | RCall new \<Rightarrow>
          bindE (atip_enter (rt_tbuf rt) new (rt_m rt) (rt_eg rt)) (\<lambda>(v, off, tlen, eg).
          Inr (None, rt\<lparr>rt_m := Some v, rt_eg := eg\<rparr>, RBody v off tlen))
      | RBody v off tlen \<Rightarrow>
          bindE (atip_round (rt_tbuf rt) v off tlen (rt_eg rt)) (\<lambda>(e, eg).
          Inr (None, case e of
            Done m' \<Rightarrow> (rt\<lparr>rt_m := m', rt_eg := eg\<rparr>, RTop)
          | Recurse \<Rightarrow> (rt\<lparr>rt_m := None, rt_eg := eg\<rparr>, RCall False))))"

section \<open>Steps of the interface writer\<close>

text \<open>Waiting for a scatter list; holding one; giving back its references.\<close>

datatype dphase = DIdle | DHold nat | DDrop nat "nat list"

definition drain_step :: "egress \<Rightarrow> dphase \<Rightarrow> (bytes option \<times> egress \<times> dphase) res" where
  "drain_step eg ph =
     (case ph of
        DIdle \<Rightarrow> bindE (miovq_pop (eg_outq eg)) (\<lambda>(v, q). Inr (None, eg\<lparr>eg_outq := q\<rparr>, DHold v))
      | DHold v \<Rightarrow>
          (let mi = eg_miov eg v
           in Inr (Some (iov_gather (eg_mem eg) (take (mi_niov mi) (mi_iov mi))), eg,
                   DDrop v (if vq_freeq (eg_iovfreeq eg) then miov_refs mi else [])))
      | DDrop v [] \<Rightarrow>
          bindE (miovq_put (eg_iovfreeq eg) v) (\<lambda>(_, q).
          Inr (None, (if vq_freeq (eg_iovfreeq eg) then eg_clear v eg else eg)\<lparr>eg_iovfreeq := q\<rparr>, DIdle))
      | DDrop v (a # as) \<Rightarrow> bindE (eg_deref a eg) (\<lambda>eg'. Inr (None, eg', DDrop v as)))"

section \<open>Interleaved runs\<close>

record rx_fine =
  rf_rt :: rtfs
  rf_reader :: rphase
  rf_writer :: dphase

text \<open>
  A step of the reader with the clock, a datagram that \<open>recvfrom\<close> returns with the clock after it,
  or a step of the writer. A thread that would wait takes no step.
\<close>

datatype rx_event = XRead timespec | XRecv recv timespec | XWrite

inductive rx_step :: "bool \<Rightarrow> rx_fine \<Rightarrow> rx_event \<Rightarrow> bytes list \<Rightarrow> rx_fine \<Rightarrow> bool" for oneonly where
  x_read: "reader_step oneonly now (rf_rt s) (rf_reader s) = Inr (pkt, rt, ph) \<Longrightarrow>
    rx_step oneonly s (XRead now) [] (s\<lparr>rf_rt := rt, rf_reader := ph\<rparr>)"
| x_recv: "rf_reader s = RRecv \<Longrightarrow> reader_recv oneonly r now (rf_rt s) = Inr (rt, ph) \<Longrightarrow>
    rx_step oneonly s (XRecv r now) [] (s\<lparr>rf_rt := rt, rf_reader := ph\<rparr>)"
| x_write: "drain_step (rt_eg (rf_rt s)) (rf_writer s) = Inr (d, eg, ph) \<Longrightarrow>
    rx_step oneonly s XWrite (emitted d) (s\<lparr>rf_rt := (rf_rt s)\<lparr>rt_eg := eg\<rparr>, rf_writer := ph\<rparr>)"

inductive_cases x_readE: "rx_step oneonly s (XRead now) ws s'"
inductive_cases x_recvE: "rx_step oneonly s (XRecv r now) ws s'"
inductive_cases x_writeE: "rx_step oneonly s XWrite ws s'"

inductive rx_fine_run :: "bool \<Rightarrow> rx_fine \<Rightarrow> rx_event list \<Rightarrow> bytes list \<Rightarrow> rx_fine \<Rightarrow> bool" for oneonly where
  x_done: "rx_fine_run oneonly s [] [] s"
| x_more: "rx_step oneonly s e ws s1 \<Longrightarrow> rx_fine_run oneonly s1 es vs s2 \<Longrightarrow>
    rx_fine_run oneonly s (e # es) (ws @ vs) s2"

fun arrivals :: "rx_event list \<Rightarrow> recv list" where
  "arrivals [] = []"
| "arrivals (XRecv r now # es) = r # arrivals es"
| "arrivals (e # es) = arrivals es"

lemma arrivals_append [simp]: "arrivals (es @ fs) = arrivals es @ arrivals fs"
  by (induction es rule: arrivals.induct) simp_all

lemma rx_fine_run_append:
  assumes "rx_fine_run oneonly s es ws s1" "rx_fine_run oneonly s1 es' ws' s2"
  shows "rx_fine_run oneonly s (es @ es') (ws @ ws') s2"
  using assms
proof (induction rule: rx_fine_run.induct)
  case (x_more s e ws s1 es vs s2)
  from rx_fine_run.x_more [OF x_more.hyps(1) x_more.IH [OF x_more.prems]] show ?case by simp
qed simp

section \<open>A turn is a run\<close>

lemma rx_one: "rx_step oneonly s e ws s' \<Longrightarrow> rx_fine_run oneonly s [e] ws s'"
  using x_more [OF _ x_done] by fastforce

lemma read_one:
  assumes "reader_step oneonly now rt ph = Inr (pkt, rt', ph')"
  shows "rx_fine_run oneonly \<lparr>rf_rt = rt, rf_reader = ph, rf_writer = w\<rparr> [XRead now] []
    \<lparr>rf_rt = rt', rf_reader = ph', rf_writer = w\<rparr>"
  using rx_one [OF x_read [of oneonly now "\<lparr>rf_rt = rt, rf_reader = ph, rf_writer = w\<rparr>"]] assms by fastforce

lemma write_one_rx:
  assumes "drain_step (rt_eg rt) ph = Inr (d, eg, ph')"
  shows "rx_fine_run oneonly \<lparr>rf_rt = rt, rf_reader = rd, rf_writer = ph\<rparr> [XWrite] (emitted d)
    \<lparr>rf_rt = rt\<lparr>rt_eg := eg\<rparr>, rf_reader = rd, rf_writer = ph'\<rparr>"
  using rx_one [OF x_write [of "\<lparr>rf_rt = rt, rf_reader = rd, rf_writer = ph\<rparr>"]] assms by fastforce

lemma eg_mem_same [simp]: "eg\<lparr>eg_mem := eg_mem eg\<rparr> = eg" "rt\<lparr>rt_eg := rt_eg rt\<rparr> = rt" "rt\<lparr>rt_m := rt_m rt\<rparr> = rt"
  by simp_all

text \<open>Releases, one step each.\<close>

lemma derefs_read_run:
  assumes "mbuf_derefs (eg_mem (rt_eg rt)) as = Inr s"
  shows "\<exists>es. rx_fine_run oneonly \<lparr>rf_rt = rt, rf_reader = RReset as, rf_writer = w\<rparr> es []
    \<lparr>rf_rt = rt\<lparr>rt_eg := (rt_eg rt)\<lparr>eg_mem := s\<rparr>\<rparr>, rf_reader = RReset [], rf_writer = w\<rparr> \<and> arrivals es = []"
  using assms
proof (induction as arbitrary: rt)
  case Nil
  then have "s = eg_mem (rt_eg rt)" by simp
  then show ?case by (intro exI [of _ "[]"]) (simp add: x_done)
next
  case (Cons a as)
  from Cons.prems obtain s1 where 1: "mbuf_deref (eg_mem (rt_eg rt)) a = Inr s1" "mbuf_derefs s1 as = Inr s"
    by (auto simp: res_simps)
  let ?rt1 = "rt\<lparr>rt_eg := (rt_eg rt)\<lparr>eg_mem := s1\<rparr>\<rparr>"
  have "reader_step oneonly (Timespec 0 0) rt (RReset (a # as)) = Inr (None, ?rt1, RReset as)"
    using 1(1) by (simp add: reader_step_def eg_deref_def)
  from read_one [OF this] Cons.IH [of ?rt1] 1(2) obtain es where
    "rx_fine_run oneonly \<lparr>rf_rt = rt, rf_reader = RReset (a # as), rf_writer = w\<rparr> ([XRead (Timespec 0 0)] @ es) ([] @ [])
      \<lparr>rf_rt = rt\<lparr>rt_eg := (rt_eg rt)\<lparr>eg_mem := s\<rparr>\<rparr>, rf_reader = RReset [], rf_writer = w\<rparr>" "arrivals es = []"
    by (fastforce intro: rx_fine_run_append)
  then show ?case by (intro exI [of _ "[XRead (Timespec 0 0)] @ es"]) simp
qed

lemma derefs_write_run:
  assumes "mbuf_derefs (eg_mem (rt_eg rt)) as = Inr s"
  shows "\<exists>es. rx_fine_run oneonly \<lparr>rf_rt = rt, rf_reader = rd, rf_writer = DDrop v as\<rparr> es []
    \<lparr>rf_rt = rt\<lparr>rt_eg := (rt_eg rt)\<lparr>eg_mem := s\<rparr>\<rparr>, rf_reader = rd, rf_writer = DDrop v []\<rparr> \<and> arrivals es = []"
  using assms
proof (induction as arbitrary: rt)
  case Nil
  then have "s = eg_mem (rt_eg rt)" by simp
  then show ?case by (intro exI [of _ "[]"]) (simp add: x_done)
next
  case (Cons a as)
  from Cons.prems obtain s1 where 1: "mbuf_deref (eg_mem (rt_eg rt)) a = Inr s1" "mbuf_derefs s1 as = Inr s"
    by (auto simp: res_simps)
  let ?rt1 = "rt\<lparr>rt_eg := (rt_eg rt)\<lparr>eg_mem := s1\<rparr>\<rparr>"
  have "drain_step (rt_eg rt) (DDrop v (a # as)) = Inr (None, (rt_eg rt)\<lparr>eg_mem := s1\<rparr>, DDrop v as)"
    using 1(1) by (simp add: drain_step_def eg_deref_def)
  from write_one_rx [OF this] Cons.IH [of ?rt1] 1(2) obtain es where
    "rx_fine_run oneonly \<lparr>rf_rt = rt, rf_reader = rd, rf_writer = DDrop v (a # as)\<rparr> ([XWrite] @ es) ([] @ [])
      \<lparr>rf_rt = rt\<lparr>rt_eg := (rt_eg rt)\<lparr>eg_mem := s\<rparr>\<rparr>, rf_reader = rd, rf_writer = DDrop v []\<rparr>" "arrivals es = []"
    by (fastforce intro: rx_fine_run_append)
  then show ?case by (intro exI [of _ "[XWrite] @ es"]) simp
qed

lemma reset_run:
  assumes "miov_reset (eg_mem (rt_eg rt)) v = Inr s" "rt_m rt = Some v"
  shows "\<exists>es. rx_fine_run oneonly \<lparr>rf_rt = rt, rf_reader = RReset (miov_refs (eg_miov (rt_eg rt) v)), rf_writer = w\<rparr> es []
    \<lparr>rf_rt = rt\<lparr>rt_eg := (rt_eg rt)\<lparr>eg_mem := s\<rparr>\<rparr>, rf_reader = RCall True, rf_writer = w\<rparr> \<and> arrivals es = []"
proof -
  from assms(1) obtain s1 where d: "mbuf_derefs (eg_mem (rt_eg rt)) (miov_refs (eg_miov (rt_eg rt) v)) = Inr s1"
    and s: "s = s1\<lparr>m_miovs := (m_miovs s1)(v := (m_miovs s1 v)\<lparr>mi_niov := 0, mi_len := 0, mi_left := 0\<rparr>)\<rparr>"
    by (auto simp: miov_reset_def eg_miov_def res_simps)
  let ?rt1 = "rt\<lparr>rt_eg := (rt_eg rt)\<lparr>eg_mem := s1\<rparr>\<rparr>"
  from derefs_read_run [OF d] obtain es where
    1: "rx_fine_run oneonly \<lparr>rf_rt = rt, rf_reader = RReset (miov_refs (eg_miov (rt_eg rt) v)), rf_writer = w\<rparr> es []
      \<lparr>rf_rt = ?rt1, rf_reader = RReset [], rf_writer = w\<rparr>" "arrivals es = []" by blast
  have "reader_step oneonly (Timespec 0 0) ?rt1 (RReset []) = Inr (None, rt\<lparr>rt_eg := (rt_eg rt)\<lparr>eg_mem := s\<rparr>\<rparr>, RCall True)"
    using assms(2) by (simp add: reader_step_def eg_clear_def eg_miov_def s)
  from rx_fine_run_append [OF 1(1) read_one [OF this]] 1(2) show ?thesis by fastforce
qed

text \<open>A call of \<open>add_to_inner_packet\<close>, round by round.\<close>

lemma call_run:
  assumes "atip n (rt_tbuf rt) new (rt_m rt) (rt_eg rt) = Inr (m', eg')"
  shows "\<exists>es. rx_fine_run oneonly \<lparr>rf_rt = rt, rf_reader = RCall new, rf_writer = w\<rparr> es []
    \<lparr>rf_rt = rt\<lparr>rt_m := m', rt_eg := eg'\<rparr>, rf_reader = RTop, rf_writer = w\<rparr> \<and> arrivals es = []"
  using assms
proof (induction n arbitrary: rt new)
  case (Suc n)
  from Suc.prems obtain v off tlen eg1 e eg2 where
    1: "atip_enter (rt_tbuf rt) new (rt_m rt) (rt_eg rt) = Inr (v, off, tlen, eg1)"
      "atip_round (rt_tbuf rt) v off tlen eg1 = Inr (e, eg2)"
    and rest: "(case e of Done m \<Rightarrow> Inr (m, eg2) | Recurse \<Rightarrow> atip n (rt_tbuf rt) False None eg2) = Inr (m', eg')"
    by (auto simp: res_simps)
  let ?t = "Timespec 0 0" and ?rt1 = "rt\<lparr>rt_m := Some v, rt_eg := eg1\<rparr>"
  have "reader_step oneonly ?t rt (RCall new) = Inr (None, ?rt1, RBody v off tlen)"
    using 1(1) by (simp add: reader_step_def)
  note st1 = read_one [OF this, of w]
  show ?case
  proof (cases e)
    case (Done m)
    then have "reader_step oneonly ?t ?rt1 (RBody v off tlen) = Inr (None, rt\<lparr>rt_m := m', rt_eg := eg'\<rparr>, RTop)"
      using 1(2) rest by (simp add: reader_step_def)
    from rx_fine_run_append [OF st1 read_one [OF this]] show ?thesis
      by (intro exI [of _ "[XRead ?t, XRead ?t]"]) simp
  next
    case Recurse
    let ?rt2 = "rt\<lparr>rt_m := None, rt_eg := eg2\<rparr>"
    have "reader_step oneonly ?t ?rt1 (RBody v off tlen) = Inr (None, ?rt2, RCall False)"
      using 1(2) Recurse by (simp add: reader_step_def)
    note st2 = rx_fine_run_append [OF st1 read_one [OF this, of w]]
    from Suc.IH [of ?rt2 False] rest Recurse obtain es where
      "rx_fine_run oneonly \<lparr>rf_rt = ?rt2, rf_reader = RCall False, rf_writer = w\<rparr> es []
        \<lparr>rf_rt = rt\<lparr>rt_m := m', rt_eg := eg'\<rparr>, rf_reader = RTop, rf_writer = w\<rparr>" "arrivals es = []" by auto
    with rx_fine_run_append [OF st2 this(1)] show ?thesis
      by (intro exI [of _ "([XRead ?t] @ [XRead ?t]) @ es"]) simp
  qed
qed simp

lemma data_run:
  assumes "read_tfs_data seq rt = Inr rt'" "reader_data seq rt = (rt1, ph)"
  shows "\<exists>es. rx_fine_run oneonly \<lparr>rf_rt = rt1, rf_reader = ph, rf_writer = w\<rparr> es []
    \<lparr>rf_rt = rt', rf_reader = RTop, rf_writer = w\<rparr> \<and> arrivals es = []"
proof -
  let ?ack = "if ack_start (rt_ack rt) = 0 then (rt_ack rt)\<lparr>ack_start := seq\<rparr> else rt_ack rt"
  let ?lost = "seq \<noteq> ack_last ?ack + 1 \<and> ack_last ?ack \<noteq> 0"
  let ?ack' = "if ?lost then ?ack\<lparr>ack_ndrop := ack_ndrop ?ack + (seq - (ack_last ?ack + 1))\<rparr> else ?ack"
  let ?rt1 = "rt\<lparr>rt_ack := ?ack'\<lparr>ack_last := seq\<rparr>\<rparr>"
  show ?thesis
  proof (cases "seq \<le> ack_last ?ack")
    case True
    then have "rt' = rt1" "ph = RTop" using assms by (auto simp: read_tfs_data_def reader_data_def Let_def)
    then show ?thesis by (intro exI [of _ "[]"]) (simp add: x_done)
  next
    case False
    then have rt1: "rt1 = ?rt1" and ph: "ph = (case rt_m rt of
        Some v \<Rightarrow> if ?lost then RReset (miov_refs (eg_miov (rt_eg rt) v)) else RCall True | None \<Rightarrow> RCall True)"
      using assms(2) by (auto simp: reader_data_def Let_def)
    from assms(1) False obtain eg1 m' eg2 where
      1: "(case rt_m rt of Some v \<Rightarrow> if ?lost then bindE (miov_reset (eg_mem (rt_eg rt)) v) (\<lambda>s. Inr ((rt_eg rt)\<lparr>eg_mem := s\<rparr>))
          else Inr (rt_eg rt) | None \<Rightarrow> Inr (rt_eg rt)) = Inr eg1"
      and 2: "add_to_inner_packet (rt_tbuf rt) True (rt_m rt) eg1 = Inr (m', eg2)"
      and 3: "rt' = ?rt1\<lparr>rt_m := m', rt_eg := eg2\<rparr>"
      unfolding read_tfs_data_def Let_def by (auto simp: bindE_eq_Inr)
    have "\<exists>es. rx_fine_run oneonly \<lparr>rf_rt = ?rt1, rf_reader = ph, rf_writer = w\<rparr> es []
        \<lparr>rf_rt = ?rt1\<lparr>rt_eg := eg1\<rparr>, rf_reader = RCall True, rf_writer = w\<rparr> \<and> arrivals es = []"
    proof (cases "rt_m rt \<noteq> None \<and> ?lost")
      case True
      then obtain v where v: "rt_m rt = Some v" by auto
      with True 1 obtain s where s: "miov_reset (eg_mem (rt_eg rt)) v = Inr s" "eg1 = (rt_eg rt)\<lparr>eg_mem := s\<rparr>"
        by (auto simp: bindE_eq_Inr)
      show ?thesis using reset_run [of ?rt1 v s oneonly w] s v True ph by simp
    next
      case no: False
      have "eg1 = rt_eg rt \<and> ph = RCall True"
      proof (cases "rt_m rt")
        case (Some v)
        with no have "\<not> ?lost" by blast
        show ?thesis using 1 ph unfolding Some option.case if_not_P [OF \<open>\<not> ?lost\<close>] by simp
      qed (use 1 ph in simp)
      then show ?thesis by (intro exI [of _ "[]"]) (simp add: x_done)
    qed
    then obtain es where es: "rx_fine_run oneonly \<lparr>rf_rt = ?rt1, rf_reader = ph, rf_writer = w\<rparr> es []
        \<lparr>rf_rt = ?rt1\<lparr>rt_eg := eg1\<rparr>, rf_reader = RCall True, rf_writer = w\<rparr>" "arrivals es = []" by blast
    from call_run [of _ "?rt1\<lparr>rt_eg := eg1\<rparr>" True m' eg2 oneonly w] 2 obtain es' where
      "rx_fine_run oneonly \<lparr>rf_rt = ?rt1\<lparr>rt_eg := eg1\<rparr>, rf_reader = RCall True, rf_writer = w\<rparr> es' []
        \<lparr>rf_rt = rt', rf_reader = RTop, rf_writer = w\<rparr>" "arrivals es' = []"
      unfolding 3 by (fastforce simp: add_to_inner_packet_def simp del: atip.simps)
    with rx_fine_run_append [OF es(1) this(1)] es(2) rt1 show ?thesis
      by (intro exI [of _ "es @ es'"]) simp
  qed
qed

lemma dispatch_run:
  assumes "read_tfs_dispatch oneonly n rt = Inr rt'"
  shows "\<exists>rt1 ph es. reader_dispatch oneonly n rt = Inr (rt1, ph) \<and>
    rx_fine_run oneonly \<lparr>rf_rt = rt1, rf_reader = ph, rf_writer = w\<rparr> es []
      \<lparr>rf_rt = rt', rf_reader = RTop, rf_writer = w\<rparr> \<and> arrivals es = []"
proof -
  let ?b = "(eg_mbuf (rt_eg rt) (rt_tbuf rt))\<lparr>mb_end := mb_start (eg_mbuf (rt_eg rt) (rt_tbuf rt)) + n\<rparr>"
  let ?rt1 = "rt\<lparr>rt_eg := eg_put (rt_tbuf rt) ?b (rt_eg rt)\<rparr>" and ?off = "get32 (mb_space ?b) (mb_start ?b + 4)"
  let ?seq = "get32 (mb_space ?b) (mb_start ?b)"
  have stay: "rx_fine_run oneonly \<lparr>rf_rt = rt', rf_reader = RTop, rf_writer = w\<rparr> [] []
      \<lparr>rf_rt = rt', rf_reader = RTop, rf_writer = w\<rparr>" by (rule x_done)
  consider (ack) "?off AND 0xC0000000 = 0x40000000" | (bad) "?off AND 0xC0000000 \<noteq> 0x40000000" "?off AND 0x80000000 \<noteq> 0"
    | (data) "?off AND 0xC0000000 \<noteq> 0x40000000" "\<not> ?off AND 0x80000000 \<noteq> 0" by blast
  then show ?thesis
  proof cases
    case ack
    then have "reader_dispatch oneonly n rt = Inr (rt', RTop)"
      using assms by (auto simp: read_tfs_dispatch_def reader_dispatch_def Let_def res_simps)
    with stay show ?thesis by fastforce
  next
    case bad
    then have "reader_dispatch oneonly n rt = Inr (rt', RTop)"
      using assms by (auto simp: read_tfs_dispatch_def reader_dispatch_def Let_def res_simps)
    with stay show ?thesis by fastforce
  next
    case data
    then have d: "read_tfs_data ?seq ?rt1 = Inr rt'" "reader_dispatch oneonly n rt = Inr (reader_data ?seq ?rt1)"
      using assms by (auto simp: read_tfs_dispatch_def reader_dispatch_def Let_def res_simps)
    obtain rt2 ph where "reader_data ?seq ?rt1 = (rt2, ph)" by fastforce
    with data_run [OF d(1) this] d(2) show ?thesis by auto
  qed
qed

lemma top_run:
  assumes "read_tfs_report oneonly now rt = Inr (pkt, rt1)" "tbuf_turn (rt_tbuf rt1) (rt_eg rt1) = Inr (a, eg)"
  shows "\<exists>es. rx_fine_run oneonly \<lparr>rf_rt = rt, rf_reader = RTop, rf_writer = w\<rparr> es []
    \<lparr>rf_rt = rt1\<lparr>rt_tbuf := a, rt_eg := eg\<rparr>, rf_reader = RRecv, rf_writer = w\<rparr> \<and> arrivals es = []"
proof (cases "mb_refcnt (eg_mbuf (rt_eg rt1) (rt_tbuf rt1)) = 1")
  case True
  have "reader_step oneonly now rt RTop = Inr (pkt, rt1\<lparr>rt_tbuf := a, rt_eg := eg\<rparr>, RRecv)"
    using assms True by (auto simp: reader_step_def reader_top_def tbuf_turn_def Let_def res_simps eg_mbuf_def eg_put_def)
  from read_one [OF this] show ?thesis by (intro exI [of _ "[XRead now]"]) simp
next
  case False
  let ?b = "eg_mbuf (rt_eg rt1) (rt_tbuf rt1)"
  let ?eg = "eg_put (rt_tbuf rt1) (?b\<lparr>mb_refcnt := mb_refcnt ?b - 1\<rparr>) (rt_eg rt1)"
  have 1: "reader_step oneonly now rt RTop = Inr (pkt, rt1\<lparr>rt_eg := ?eg\<rparr>, RPop)"
    using assms(1) False by (simp add: reader_step_def reader_top_def Let_def)
  have 2: "reader_step oneonly now (rt1\<lparr>rt_eg := ?eg\<rparr>) RPop = Inr (None, rt1\<lparr>rt_tbuf := a, rt_eg := eg\<rparr>, RRecv)"
    using assms(2) False by (auto simp: reader_step_def reader_pop_def tbuf_turn_def Let_def res_simps split: prod.splits)
  from rx_fine_run_append [OF read_one [OF 1] read_one [OF 2]] show ?thesis
    by (intro exI [of _ "[XRead now, XRead now]"]) simp
qed

lemma read_turn_run:
  assumes "read_tfs_step oneonly now1 r now2 rt = Inr (pkt, rt')"
  shows "\<exists>es. rx_fine_run oneonly \<lparr>rf_rt = rt, rf_reader = RTop, rf_writer = w\<rparr> es []
    \<lparr>rf_rt = rt', rf_reader = RTop, rf_writer = w\<rparr> \<and> arrivals es = [r]"
proof -
  from assms obtain rt1 a eg where rep: "read_tfs_report oneonly now1 rt = Inr (pkt, rt1)"
    and turn: "tbuf_turn (rt_tbuf rt1) (rt_eg rt1) = Inr (a, eg)"
    by (cases r) (auto simp: read_tfs_step_def res_simps Let_def case_prod_unfold)
  let ?rt2 = "rt1\<lparr>rt_tbuf := a, rt_eg := eg\<rparr>"
  from top_run [OF rep turn] obtain es where
    1: "rx_fine_run oneonly \<lparr>rf_rt = rt, rf_reader = RTop, rf_writer = w\<rparr> es []
      \<lparr>rf_rt = ?rt2, rf_reader = RRecv, rf_writer = w\<rparr>" "arrivals es = []" by blast
  have "\<exists>rt3 ph es'. reader_recv oneonly r now2 ?rt2 = Inr (rt3, ph) \<and>
    rx_fine_run oneonly \<lparr>rf_rt = rt3, rf_reader = ph, rf_writer = w\<rparr> es' []
      \<lparr>rf_rt = rt', rf_reader = RTop, rf_writer = w\<rparr> \<and> arrivals es' = []"
  proof (cases r)
    case RecvErr
    then have "reader_recv oneonly r now2 ?rt2 = Inr (rt', RTop)"
      using assms rep turn by (simp add: read_tfs_step_def reader_recv_def)
    with x_done show ?thesis by fastforce
  next
    case (Recv d)
    obtain n eg' where recv: "tbuf_recv a d eg = (n, eg')" by fastforce
    from assms rep turn recv Recv obtain ok rt4 where
      adm: "read_tfs_admit n now2 (?rt2\<lparr>rt_eg := eg'\<rparr>) = Inr (ok, rt4)"
      and dis: "(if ok then read_tfs_dispatch oneonly n rt4 else Inr rt4) = Inr rt'"
      by (auto simp: read_tfs_step_def res_simps)
    show ?thesis
    proof (cases ok)
      case True
      with dis have "read_tfs_dispatch oneonly n rt4 = Inr rt'" by simp
      from dispatch_run [OF this] adm True recv Recv show ?thesis by (simp add: reader_recv_def)
    next
      case False
      then have "reader_recv oneonly r now2 ?rt2 = Inr (rt', RTop)" using adm dis recv Recv by (simp add: reader_recv_def)
      with x_done show ?thesis by fastforce
    qed
  qed
  then obtain rt3 ph es' where 2: "reader_recv oneonly r now2 ?rt2 = Inr (rt3, ph)"
    and 3: "rx_fine_run oneonly \<lparr>rf_rt = rt3, rf_reader = ph, rf_writer = w\<rparr> es' []
      \<lparr>rf_rt = rt', rf_reader = RTop, rf_writer = w\<rparr>" "arrivals es' = []" by blast
  have "rx_step oneonly \<lparr>rf_rt = ?rt2, rf_reader = RRecv, rf_writer = w\<rparr> (XRecv r now2) []
      \<lparr>rf_rt = rt3, rf_reader = ph, rf_writer = w\<rparr>"
    using x_recv [of "\<lparr>rf_rt = ?rt2, rf_reader = RRecv, rf_writer = w\<rparr>"] 2 by fastforce
  from rx_fine_run_append [OF rx_fine_run_append [OF 1(1) rx_one [OF this]] 3(1)] 1(2) 3(2) show ?thesis
    by (intro exI [of _ "(es @ [XRecv r now2]) @ es'"]) simp
qed

lemma write_turn_run:
  assumes "write_intf_step (rt_eg rt) = Inr (data, eg')"
  shows "\<exists>es. rx_fine_run oneonly \<lparr>rf_rt = rt, rf_reader = rd, rf_writer = DIdle\<rparr> es [data]
    \<lparr>rf_rt = rt\<lparr>rt_eg := eg'\<rparr>, rf_reader = rd, rf_writer = DIdle\<rparr> \<and> arrivals es = []"
proof -
  let ?eg = "rt_eg rt" and ?fq = "vq_freeq (eg_iovfreeq (rt_eg rt))"
  from assms obtain v q where pop: "miovq_pop (eg_outq ?eg) = Inr (v, q)"
    by (auto simp: write_intf_step_def res_simps)
  let ?mi = "eg_miov ?eg v"
  from assms pop obtain s fq d where data: "data = iov_gather (eg_mem ?eg) (take (mi_niov ?mi) (mi_iov ?mi))"
    and res: "(if ?fq then miov_reset (eg_mem ?eg) v else Inr (eg_mem ?eg)) = Inr s"
    and put: "miovq_put (eg_iovfreeq ?eg) v = Inr (d, fq)"
    and eg': "eg' = ?eg\<lparr>eg_mem := s, eg_iovfreeq := fq, eg_outq := q\<rparr>"
    by (auto simp: write_intf_step_def miovq_push_def res_simps Let_def eg_miov_def)
  let ?rt1 = "rt\<lparr>rt_eg := ?eg\<lparr>eg_outq := q\<rparr>\<rparr>" and ?as = "if ?fq then miov_refs ?mi else []"
  have "drain_step ?eg DIdle = Inr (None, ?eg\<lparr>eg_outq := q\<rparr>, DHold v)" using pop by (simp add: drain_step_def)
  note 1 = write_one_rx [OF this, of oneonly rd]
  have "drain_step (rt_eg ?rt1) (DHold v) = Inr (Some data, ?eg\<lparr>eg_outq := q\<rparr>, DDrop v ?as)"
    by (simp add: drain_step_def data Let_def eg_miov_def)
  from write_one_rx [OF this, of oneonly rd]
  have 2: "rx_fine_run oneonly \<lparr>rf_rt = ?rt1, rf_reader = rd, rf_writer = DHold v\<rparr> [XWrite] [data]
      \<lparr>rf_rt = ?rt1, rf_reader = rd, rf_writer = DDrop v ?as\<rparr>" by simp
  obtain s1 where s1: "mbuf_derefs (eg_mem (rt_eg ?rt1)) ?as = Inr s1"
    and s: "s = (if ?fq then s1\<lparr>m_miovs := (m_miovs s1)(v := (m_miovs s1 v)\<lparr>mi_niov := 0, mi_len := 0, mi_left := 0\<rparr>)\<rparr> else s1)"
    using res by (auto simp: miov_reset_def eg_miov_def res_simps split: if_splits)
  from derefs_write_run [OF s1] obtain es where
    3: "rx_fine_run oneonly \<lparr>rf_rt = ?rt1, rf_reader = rd, rf_writer = DDrop v ?as\<rparr> es []
      \<lparr>rf_rt = ?rt1\<lparr>rt_eg := (rt_eg ?rt1)\<lparr>eg_mem := s1\<rparr>\<rparr>, rf_reader = rd, rf_writer = DDrop v []\<rparr>" "arrivals es = []" by blast
  have "drain_step (rt_eg (?rt1\<lparr>rt_eg := (rt_eg ?rt1)\<lparr>eg_mem := s1\<rparr>\<rparr>)) (DDrop v []) = Inr (None, eg', DIdle)"
    using put by (simp add: drain_step_def eg' s eg_clear_def eg_miov_def)
  note 4 = write_one_rx [OF this, of oneonly rd]
  from rx_fine_run_append [OF rx_fine_run_append [OF rx_fine_run_append [OF 1 2] 3(1)] 4] 3(2)
  show ?thesis by (intro exI [of _ "(([XWrite] @ [XWrite]) @ es) @ [XWrite]"]) simp
qed

lemma egress_run_fine:
  assumes "egress_run oneonly rt es ws rt'"
  shows "\<exists>fs. rx_fine_run oneonly \<lparr>rf_rt = rt, rf_reader = RTop, rf_writer = DIdle\<rparr> fs ws
      \<lparr>rf_rt = rt', rf_reader = RTop, rf_writer = DIdle\<rparr> \<and>
    arrivals fs = concat (map (\<lambda>e. case e of Turn t1 r t2 \<Rightarrow> [r] | WriteIntf \<Rightarrow> []) es)"
  using assms
proof (induction rule: egress_run.induct)
  case (done_run rt)
  show ?case by (intro exI [of _ "[]"]) (simp add: x_done)
next
  case (step_run rt e ws rt1 es vs rt2)
  from step_run.IH obtain fs where f: "rx_fine_run oneonly \<lparr>rf_rt = rt1, rf_reader = RTop, rf_writer = DIdle\<rparr> fs vs
      \<lparr>rf_rt = rt2, rf_reader = RTop, rf_writer = DIdle\<rparr>"
    "arrivals fs = concat (map (\<lambda>e. case e of Turn t1 r t2 \<Rightarrow> [r] | WriteIntf \<Rightarrow> []) es)" by blast
  have "\<exists>es1. rx_fine_run oneonly \<lparr>rf_rt = rt, rf_reader = RTop, rf_writer = DIdle\<rparr> es1 ws
      \<lparr>rf_rt = rt1, rf_reader = RTop, rf_writer = DIdle\<rparr> \<and> arrivals es1 = (case e of Turn t1 r t2 \<Rightarrow> [r] | WriteIntf \<Rightarrow> [])"
    using step_run.hyps(1)
  proof cases
    case (turn t1 r t2 pkt)
    then show ?thesis using read_turn_run [OF turn(3), of DIdle] by simp
  next
    case (wrt data eg')
    then show ?thesis using write_turn_run [OF wrt(4), of oneonly RTop] by simp
  qed
  then obtain es1 where 1: "rx_fine_run oneonly \<lparr>rf_rt = rt, rf_reader = RTop, rf_writer = DIdle\<rparr> es1 ws
      \<lparr>rf_rt = rt1, rf_reader = RTop, rf_writer = DIdle\<rparr>" "arrivals es1 = (case e of Turn t1 r t2 \<Rightarrow> [r] | WriteIntf \<Rightarrow> [])" by blast
  from rx_fine_run_append [OF 1(1) f(1)] 1(2) f(2) show ?case by (intro exI [of _ "es1 @ fs"]) simp
qed

end
