(* ===== verification/RxInv.thy ===== *)
theory RxInv
  imports RxInterleave "HOL-Library.Sublist"
begin

text \<open>
  The invariant of the interleaved receiving side: a buffer's count is the number of its holders at every
  step, also while a thread gives back the references of a scatter list one by one; and its preservation by the
  parts that the steps are made of.
\<close>

section \<open>References that are still there\<close>

text \<open>
  \<open>T\<close> maps the scatter lists whose references are being given back to the references that are left. The
  list itself is not changed until all are gone.
\<close>

definition live :: "egress \<Rightarrow> (nat \<rightharpoonup> nat list) \<Rightarrow> nat \<Rightarrow> nat list" where
  "live st T v = (case T v of None \<Rightarrow> miov_refs (eg_miov st v) | Some as \<Rightarrow> as)"

definition lrefs :: "nat \<Rightarrow> egress \<Rightarrow> (nat \<rightharpoonup> nat list) \<Rightarrow> nat \<Rightarrow> nat" where
  "lrefs nv st T a = (\<Sum>v<nv. count_list (live st T v) a)"

text \<open>\<open>own\<close> is the buffer that the reader itself has a reference to.\<close>

definition holders_x :: "nat \<Rightarrow> nat option \<Rightarrow> egress \<Rightarrow> (nat \<rightharpoonup> nat list) \<Rightarrow> nat \<Rightarrow> nat" where
  "holders_x nv own st T a = (if own = Some a then 1 else 0) + lrefs nv st T a"

text \<open>\<open>m\<close> is the list the reader holds, \<open>w\<close> the one the writer holds.\<close>

definition xinv :: "nat \<Rightarrow> nat \<Rightarrow> nat option \<Rightarrow> egress \<Rightarrow> nat option \<Rightarrow> nat option \<Rightarrow> (nat \<rightharpoonup> nat list) \<Rightarrow> bool" where
  "xinv nv nb own st m w T \<longleftrightarrow>
     eg_inv nv st m \<and> held_clean st m \<and> (\<forall>tb. own = Some tb \<longrightarrow> mbuf_wf (eg_mbuf st tb)) \<and>
     pool_ok nb (holders_x nv own st T) (eg_mem st) \<and> capacity nv st < 2 ^ 32 - 1 \<and>
     vq_freeq (eg_iovfreeq st) \<and> nv \<le> vq_size (eg_iovfreeq st) \<and> mq_hdrspace (m_freeq (eg_mem st)) = HDRSPACE \<and>
     sized nb st \<and>
     (\<forall>v. w = Some v \<longrightarrow> v < nv \<and> v \<notin> set (held m @ free_list st @ out_list st)) \<and>
     (\<forall>v as. T v = Some as \<longrightarrow> v \<in> set (held m @ held w) \<and> suffix as (miov_refs (eg_miov st v)))"

lemma xinvD:
  assumes "xinv nv nb own st m w T"
  shows "eg_inv nv st m" "held_clean st m" "own = Some tb \<Longrightarrow> mbuf_wf (eg_mbuf st tb)"
    "pool_ok nb (holders_x nv own st T) (eg_mem st)" "capacity nv st < 2 ^ 32 - 1" "vq_freeq (eg_iovfreeq st)"
    "nv \<le> vq_size (eg_iovfreeq st)" "mq_hdrspace (m_freeq (eg_mem st)) = HDRSPACE" "sized nb st"
    "w = Some v \<Longrightarrow> v < nv \<and> v \<notin> set (held m @ free_list st @ out_list st)"
    "T v = Some as \<Longrightarrow> v \<in> set (held m @ held w)" "T v = Some as \<Longrightarrow> suffix as (miov_refs (eg_miov st v))"
  using assms unfolding xinv_def by blast+

lemma live_simps [simp]:
  "T v = None \<Longrightarrow> live st T v = miov_refs (eg_miov st v)" "T v = Some as \<Longrightarrow> live st T v = as"
  by (simp_all add: live_def)

lemma lrefs_none [simp]: "lrefs nv st (\<lambda>_. None) = refs nv st"
  by (simp add: lrefs_def refs_def live_def fun_eq_iff)

lemma xinv_start: "sys_inv nv nb st tb m \<Longrightarrow> sized nb st \<Longrightarrow> xinv nv nb (Some tb) st m None (\<lambda>_. None)"
proof -
  have "holders_x nv (Some tb) st (\<lambda>_. None) = holders nv tb st"
    by (auto simp: holders_x_def holders_def fun_eq_iff)
  then show "sys_inv nv nb st tb m \<Longrightarrow> sized nb st \<Longrightarrow> ?thesis" by (simp add: xinv_def sys_inv_frame)
qed

lemma lrefs_pos: "v < nv \<Longrightarrow> a \<in> set (live st T v) \<Longrightarrow> 0 < lrefs nv st T a"
  unfolding lrefs_def by (rule sum_pos2 [of _ v]) (auto simp: count_list_0_iff intro!: gr0I)

lemma lrefs_cong: "(\<And>v. v < nv \<Longrightarrow> live st' T' v = live st T v) \<Longrightarrow> lrefs nv st' T' = lrefs nv st T"
  by (simp add: lrefs_def fun_eq_iff)

text \<open>One list's references changed.\<close>

lemma lrefs_upd:
  assumes "v < nv" "\<And>u. u < nv \<Longrightarrow> u \<noteq> v \<Longrightarrow> live st' T' u = live st T u"
  shows "lrefs nv st' T' a + count_list (live st T v) a = lrefs nv st T a + count_list (live st' T' v) a"
proof -
  let ?c = "\<lambda>u. count_list (live st T u) a" and ?x = "count_list (live st' T' v) a"
  have "lrefs nv st' T' a = (\<Sum>u<nv. (?c(v := ?x)) u)" unfolding lrefs_def by (rule sum.cong) (auto simp: assms(2))
  with sum_fun_upd [of "{..<nv}" v ?c ?x] assms(1) show ?thesis by (simp add: lrefs_def)
qed

section \<open>States with the same lists\<close>

lemma length_seg_bytes:
  "(\<And>a. length (mb_space (eg_mbuf st' a)) = length (mb_space (eg_mbuf st a))) \<Longrightarrow>
   length (seg_bytes st' iv) = length (seg_bytes st iv)"
  by (simp add: seg_bytes_def subseg_def split: ptr.split)

lemma miov_wf_lengths:
  assumes "\<And>a. length (mb_space (eg_mbuf st' a)) = length (mb_space (eg_mbuf st a))"
  shows "miov_wf st' mi = miov_wf st mi"
proof -
  note l = length_seg_bytes [OF assms]
  have "length (miov_bytes st' mi) = length (miov_bytes st mi)"
    by (simp add: miov_bytes_def length_concat comp_def l cong: map_cong)
  moreover have "seg_bytes st' iv = [] \<longleftrightarrow> seg_bytes st iv = []" for iv using l [of iv] by (metis length_0_conv)
  ultimately show ?thesis by (simp add: miov_wf_def)
qed

lemma same_wf:
  assumes inv: "eg_inv nv st m" and q: "eg_iovfreeq st' = eg_iovfreeq st" "eg_outq st' = eg_outq st"
    and mi: "eg_miov st' = eg_miov st"
    and len: "\<And>a. length (mb_space (eg_mbuf st' a)) = length (mb_space (eg_mbuf st a))"
  shows "eg_inv nv st' m" "held_clean st' m = held_clean st m" "free_list st' = free_list st"
    "out_list st' = out_list st" "capacity nv st' = capacity nv st" "live st' T = live st T"
    "lrefs nv st' T = lrefs nv st T" "holders_x nv own st' T = holders_x nv own st T"
proof -
  show l: "free_list st' = free_list st" "out_list st' = out_list st"
    using q by (simp_all add: free_list_def out_list_def)
  show "eg_inv nv st' m" using inv unfolding eg_inv_def mi l q miov_wf_lengths [OF len] .
  show "held_clean st' m = held_clean st m" by (simp add: held_clean_def mi)
  show "capacity nv st' = capacity nv st" by (simp add: capacity_def mi)
  show li: "live st' T = live st T" unfolding live_def [abs_def] mi by (rule refl)
  then show lr: "lrefs nv st' T = lrefs nv st T" by (simp add: lrefs_def fun_eq_iff)
  then show "holders_x nv own st' T = holders_x nv own st T" by (simp add: holders_x_def fun_eq_iff)
qed

lemma bytes_local:
  assumes "miov_wf st (eg_miov st v)" "v < nv" "T v = None"
    and "\<And>a. 0 < lrefs nv st T a \<Longrightarrow> mb_space (eg_mbuf st' a) = mb_space (eg_mbuf st a)"
  shows "miov_bytes st' (eg_miov st v) = miov_bytes st (eg_miov st v)"
proof (rule miov_local(1) [OF assms(1)])
  fix a assume "a \<in> set (miov_refs (eg_miov st v))"
  then have "a \<in> set (live st T v)" using assms(3) by simp
  from assms(4) [OF lrefs_pos [OF assms(2) this]] show "mb_space (eg_mbuf st' a) = mb_space (eg_mbuf st a)" .
qed

text \<open>What the lists outside \<open>T\<close> hold, when no buffer they refer to is written.\<close>

lemma same_bytes:
  assumes inv: "eg_inv nv st m" and q: "eg_outq st' = eg_outq st" and mi: "eg_miov st' = eg_miov st"
    and T: "\<forall>v \<in> set (held m @ out_list st). T v = None"
    and sp: "\<And>a. 0 < lrefs nv st T a \<Longrightarrow> mb_space (eg_mbuf st' a) = mb_space (eg_mbuf st a)"
  shows "out_bytes st' = out_bytes st" "rx_of st' m = rx_of st m"
proof -
  have loc: "miov_bytes st' (eg_miov st v) = miov_bytes st (eg_miov st v)" if "v \<in> set (held m @ out_list st)" for v
  proof (rule bytes_local [where nv = nv and T = T])
    show "v < nv" using inv that by (auto simp: eg_inv_def)
    then show "miov_wf st (eg_miov st v)" using inv by (simp add: eg_inv_def)
    show "T v = None" using T that by blast
  qed (rule sp)
  have o: "out_list st' = out_list st" using q by (simp add: out_list_def)
  show "out_bytes st' = out_bytes st" using loc by (simp add: out_bytes_def o mi)
  show "rx_of st' m = rx_of st m" using loc by (cases m) (auto simp: rx_of_def mi Let_def)
qed

section \<open>The pool after one buffer changed\<close>

lemma pool_put:
  assumes pool: "pool_ok nb f (eg_mem st)" and a: "0 < f a" "0 < n" "n < 2 ^ 32"
    and b: "mb_refcnt b = word_of_nat n" "length (mb_space b) = length (mb_space (eg_mbuf st a))"
  shows "pool_ok nb (f(a := n)) (eg_mem (eg_put a b st))"
proof -
  have s: "{x. x < nb \<and> (f(a := n)) x = 0} = {x. x < nb \<and> f x = 0}" using a by auto
  show ?thesis using pool a b unfolding pool_ok_mbufs s by (auto split: if_splits)
qed

lemma xinv_put:
  assumes inv: "xinv nv nb (Some tb) st m w T" and r: "lrefs nv st T tb = 0"
    and b: "mb_refcnt b = 1" "mbuf_wf b" "length (mb_space b) = length (mb_space (eg_mbuf st tb))"
    and T: "\<forall>v \<in> set (held m). T v = None"
  shows "xinv nv nb (Some tb) (eg_put tb b st) m w T" "out_bytes (eg_put tb b st) = out_bytes st"
    "rx_of (eg_put tb b st) m = rx_of st m" "lrefs nv (eg_put tb b st) T = lrefs nv st T"
    "free_list (eg_put tb b st) = free_list st"
    "w = Some v \<Longrightarrow> T v = None \<Longrightarrow> miov_bytes (eg_put tb b st) (eg_miov st v) = miov_bytes st (eg_miov st v)"
proof -
  let ?s = "eg_put tb b st" and ?f = "holders_x nv (Some tb) st T"
  have eg: "eg_inv nv st m" and pool: "pool_ok nb ?f (eg_mem st)" using inv by (auto simp: xinv_def)
  have len: "length (mb_space (eg_mbuf ?s a)) = length (mb_space (eg_mbuf st a))" for a using b(3) by simp
  note sw = same_wf [OF eg _ _ _ len, simplified]
  have f: "?f tb = 1" using r by (simp add: holders_x_def)
  then have "?f(tb := 1) = ?f" by (auto simp: fun_eq_iff)
  then have p: "pool_ok nb ?f (eg_mem ?s)" using pool_put [OF pool, of tb 1 b] f b by simp
  have "sized nb ?s" using xinvD(9) [OF inv] b(3) by (simp add: sized_def)
  then show "xinv nv nb (Some tb) ?s m w T"
    using inv p sw b(2) unfolding xinv_def by simp
  have sp: "mb_space (eg_mbuf ?s a) = mb_space (eg_mbuf st a)" if "0 < lrefs nv st T a" for a using that r by auto
  have Tm: "\<forall>v \<in> set (held m @ out_list st). T v = None"
  proof
    fix v assume v: "v \<in> set (held m @ out_list st)"
    show "T v = None"
    proof (cases "T v")
      case (Some as)
      from xinvD(11) [OF inv this] v T have "v \<in> set (held w)" "v \<in> set (out_list st)" using Some by auto
      then show ?thesis using xinvD(10) [OF inv, of v] by (cases w) auto
    qed
  qed
  show "out_bytes ?s = out_bytes st" "rx_of ?s m = rx_of st m"
    by (rule same_bytes [OF eg _ _ Tm sp]; simp)+
  show "lrefs nv ?s T = lrefs nv st T" "free_list ?s = free_list st" using sw by simp_all
  show "miov_bytes ?s (eg_miov st v) = miov_bytes st (eg_miov st v)" if "w = Some v" "T v = None"
  proof (rule bytes_local [where nv = nv and T = T])
    show "v < nv" using xinvD(10) [OF inv that(1)] by simp
    then show "miov_wf st (eg_miov st v)" using eg by (simp add: eg_inv_def)
  qed (use that(2) sp in blast)+
qed

section \<open>Giving back the references of a list\<close>

lemma xinv_holds:
  assumes "xinv nv nb own st m w T" "v \<in> set (held m @ held w)"
  shows "v < nv" "v \<notin> set (free_list st)" "v \<notin> set (out_list st)"
  using xinvD(1) [OF assms(1)] xinvD(10) [OF assms(1), of v] assms(2)
  by (auto simp: eg_inv_def held_def split: option.splits)

lemma xinv_tear:
  assumes "xinv nv nb own st m w T" "T v = None" "v \<in> set (held m @ held w)"
  shows "xinv nv nb own st m w (T(v \<mapsto> miov_refs (eg_miov st v)))"
proof -
  have "live st (T(v \<mapsto> miov_refs (eg_miov st v))) u = live st T u" for u
    using assms(2) by (simp add: live_def)
  then have "holders_x nv own st (T(v \<mapsto> miov_refs (eg_miov st v))) = holders_x nv own st T"
    by (simp add: holders_x_def lrefs_def fun_eq_iff)
  then show ?thesis using assms unfolding xinv_def by auto
qed

lemma xinv_deref:
  assumes inv: "xinv nv nb own st m w (T(v \<mapsto> a # as))"
  shows "\<exists>st'. eg_deref a st = Inr st' \<and> xinv nv nb own st' m w (T(v \<mapsto> as)) \<and> same_spaces st st' \<and>
    eg_miov st' = eg_miov st \<and> eg_iovfreeq st' = eg_iovfreeq st \<and> eg_outq st' = eg_outq st \<and>
    (\<forall>tb. own = Some tb \<longrightarrow> mb_start (eg_mbuf st' tb) = mb_start (eg_mbuf st tb) \<and>
       mb_end (eg_mbuf st' tb) = mb_end (eg_mbuf st tb)) \<and> (\<forall>x. lrefs nv st' (T(v \<mapsto> as)) x \<le> lrefs nv st (T(v \<mapsto> a # as)) x)"
proof -
  let ?T = "T(v \<mapsto> a # as)" and ?T' = "T(v \<mapsto> as)"
  let ?f = "holders_x nv own st ?T" and ?f' = "(holders_x nv own st ?T)(a := holders_x nv own st ?T a - 1)"
  have v: "v < nv" using xinv_holds(1) [OF inv] xinvD(11) [OF inv, of v] by auto
  have "0 < ?f a" using lrefs_pos [OF v, of a st ?T] by (simp add: holders_x_def)
  from mbuf_deref_pool [OF xinvD(4) [OF inv] this] obtain s where
    s: "mbuf_deref (eg_mem st) a = Inr s" "pool_ok nb ?f' s" "deref_frame ?f' (eg_mem st) s" by blast
  let ?st = "st\<lparr>eg_mem := s\<rparr>"
  have mi: "eg_miov ?st = eg_miov st" using s(3) by (simp add: eg_miov_def deref_frame_def fun_eq_iff)
  have same: "same_spaces st ?st" using s(3) by (simp add: same_spaces_def deref_frame_def eg_mbuf_def)
  then have len: "length (mb_space (eg_mbuf ?st x)) = length (mb_space (eg_mbuf st x))" for x by (simp add: same_spaces_def)
  note sw = same_wf [OF xinvD(1) [OF inv] _ _ mi len, simplified]
  have lr: "lrefs nv st ?T' x + count_list (a # as) x = lrefs nv st ?T x + count_list as x" for x
    using lrefs_upd [OF v, of st ?T' st ?T x] by (simp add: live_def)
  have le: "lrefs nv ?st ?T' x \<le> lrefs nv st ?T x" for x
    using lr [of x] unfolding sw(7) by (auto split: if_splits)
  have h: "holders_x nv own ?st ?T' = ?f'"
  proof
    fix x
    from lr [of x] have "holders_x nv own ?st ?T' x + (if x = a then 1 else 0) = ?f x"
      by (cases "x = a") (simp_all add: holders_x_def sw(7))
    then show "holders_x nv own ?st ?T' x = ?f' x" by (cases "x = a") simp_all
  qed
  have own: "mb_start (eg_mbuf ?st tb) = mb_start (eg_mbuf st tb) \<and> mb_end (eg_mbuf ?st tb) = mb_end (eg_mbuf st tb)"
    if "own = Some tb" for tb
  proof -
    have "0 < ?f' tb" unfolding h [symmetric] using that by (simp add: holders_x_def)
    then show ?thesis using s(3) unfolding deref_frame_def eg_mbuf_def by simp
  qed
  have sp: "mb_space (eg_mbuf ?st x) = mb_space (eg_mbuf st x)" for x using same by (simp add: same_spaces_def)
  have "\<forall>tb. own = Some tb \<longrightarrow> mbuf_wf (eg_mbuf ?st tb)"
    using own xinvD(3) [OF inv] by (simp add: mbuf_wf_def sp)
  moreover have "\<forall>u bs. ?T' u = Some bs \<longrightarrow> u \<in> set (held m @ held w) \<and> suffix bs (miov_refs (eg_miov st u))"
  proof (intro allI impI)
    fix u bs assume "?T' u = Some bs"
    then show "u \<in> set (held m @ held w) \<and> suffix bs (miov_refs (eg_miov st u))"
      using xinvD(11,12) [OF inv, of u] by (cases "u = v") (auto dest: suffix_ConsD)
  qed
  ultimately have "xinv nv nb own ?st m w ?T'"
    using inv sw s(2,3) h sp unfolding xinv_def mi by (simp add: deref_frame_def sized_def)
  then show ?thesis using s(1) mi same own le by (intro exI [of _ ?st]) (simp add: eg_deref_def)
qed

lemma eg_clear_simps [simp]:
  "eg_miov (eg_clear v st) = (eg_miov st)(v := miov_cleared (eg_miov st v))" "eg_mbuf (eg_clear v st) = eg_mbuf st"
  "eg_iovfreeq (eg_clear v st) = eg_iovfreeq st" "eg_outq (eg_clear v st) = eg_outq st"
  "m_freeq (eg_mem (eg_clear v st)) = m_freeq (eg_mem st)" "rest (eg_clear v st) = rest st"
  "free_list (eg_clear v st) = free_list st" "out_list (eg_clear v st) = out_list st"
  by (simp_all add: eg_clear_def eg_miov_def eg_mbuf_def miov_cleared_def rest_def fun_eq_iff free_list_def out_list_def)

lemma same_spaces_clear: "same_spaces st (eg_clear v st)"
  by (simp add: same_spaces_def)

lemma xinv_clear:
  assumes inv: "xinv nv nb own st m w (T(v \<mapsto> []))" and T: "T v = None"
  shows "xinv nv nb own (eg_clear v st) m w T" "out_bytes (eg_clear v st) = out_bytes st"
    "rx_of (eg_clear v st) (Some v) = RxIdle" "m \<noteq> Some v \<Longrightarrow> rx_of (eg_clear v st) m = rx_of st m"
proof -
  let ?st = "eg_clear v st" and ?T = "T(v \<mapsto> [])"
  have "v \<in> set (held m @ held w)" using xinvD(11) [OF inv, of v] by simp
  note v = xinv_holds [OF inv this]
  have "live ?st T u = live st ?T u" for u
    using T by (simp add: live_def) (simp add: miov_refs_def split: option.split)
  then have h: "holders_x nv own ?st T = holders_x nv own st ?T" by (simp add: holders_x_def lrefs_def fun_eq_iff)
  have pool: "pool_ok nb (holders_x nv own ?st T) (eg_mem ?st)"
    using xinvD(4) [OF inv] unfolding h pool_ok_mbufs by simp
  have wf: "miov_wf ?st (eg_miov ?st u) \<and> 0 < length (mi_iov (eg_miov ?st u))" if "u < nv" for u
    using xinvD(1) [OF inv] that
    by (simp add: eg_inv_def miov_wf_same [OF same_spaces_clear] miov_wf_cleared)
  have eg: "eg_inv nv ?st m" using xinvD(1) [OF inv] v wf unfolding eg_inv_def by simp
  have "capacity nv ?st = capacity nv st" unfolding capacity_def by (rule sum.cong) auto
  moreover have "held_clean ?st m" using xinvD(2) [OF inv] by (simp add: held_clean_def)
  moreover have "\<forall>u as. T u = Some as \<longrightarrow> u \<in> set (held m @ held w) \<and> suffix as (miov_refs (eg_miov ?st u))"
  proof (intro allI impI)
    fix u as assume u: "T u = Some as"
    then have "u \<noteq> v" "?T u = Some as" using T by auto
    then show "u \<in> set (held m @ held w) \<and> suffix as (miov_refs (eg_miov ?st u))"
      using xinvD(11,12) [OF inv] by simp
  qed
  ultimately show "xinv nv nb own ?st m w T"
    using inv pool eg unfolding xinv_def by (simp add: sized_def)
  show "out_bytes ?st = out_bytes st"
    unfolding out_bytes_def using v(3) by (intro map_cong) (auto simp: miov_bytes_same [OF same_spaces_clear])
  show "rx_of ?st (Some v) = RxIdle" by (simp add: rx_of_simps)
  show "m \<noteq> Some v \<Longrightarrow> rx_of ?st m = rx_of st m"
    by (cases m) (simp_all add: rx_of_def miov_bytes_same [OF same_spaces_clear] Let_def)
qed

section \<open>The writer's queues\<close>

lemma xinv_drain_pop:
  assumes inv: "xinv nv nb own st m None T" and pop: "miovq_pop (eg_outq st) = Inr (v, q)"
  shows "xinv nv nb own (st\<lparr>eg_outq := q\<rparr>) m (Some v) T" "out_bytes st = out_bytes (st\<lparr>eg_outq := q\<rparr>) @ [miov_bytes st (eg_miov st v)]"
    "m \<noteq> Some v" "v < nv" "T v = None"
proof -
  let ?st = "st\<lparr>eg_outq := q\<rparr>"
  have eg: "eg_inv nv st m" using inv by (simp add: xinv_def)
  then have ok: "miovq_ok (eg_outq st)" by (simp add: eg_inv_def)
  have ne: "out_list st \<noteq> []"
  proof
    assume "out_list st = []"
    then have "vq_depth (eg_outq st) = 0" using ok by (auto simp: out_list_def miovq_abs_defs)
    then show False using pop by (simp add: miovq_pop_def)
  qed
  from miovq_pop_top [OF ok] ne pop have q: "v = last (out_list st)" "miovq_ok q" "miovq_contents q = butlast (out_list st)"
    "vq_size q = vq_size (eg_outq st)" "vq_freeq q = vq_freeq (eg_outq st)" by (auto simp: out_list_def)
  have ol: "out_list st = butlast (out_list st) @ [v]" using ne q(1) by simp
  have l: "free_list ?st = free_list st" "out_list ?st = butlast (out_list st)"
    using q(3) by (simp_all add: free_list_def out_list_def)
  have mi: "eg_miov ?st = eg_miov st" "eg_mbuf ?st = eg_mbuf st" by (simp_all add: eg_miov_def eg_mbuf_def fun_eq_iff)
  have same: "same_spaces st ?st" by (simp add: same_spaces_def mi)
  have d: "distinct (held m @ free_list st @ out_list st)" "set (held m @ free_list st @ out_list st) \<subseteq> {..<nv}"
    using eg by (auto simp: eg_inv_def)
  have v: "v < nv" "v \<notin> set (held m @ free_list st @ butlast (out_list st))"
    using d by (subst (asm) (1 2) ol; auto)+
  show "v < nv" by (fact v)
  show mv: "m \<noteq> Some v" using v(2) by auto
  show "T v = None"
  proof (cases "T v")
    case (Some as)
    from xinvD(11) [OF inv this] v(2) show ?thesis by auto
  qed
  show "out_bytes st = out_bytes ?st @ [miov_bytes st (eg_miov st v)]"
    by (subst out_bytes_def, subst ol) (simp add: out_bytes_def l mi miov_bytes_same [OF same])
  have "eg_inv nv ?st m"
    using eg q d v(2) unfolding eg_inv_def l mi miov_wf_same [OF same]
    by (auto simp: distinct_butlast dest: in_set_butlastD)
  moreover have h: "holders_x nv own ?st T = holders_x nv own st T" 
    unfolding holders_x_def [abs_def] lrefs_def live_def mi by (rule refl)
  moreover have "capacity nv ?st = capacity nv st" by (simp add: capacity_def mi)
  ultimately show "xinv nv nb own ?st m (Some v) T"
    using inv v unfolding xinv_def l mi held_clean_def sized_def by auto
qed

lemma xinv_drain_put:
  assumes inv: "xinv nv nb own st m (Some v) T" and T: "T v = None" and clean: "miov_clean (eg_miov st v)"
  shows "\<exists>d q. miovq_put (eg_iovfreeq st) v = Inr (d, q) \<and> xinv nv nb own (st\<lparr>eg_iovfreeq := q\<rparr>) m None T \<and>
    out_bytes (st\<lparr>eg_iovfreeq := q\<rparr>) = out_bytes st \<and> rx_of (st\<lparr>eg_iovfreeq := q\<rparr>) m = rx_of st m"
proof -
  have eg: "eg_inv nv st m" using inv by (simp add: xinv_def)
  then have ok: "miovq_ok (eg_iovfreeq st)" and d: "distinct (held m @ free_list st @ out_list st)"
    "set (held m @ free_list st @ out_list st) \<subseteq> {..<nv}" by (auto simp: eg_inv_def)
  have v: "v < nv" "v \<notin> set (held m @ free_list st @ out_list st)" using xinvD(10) [OF inv, of v] by auto
  have "distinct (v # free_list st)" "set (v # free_list st) \<subseteq> {..<nv}" using d v by auto
  then have "length (v # free_list st) \<le> nv" by (metis card_lessThan card_mono distinct_card finite_lessThan)
  then have "length (miovq_contents (eg_iovfreeq st)) < vq_size (eg_iovfreeq st)"
    using xinvD(7) [OF inv] by (simp add: free_list_def)
  from miovq_put_room [OF ok this, of v] obtain q where q: "miovq_put (eg_iovfreeq st) v =
      Inr (Suc (length (free_list st)), q)" "miovq_ok q" "miovq_contents q = free_list st @ [v]"
      "vq_size q = vq_size (eg_iovfreeq st)" "vq_freeq q = vq_freeq (eg_iovfreeq st)"
    by (auto simp: free_list_def)
  let ?st = "st\<lparr>eg_iovfreeq := q\<rparr>"
  have l: "free_list ?st = free_list st @ [v]" "out_list ?st = out_list st" using q(3) by (simp_all add: free_list_def out_list_def)
  have mi: "eg_miov ?st = eg_miov st" "eg_mbuf ?st = eg_mbuf st" by (simp_all add: eg_miov_def eg_mbuf_def fun_eq_iff)
  have same: "same_spaces st ?st" by (simp add: same_spaces_def mi)
  have "eg_inv nv ?st m"
    using eg q v clean unfolding eg_inv_def l mi miov_wf_same [OF same] by auto
  moreover have "holders_x nv own ?st T = holders_x nv own st T"
    unfolding holders_x_def [abs_def] lrefs_def live_def mi by (rule refl)
  moreover have "capacity nv ?st = capacity nv st" by (simp add: capacity_def mi)
  moreover have "\<forall>u as. T u = Some as \<longrightarrow> u \<in> set (held m)" 
  proof (intro allI impI)
    fix u as assume u: "T u = Some as"
    from xinvD(11) [OF inv this] T u show "u \<in> set (held m)" by auto
  qed
  ultimately have "xinv nv nb own ?st m None T"
    using inv q(4,5) unfolding xinv_def mi held_clean_def sized_def by simp
  moreover have "out_bytes ?st = out_bytes st" by (simp add: out_bytes_def l mi miov_bytes_same [OF same])
  moreover have "rx_of ?st m = rx_of st m" by (cases m) (simp_all add: rx_of_def mi miov_bytes_same [OF same] Let_def)
  ultimately show ?thesis using q(1) by blast
qed

end
