(* ===== verification/RxReader.thy ===== *)
theory RxReader
  imports RxInv
begin

text \<open>
  The parts of the reader's steps keep the invariant of \<open>RxInv\<close>: its buffer, the entry to
  \<open>add_to_inner_packet\<close> and one round of it.
\<close>

section \<open>The reader's buffer\<close>

lemma xinv_refcnt:
  "xinv nv nb own st m w T \<Longrightarrow> mb_refcnt (eg_mbuf st a) = 1 \<longleftrightarrow> holders_x nv own st T a = 1"
  using refcnt_one [OF xinvD(4), of nv nb own st m w T a] by (simp add: eg_mbuf_def)

lemma xinv_last_ref:
  assumes "xinv nv nb (Some tb) st m w T" "mb_refcnt (eg_mbuf st tb) = 1"
  shows "lrefs nv st T tb = 0"
  using xinv_refcnt [OF assms(1), of tb] assms(2) by (simp add: holders_x_def)

lemma xinv_own:
  assumes "xinv nv nb (Some tb) st m w T"
  shows "tb < nb" "length (mb_space (eg_mbuf st tb)) = MAXBUF"
proof -
  show "tb < nb" using xinvD(4) [OF assms] by (auto simp: pool_ok_def holders_x_def)
  then show "length (mb_space (eg_mbuf st tb)) = MAXBUF" using xinvD(9) [OF assms] by (simp add: sized_def)
qed

lemma xinv_release:
  assumes inv: "xinv nv nb (Some tb) st m w T" and many: "mb_refcnt (eg_mbuf st tb) \<noteq> 1"
  defines "st' \<equiv> eg_put tb ((eg_mbuf st tb)\<lparr>mb_refcnt := mb_refcnt (eg_mbuf st tb) - 1\<rparr>) st"
  shows "xinv nv nb None st' m w T" "same_spaces st st'"
proof -
  let ?f = "holders_x nv (Some tb) st T"
  have pool: "pool_ok nb ?f (eg_mem st)" by (rule xinvD(4) [OF inv])
  have two: "1 < ?f tb" using xinv_refcnt [OF inv, of tb] many by (auto simp: holders_x_def)
  have lt: "?f tb < 2 ^ 32" using pool by (simp add: pool_ok_def)
  have "mb_refcnt (eg_mbuf st tb) = word_of_nat (?f tb)" using pool by (simp add: pool_ok_mbufs)
  then have "mb_refcnt (eg_mbuf st tb) - 1 = word_of_nat (?f tb - 1)" using word_of_nat_pred [of "?f tb"] two by simp
  with pool_put [OF pool, of tb "?f tb - 1"] two lt
  have p: "pool_ok nb (?f(tb := ?f tb - 1)) (eg_mem st')" by (simp add: st'_def)
  show same: "same_spaces st st'" by (simp add: same_spaces_def st'_def)
  note sw = same_wf [OF xinvD(1) [OF inv], of st', unfolded st'_def, simplified, folded st'_def]
  have "holders_x nv None st' T = ?f(tb := ?f tb - 1)"
    using sw by (auto simp: holders_x_def fun_eq_iff)
  then show "xinv nv nb None st' m w T"
    using inv p sw unfolding xinv_def by (simp add: sized_same [OF same]) (simp add: st'_def)
qed

text \<open>A buffer from the free queue.\<close>

lemma pool_pop:
  assumes pool: "pool_ok nb f (eg_mem st)" and pop: "mqueue_pop (m_freeq (eg_mem st)) = Inr (a, q)"
    and hdr: "mq_hdrspace (m_freeq (eg_mem st)) = HDRSPACE"
  defines "eg \<equiv> st\<lparr>eg_mem := (eg_mem st)\<lparr>m_freeq := q\<rparr>\<rparr>"
  defines "st' \<equiv> eg_put a ((eg_mbuf eg a)\<lparr>mb_refcnt := 1\<rparr>) eg"
  shows "f a = 0" "a < nb" "pool_ok nb (f(a := 1)) (eg_mem st')" "idle_mbuf HDRSPACE (eg_mbuf st' a)"
    "mq_hdrspace (m_freeq (eg_mem st')) = HDRSPACE" "same_spaces st st'"
    "eg_miov st' = eg_miov st" "eg_iovfreeq st' = eg_iovfreeq st" "eg_outq st' = eg_outq st"
proof -
  let ?q = "m_freeq (eg_mem st)"
  have qok: "mqueue_ok ?q" using pool by (simp add: pool_ok_def)
  have ne: "mqueue_contents ?q \<noteq> []"
    using pop qok by (auto simp: mqueue_pop_def mqueue_abs_defs res_simps)
  from mqueue_pop_top [OF qok ne] pop have a: "a = last (mqueue_contents ?q)" and q': "mqueue_ok q"
    "mqueue_contents q = butlast (mqueue_contents ?q)" "mq_size q = mq_size ?q" "mq_hdrspace q = mq_hdrspace ?q" by auto
  have "a \<in> set (mqueue_contents ?q)" using a ne by simp
  then show fa: "f a = 0" "a < nb" using pool by (auto simp: pool_ok_def)
  have buf: "eg_mbuf st' x = (if x = a then (eg_mbuf st a)\<lparr>mb_refcnt := 1\<rparr> else eg_mbuf st x)" for x
  proof -
    have "eg_mbuf eg y = eg_mbuf st y" for y by (simp add: eg_def eg_mbuf_def)
    then show ?thesis by (simp add: st'_def)
  qed
  have fq: "m_freeq (eg_mem st') = q" by (simp add: st'_def eg_def)
  show "eg_miov st' = eg_miov st" "eg_iovfreeq st' = eg_iovfreeq st" "eg_outq st' = eg_outq st"
    by (simp_all add: st'_def eg_def) (simp add: eg_miov_def fun_eq_iff)
  show "mq_hdrspace (m_freeq (eg_mem st')) = HDRSPACE" using q'(4) hdr by (simp add: fq)
  show "same_spaces st st'" by (simp add: same_spaces_def buf)
  show "idle_mbuf HDRSPACE (eg_mbuf st' a)" using pool fa hdr by (simp add: pool_ok_mbufs buf idle_mbuf_def)
  have d: "distinct (butlast (mqueue_contents ?q) @ [a])" using pool a ne by (simp add: pool_ok_def)
  have "set (mqueue_contents ?q) = set (butlast (mqueue_contents ?q) @ [a])" using a ne by simp
  then have s: "set (mqueue_contents q) = {x. x < nb \<and> (f(a := 1)) x = 0}"
    using pool d q'(2) by (auto simp: pool_ok_def)
  show "pool_ok nb (f(a := 1)) (eg_mem st')"
    using pool q' d fa s unfolding pool_ok_mbufs fq by (auto simp: buf)
qed

lemma xinv_pop:
  assumes inv: "xinv nv nb None st m w T" and pop: "mqueue_pop (m_freeq (eg_mem st)) = Inr (a, q)"
  defines "eg \<equiv> st\<lparr>eg_mem := (eg_mem st)\<lparr>m_freeq := q\<rparr>\<rparr>"
  defines "st' \<equiv> eg_put a ((eg_mbuf eg a)\<lparr>mb_refcnt := 1\<rparr>) eg"
  shows "xinv nv nb (Some a) st' m w T" "lrefs nv st' T a = 0" "idle_mbuf HDRSPACE (eg_mbuf st' a)" "same_spaces st st'"
    "eg_miov st' = eg_miov st" "eg_outq st' = eg_outq st" "mb_refcnt (eg_mbuf st' a) = 1"
proof -
  note pp = pool_pop [OF xinvD(4) [OF inv] pop xinvD(8) [OF inv], folded eg_def, folded st'_def]
  have len: "length (mb_space (eg_mbuf st' x)) = length (mb_space (eg_mbuf st x))" for x
    using pp(6) by (simp add: same_spaces_def)
  note sw = same_wf [OF xinvD(1) [OF inv] pp(8,9,7) len]
  have la: "lrefs nv st T a = 0" using pp(1) by (simp add: holders_x_def)
  then have "holders_x nv (Some a) st' T = (holders_x nv None st T)(a := 1)"
    using sw(7) [of T] by (auto simp: holders_x_def fun_eq_iff)
  moreover have "mbuf_wf (eg_mbuf st' a)" using pp(4) by (simp add: idle_mbuf_def mbuf_wf_def)
  ultimately show "xinv nv nb (Some a) st' m w T"
    using inv pp sw unfolding xinv_def by (simp add: sized_same [OF pp(6)])
  show "lrefs nv st' T a = 0" using la sw(7) by simp
  show "mb_refcnt (eg_mbuf st' a) = 1" by (simp add: st'_def)
qed (fact pool_pop [OF xinvD(4) [OF inv] pop xinvD(8) [OF inv], folded eg_def, folded st'_def])+

section \<open>What a call of \<open>add_to_inner_packet\<close> touches\<close>

definition only_list :: "nat \<Rightarrow> egress \<Rightarrow> egress \<Rightarrow> bool" where
  "only_list v st st' \<longleftrightarrow> (\<forall>u. u \<noteq> v \<longrightarrow> eg_miov st' u = eg_miov st u) \<and> eg_iovfreeq st' = eg_iovfreeq st \<and>
     eg_outq st' = eg_outq st"

definition only_pushed :: "nat \<Rightarrow> egress \<Rightarrow> egress \<Rightarrow> bool" where
  "only_pushed v st st' \<longleftrightarrow> (\<forall>u. u \<noteq> v \<longrightarrow> eg_miov st' u = eg_miov st u) \<and> eg_iovfreeq st' = eg_iovfreeq st \<and>
     (\<exists>d. miovq_put (eg_outq st) v = Inr (d, eg_outq st'))"

named_theorems touch \<open>which lists and queues a part of a call changes\<close>

lemma only_trans [touch]:
  "only_list v st st1 \<Longrightarrow> only_list v st1 st2 \<Longrightarrow> only_list v st st2"
  "only_list v st st1 \<Longrightarrow> only_pushed v st1 st2 \<Longrightarrow> only_pushed v st st2"
  "only_pushed v st st1 \<Longrightarrow> only_list v st1 st2 \<Longrightarrow> only_pushed v st st2"
  by (auto simp: only_list_def only_pushed_def)

lemma only_refl [simp]: "only_list v st st"
  by (simp add: only_list_def)

lemma only_set [simp]: "only_list v st (set_start a n st)" "only_list v st (set_left v l st)"
  by (simp_all add: only_list_def eg_simps)

lemma only_set_r [simp]:
  "only_list v st st1 \<Longrightarrow> only_list v st (set_start a n st1)" "only_list v st st1 \<Longrightarrow> only_list v st (set_left v l st1)"
  "only_pushed v st st1 \<Longrightarrow> only_pushed v st (set_start a n st1)"
  using only_trans only_set by blast+

lemma only_add_piece: "add_piece v tb len st = Inr st' \<Longrightarrow> only_list v st st'"
  by (auto simp: add_piece_def miov_addmbuf_def res_simps Let_def only_list_def eg_miov_def)

lemma only_more: "atip_more tb v tlen st = Inr st' \<Longrightarrow> only_list v st st'"
  by (auto simp: atip_more_def res_simps Let_def dest!: only_add_piece)

lemma only_push:
  "push_out v st = Inr st' \<Longrightarrow> \<not> vq_freeq (eg_outq st) \<Longrightarrow> only_pushed v st st'"
  by (auto simp: push_out_def miovq_push_def res_simps only_pushed_def eg_miov_def)

lemma only_complete:
  assumes "atip_complete tb v st = Inr st'" "\<not> vq_freeq (eg_outq st)"
  shows "only_pushed v st st'"
proof -
  let ?l = "mi_left (eg_miov st v)"
  from assms(1) obtain st1 where 1: "add_piece v tb ?l st = Inr st1"
    "push_out v (set_left v 0 (set_start tb (mb_start (eg_mbuf st1 tb) + nat ?l) st1)) = Inr st'"
    by (auto simp: atip_complete_def res_simps Let_def)
  let ?st2 = "set_left v 0 (set_start tb (mb_start (eg_mbuf st1 tb) + nat ?l) st1)"
  have o: "only_list v st ?st2" using only_add_piece [OF 1(1)] by simp
  then have "\<not> vq_freeq (eg_outq ?st2)" using assms(2) by (simp add: only_list_def)
  from only_trans(2) [OF o only_push [OF 1(2) this]] show ?thesis .
qed

lemma only_branch:
  assumes "atip_branch tb v off tlen st = Inr (nx, st')" "\<not> vq_freeq (eg_outq st)"
  shows "only_list v st st' \<or> only_pushed v st st' \<and> nx = Return None"
proof -
  have ens: "only_list v st st1" if "ensure_left tb v st = Inr st1" for st1
    using that by (auto simp: ensure_left_def res_simps split: if_splits)
  have fresh: "only_list v st st'" if "atip_fresh tb v off tlen st = Inr (nx, st')"
    using that by (auto simp: atip_fresh_def Let_def res_simps dest!: only_add_piece split: if_splits
        intro: only_set_r only_trans(1) [OF only_set(1)] only_trans(1) [OF only_set(2)])
  have beyond: "only_list v st st' \<or> only_pushed v st st' \<and> nx = Return None" if b: "atip_beyond tb v tlen st = Inr (nx, st')"
  proof -
    from b obtain st1 where 1: "ensure_left tb v st = Inr st1" by (auto simp: atip_beyond_def res_simps)
    have q: "\<not> vq_freeq (eg_outq st1)" using ens [OF 1] assms(2) by (simp add: only_list_def)
    show ?thesis
      using b 1 ens [OF 1] only_complete [OF _ q]
      by (auto simp: atip_beyond_def res_simps split: if_splits dest!: only_more intro: only_trans only_set_r)
  qed
  have within: "only_list v st st'" if "atip_within tb v off st = Inr (nx, st')"
    using that by (auto simp: atip_within_def res_simps dest!: ens)
  show ?thesis
    using assms(1) fresh beyond within unfolding atip_branch_def by (auto split: if_splits)
qed

lemma only_finish:
  assumes "atip_finish tb v tlen st = Inr (e, st')" "\<not> vq_freeq (eg_outq st)"
  shows "only_list v st st' \<or> only_pushed v st st'"
  using assms only_more only_complete
  by (auto simp: atip_finish_def res_simps Let_def split: if_splits)

lemma only_round:
  assumes "atip_round tb v off tlen st = Inr (e, st')" "\<not> vq_freeq (eg_outq st)"
  shows "only_list v st st' \<or> only_pushed v st st'"
proof -
  from assms(1) obtain nx st1 where 1: "atip_branch tb v off tlen st = Inr (nx, st1)"
    and rest: "(case nx of Return m' \<Rightarrow> Inr (Done m', st1) | Go t \<Rightarrow> atip_finish tb v t st1) = Inr (e, st')"
    by (auto simp: atip_round_def res_simps)
  show ?thesis
  proof (cases nx)
    case (Return m')
    then show ?thesis using rest only_branch [OF 1 assms(2)] by auto
  next
    case (Go t)
    then have o: "only_list v st st1" using only_branch [OF 1 assms(2)] by auto
    then have "\<not> vq_freeq (eg_outq st1)" using assms(2) by (simp add: only_list_def)
    with only_finish [of tb v t st1 e st'] rest Go o show ?thesis by (auto intro: only_trans)
  qed
qed

lemma round_result:
  assumes "atip_round tb v off tlen st = Inr (Done m', st')"
  shows "m' = None \<or> m' = Some v"
  using assms
  by (auto simp: atip_round_def atip_branch_def atip_fresh_def atip_beyond_def atip_within_def atip_finish_def
      Let_def res_simps split: if_splits atip_next.splits)

section \<open>The invariant after a part of a call\<close>

lemma lrefs_shift: "l' + c = l + c' \<Longrightarrow> r' + c = r + c' \<Longrightarrow> o' + l' + r = o' + l + (r' :: nat)"
  by linarith

definition base_of :: "nat \<Rightarrow> egress \<Rightarrow> nat \<Rightarrow> u32" where
  "base_of nv st a = mb_refcnt (eg_mbuf st a) - word_of_nat (refs nv st a)"

lemma xinv_good: "xinv nv nb (Some tb) st m w T \<Longrightarrow> good_at nv (base_of nv st) tb st m"
  by (simp add: xinv_def good_at_def ref_base_def base_of_def)

lemma lrefs_le_refs:
  assumes "xinv nv nb own st m w T"
  shows "lrefs nv st T a \<le> refs nv st a"
  unfolding lrefs_def refs_def
proof (rule sum_mono)
  fix v
  show "count_list (live st T v) a \<le> count_list (miov_refs (eg_miov st v)) a"
  proof (cases "T v")
    case (Some as)
    then obtain pre where "miov_refs (eg_miov st v) = pre @ as" using xinvD(12) [OF assms] by (auto simp: suffix_def)
    then show ?thesis using Some by simp
  qed simp
qed

lemma xinv_step:
  assumes inv: "xinv nv nb (Some tb) st m w T" and g: "good_at nv (base_of nv st) tb st' m'" and fr: "frame tb st st'"
    and mi: "\<forall>u. u \<noteq> v \<longrightarrow> eg_miov st' u = eg_miov st u" and v: "v < nv" "T v = None" "v \<notin> set (held w)"
    and T: "\<forall>u as. T u = Some as \<longrightarrow> u \<in> set (held w)"
    and l: "set (held m' @ free_list st' @ out_list st') \<subseteq> insert v (set (held m @ free_list st @ out_list st))"
  shows "xinv nv nb (Some tb) st' m' w T"
proof -
  let ?f = "holders_x nv (Some tb) st T" and ?f' = "holders_x nv (Some tb) st' T"
  have pool: "pool_ok nb ?f (eg_mem st)" by (rule xinvD(4) [OF inv])
  have eg: "eg_inv nv st' m'" and tb: "mbuf_wf (eg_mbuf st' tb)" using g by (auto simp: good_at_def)
  have fr': "same_spaces st st'" "\<And>a. a \<noteq> tb \<Longrightarrow> eg_mbuf st' a = eg_mbuf st a" "m_freeq (eg_mem st') = m_freeq (eg_mem st)"
    and cap: "capacity nv st' = capacity nv st" using fr by (simp_all add: capacity_def frame_def)
  have "\<forall>u<nv. miov_wf st' (eg_miov st' u)" using eg by (auto simp: eg_inv_def)
  then have bd': "refs nv st' a < 2 ^ 32 - 1" for a
    using refs_le_capacity [of nv st' a] xinvD(5) [OF inv] cap by simp
  have "\<forall>u<nv. miov_wf st (eg_miov st u)" using xinvD(1) [OF inv] by (auto simp: eg_inv_def)
  then have bd: "refs nv st a < 2 ^ 32 - 1" for a
    using refs_le_capacity [of nv st a] xinvD(5) [OF inv] by simp
  have suf: "suffix as (miov_refs (eg_miov st' u))" if "T u = Some as" for u as
    using that v(2) mi xinvD(12) [OF inv that] by (cases "u = v") auto
  have "live st' T u = live st T u" if "u \<noteq> v" for u
    using mi that by (cases "T u") (simp_all add: live_def)
  then have lr: "lrefs nv st' T a + count_list (miov_refs (eg_miov st v)) a =
      lrefs nv st T a + count_list (miov_refs (eg_miov st' v)) a" for a
    using lrefs_upd [OF v(1), of st' T st T a] v(2) by simp
  have R: "refs nv st' a + count_list (miov_refs (eg_miov st v)) a = refs nv st a + count_list (miov_refs (eg_miov st' v)) a" for a
    using lrefs_upd [OF v(1), of st' "\<lambda>_. None" st "\<lambda>_. None" a] mi by (simp add: live_def)
  have sum: "?f' a + refs nv st a = ?f a + refs nv st' a" for a
    unfolding holders_x_def by (rule lrefs_shift [OF lr R])
  have cnt0: "mb_refcnt (eg_mbuf st' a) = mb_refcnt (eg_mbuf st a) - word_of_nat (refs nv st a) + word_of_nat (refs nv st' a)" for a
    using g by (simp add: good_at_def ref_base_def base_of_def)
  have cnt: "mb_refcnt (eg_mbuf st' a) = word_of_nat (?f' a)" for a
  proof -
    have "mb_refcnt (eg_mbuf st a) = word_of_nat (?f a)" using pool by (simp add: pool_ok_mbufs)
    then have "mb_refcnt (eg_mbuf st' a) + word_of_nat (refs nv st a) = (word_of_nat (?f a + refs nv st' a) :: u32)"
      by (simp add: cnt0)
    also have "\<dots> = word_of_nat (?f' a) + word_of_nat (refs nv st a)" unfolding sum [symmetric] by simp
    finally show ?thesis by simp
  qed
  have same: "?f' a = ?f a" if "a \<noteq> tb" for a
  proof -
    have "word_of_nat (refs nv st a) = (word_of_nat (refs nv st' a) :: u32)" using cnt0 [of a] fr'(2) [OF that] by simp
    then have "refs nv st a = refs nv st' a" using bd [of a] bd' [of a] by (intro word_of_nat_eq) auto
    with sum [of a] show ?thesis by simp
  qed
  have pos: "0 < ?f' tb" "0 < ?f tb" by (simp_all add: holders_x_def)
  then have z: "?f' a = 0 \<longleftrightarrow> ?f a = 0" for a using same [of a] by (cases "a = tb") auto
  have lt: "?f' a < 2 ^ 32" for a
  proof -
    have "lrefs nv st' T a \<le> refs nv st' a"
      unfolding lrefs_def refs_def
    proof (rule sum_mono)
      fix u show "count_list (live st' T u) a \<le> count_list (miov_refs (eg_miov st' u)) a"
        using suf [of u] by (cases "T u") (auto simp: suffix_def)
    qed
    then show ?thesis using bd' [of a] by (simp add: holders_x_def)
  qed
  have nb: "a < nb" if "0 < ?f' a" for a using that z [of a] pool by (auto simp: pool_ok_def)
  have idle: "idle_mbuf (mq_hdrspace (m_freeq (eg_mem st))) (eg_mbuf st' a)" if "a < nb" "?f' a = 0" for a
  proof -
    have "a \<noteq> tb" using that(2) pos by auto
    then show ?thesis using that z [of a] pool fr'(2) by (simp add: pool_ok_mbufs)
  qed
  have "pool_ok nb ?f' (eg_mem st')"
    using pool fr'(1,3) lt cnt nb idle unfolding pool_ok_mbufs z same_spaces_def by simp
  moreover have "\<forall>u. w = Some u \<longrightarrow> u < nv \<and> u \<notin> set (held m' @ free_list st' @ out_list st')"
    using xinvD(10) [OF inv] l v(3) by auto
  moreover have "held_clean st' m'" using g by (simp add: good_at_def)
  ultimately show ?thesis
    using inv eg tb cap fr suf T unfolding xinv_def by (simp add: sized_same [OF fr'(1)] frame_def)
qed

section \<open>Entering a call\<close>

lemma enter_touches:
  assumes "atip_enter tb new m st = Inr (v, off, tlen, st1)"
  shows "eg_miov st1 = eg_miov st" "eg_outq st1 = eg_outq st" "same_spaces st st1"
    "m = Some v \<and> eg_iovfreeq st1 = eg_iovfreeq st \<or> m = None \<and> miovq_pop (eg_iovfreeq st) = Inr (v, eg_iovfreeq st1)"
  using assms
  by (auto simp: atip_enter_def Let_def res_simps pop_free_def eg_simps same_spaces_def fun_eq_iff
      split: option.splits if_splits) (auto simp: eg_miov_def eg_mbuf_def set_start_def)

lemma xinv_enter:
  fixes new :: bool and st :: egress and tb :: nat
  defines "k \<equiv> if new then unat (get16 (rest st tb) 6) else 0" and "P \<equiv> if new then drop 8 (rest st tb) else rest st tb"
  assumes inv: "xinv nv nb (Some tb) st m w T" and T: "\<forall>u as. T u = Some as \<longrightarrow> u \<in> set (held w)"
    and len: "length (rest st tb) < 65536" "new \<Longrightarrow> 8 \<le> length (rest st tb)" "\<not> new \<Longrightarrow> m = None \<and> rest st tb \<noteq> []"
    and ok: "atip_enter tb new m st = Inr (v, off, tlen, st1)"
  shows "off = int k" "tlen = int (length P)" "rest st1 tb = P" "P \<noteq> []" "xinv nv nb (Some tb) st1 (Some v) w T"
    "rx_of st1 (Some v) = rx_of st m" "out_bytes st1 = out_bytes st" "v \<notin> set (held w)"
proof -
  let ?h = "base_of nv st"
  have g: "good_at nv ?h tb st m" by (rule xinv_good [OF inv])
  have wf: "mbuf_wf (eg_mbuf st tb)" using g by (simp add: good_at_def)
  note tch = enter_touches [OF ok]
  have ok_fq: "miovq_ok (eg_iovfreeq st)" using g by (simp add: good_at_def eg_inv_def)
  have free: "free_list st = free_list st1 @ [v]" if "m = None"
  proof -
    have pop: "miovq_pop (eg_iovfreeq st) = Inr (v, eg_iovfreeq st1)" using tch(4) that by auto
    then have "vq_depth (eg_iovfreeq st) \<noteq> 0" by (auto simp: miovq_pop_def res_simps)
    then have "miovq_contents (eg_iovfreeq st) \<noteq> []" using ok_fq by (auto simp: miovq_abs_defs)
    from miovq_pop_top [OF ok_fq this] pop this show ?thesis by (auto simp: free_list_def)
  qed
  have out: "out_list st1 = out_list st" by (simp add: out_list_def tch(2))
  have fm: "m = Some v \<and> free_list st1 = free_list st \<or> m = None \<and> free_list st = free_list st1 @ [v]"
    using tch(4) free by (auto simp: free_list_def)
  have d: "distinct (held m @ free_list st @ out_list st)" "set (held m @ free_list st @ out_list st) \<subseteq> {..<nv}"
    using g by (auto simp: good_at_def eg_inv_def)
  have v: "v < nv" "v \<in> set (held m @ free_list st)" using d(2) fm by auto
  show vw: "v \<notin> set (held w)" using xinvD(10) [OF inv, of v] v(2) by (cases w) auto
  have all: "off = int k \<and> tlen = int (length P) \<and> rest st1 tb = P \<and> P \<noteq> [] \<and> good_at nv ?h tb st1 (Some v) \<and>
    frame tb st st1 \<and> rx_of st1 (Some v) = rx_of st m \<and> out_bytes st1 = out_bytes st"
  proof (cases new)
    case True
    have "length (rest st tb) \<noteq> 8"
    proof
      assume "length (rest st tb) = 8"
      then have "MBUF_LEN (eg_mbuf st tb) = 8" using MBUF_LEN_rest [OF wf] by simp
      then show False using ok True by (simp add: atip_enter_def)
    qed
    then have l: "8 < length (rest st tb)" "length (rest st tb) < 65536 + 8" using len True by auto
    have "m = None \<Longrightarrow> free_list st \<noteq> []" using free by auto
    from atip_enter_new [OF g l this] ok l True show ?thesis by (auto simp: k_def P_def)
  next
    case False
    then have m: "m = None" "rest st tb \<noteq> []" using len by auto
    have "free_list st \<noteq> []" using free m by auto
    with atip_enter_again [OF g [unfolded m(1)] m(2) len(1)] ok False m show ?thesis
      by (auto simp: k_def P_def rx_of_simps miov_clean_def)
  qed
  then show "off = int k" "tlen = int (length P)" "rest st1 tb = P" "P \<noteq> []" "rx_of st1 (Some v) = rx_of st m"
    "out_bytes st1 = out_bytes st" by blast+
  show "xinv nv nb (Some tb) st1 (Some v) w T"
  proof (rule xinv_step [where v = v, OF inv _ _ _ v(1) _ vw T])
    show "T v = None" using T vw by (cases "T v") auto
    show "\<forall>u. u \<noteq> v \<longrightarrow> eg_miov st1 u = eg_miov st u" by (simp add: tch(1))
    show "set (held (Some v) @ free_list st1 @ out_list st1) \<subseteq> insert v (set (held m @ free_list st @ out_list st))"
      using fm out by auto
  qed (use all in blast)+
qed

section \<open>One round\<close>

lemma miovq_put_set:
  assumes "miovq_ok q" "miovq_put q v = Inr (d, q')"
  shows "set (miovq_contents q') = insert v (set (miovq_contents q))"
proof -
  have "vq_depth q \<noteq> vq_size q" using assms(2) by (auto simp: miovq_put_def res_simps)
  then have "length (miovq_contents q) < vq_size q" using assms(1) by (auto simp: miovq_abs_defs)
  from miovq_put_room [OF assms(1) this, of v] assms(2) show ?thesis by auto
qed

lemma rx_packet_Inl: "rx_packet off d r = Inl e \<Longrightarrow> e = Assertion"
  by (auto simp: rx_packet_def Let_def split: rx.splits if_splits)

lemma round_result_ok:
  assumes inv: "xinv nv nb (Some tb) st (Some v) w T" and P: "rest st tb \<noteq> []" "length (rest st tb) < 65536"
  shows "(\<exists>ds r' e st'. rx_packet k (rest st tb) (rx_of st (Some v)) = Inr (ds, r') \<and>
      atip_round tb v (int k) (int (length (rest st tb))) st = Inr (e, st') \<and>
      round_ok nv (base_of nv st) tb st v ds r' (Inr (e, st'))) \<or>
    (\<exists>err. atip_round tb v (int k) (int (length (rest st tb))) st = Inl err \<and> err \<noteq> Blocked)"
proof -
  have g: "good_at nv (base_of nv st) tb st (Some v)" by (rule xinv_good [OF inv])
  then have wf: "miov_wf st (eg_miov st v)" "0 < length (mi_iov (eg_miov st v))" by (auto simp: good_at_def eg_inv_def)
  show ?thesis
  proof (cases "mi_niov (eg_miov st v) < length (mi_iov (eg_miov st v))")
    case False
    then have full: "length (mi_iov (eg_miov st v)) \<le> mi_niov (eg_miov st v)" by simp
    then have "mi_len (eg_miov st v) \<noteq> 0" using wf by (auto simp: miov_wf_def)
    from round_full [OF this full] show ?thesis by blast
  next
    case room: True
    show ?thesis
    proof (cases "rx_packet k (rest st tb) (rx_of st (Some v))")
      case (Inl err)
      with round_aborts [OF g this] rx_packet_Inl [OF this] show ?thesis by simp
    next
      case (Inr x)
      obtain ds r' where "x = (ds, r')" by fastforce
      with Inr round_held [OF g room P, of k ds r'] show ?thesis unfolding round_ok_def by auto
    qed
  qed
qed

lemma xinv_round:
  assumes inv: "xinv nv nb (Some tb) st (Some v) w T" and T: "\<forall>u as. T u = Some as \<longrightarrow> u \<in> set (held w)"
    and P: "rest st tb \<noteq> []" "length (rest st tb) < 65536"
    and ok: "atip_round tb v (int k) (int (length (rest st tb))) st = Inr (e, st')"
  shows "\<exists>ds r'. rx_packet k (rest st tb) (rx_of st (Some v)) = Inr (ds, r') \<and>
    same_spaces st st' \<and> (\<forall>u. u \<noteq> v \<longrightarrow> eg_miov st' u = eg_miov st u) \<and>
    (case e of
       Done m' \<Rightarrow> xinv nv nb (Some tb) st' m' w T \<and> out_bytes st' = out_bytes st @ ds \<and> rx_of st' m' = r'
     | Recurse \<Rightarrow> xinv nv nb (Some tb) st' None w T \<and> rest st' tb \<noteq> [] \<and> length (rest st' tb) < 65536 \<and>
         (\<exists>p ds'. ds = p # ds' \<and> out_bytes st' = out_bytes st @ [p] \<and> rx_blocks (rest st' tb) = (ds', r')))"
proof -
  let ?h = "base_of nv st"
  have g: "good_at nv ?h tb st (Some v)" by (rule xinv_good [OF inv])
  then have eg: "eg_inv nv st (Some v)" by (simp add: good_at_def)
  have v: "v < nv" "v \<notin> set (held w)" using eg xinvD(10) [OF inv, of v] by (auto simp: eg_inv_def held_def split: option.splits)
  from round_result_ok [OF inv P, of k] ok obtain ds r' where rx: "rx_packet k (rest st tb) (rx_of st (Some v)) = Inr (ds, r')"
    and rok: "round_ok nv ?h tb st v ds r' (Inr (e, st'))" by auto
  have q: "miovq_ok (eg_outq st)" "\<not> vq_freeq (eg_outq st)" using eg by (auto simp: eg_inv_def)
  have touched: "\<forall>u. u \<noteq> v \<longrightarrow> eg_miov st' u = eg_miov st u" "free_list st' = free_list st"
    "set (out_list st') \<subseteq> insert v (set (out_list st))"
    using only_round [OF ok q(2)] miovq_put_set [OF q(1)]
    by (auto simp: only_list_def only_pushed_def free_list_def out_list_def)
  have step: "xinv nv nb (Some tb) st' m' w T"
    if "good_at nv ?h tb st' m'" "frame tb st st'" "set (held m') \<subseteq> {v}" for m'
  proof (rule xinv_step [where v = v, OF inv that(1,2) touched(1) v(1) _ v(2) T])
    show "T v = None" using T v(2) by (cases "T v") auto
    show "set (held m' @ free_list st' @ out_list st') \<subseteq> insert v (set (held (Some v) @ free_list st @ out_list st))"
      using touched that(3) by auto
  qed
  from rok consider
    (fin) m' where "e = Done m'" "post_at nv ?h tb st (Some v) ds r' m' st'"
    | (again) p ds' where "e = Recurse" "ds = p # ds'" "good_at nv ?h tb st' None" "rest st' tb \<noteq> []"
      "length (rest st' tb) < length (rest st tb)" "rx_blocks (rest st' tb) = (ds', r')"
      "out_bytes st' = out_bytes st @ [p]" "frame tb st st'"
    unfolding round_ok_def by auto
  then show ?thesis
  proof cases
    case fin
    have "set (held m') \<subseteq> {v}"
    proof -
      have "m' = None \<or> m' = Some v" using round_result [OF ok [unfolded fin(1)]] .
      then show ?thesis by auto
    qed
    with step [of m'] fin rx touched(1) show ?thesis by (auto simp: post_at_def frame_def)
  next
    case again
    with step [of None] rx P touched(1) show ?thesis by (auto simp: frame_def)
  qed
qed

end
