(* ===== verification/RxPhases.thy ===== *)
theory RxPhases
  imports RxReader
begin

text \<open>
  The invariant of the interleaved receiving side in every phase of its two threads, and its preservation by
  every step; and what each step does to the inner packets that are on their way.
\<close>

section \<open>Phases\<close>

definition own_of :: "rphase \<Rightarrow> nat \<Rightarrow> nat option" where
  "own_of ph tb = (if ph = RPop then None else Some tb)"

definition wr_held :: "dphase \<Rightarrow> nat option" where
  "wr_held d = (case d of DIdle \<Rightarrow> None | DHold v \<Rightarrow> Some v | DDrop v as \<Rightarrow> Some v)"

definition wr_torn :: "dphase \<Rightarrow> nat \<rightharpoonup> nat list" where
  "wr_torn d = (case d of DDrop v as \<Rightarrow> [v \<mapsto> as] | _ \<Rightarrow> Map.empty)"

definition rd_torn :: "rphase \<Rightarrow> nat option \<Rightarrow> nat \<rightharpoonup> nat list" where
  "rd_torn ph m = (case (ph, m) of (RReset as, Some v) \<Rightarrow> [v \<mapsto> as] | _ \<Rightarrow> Map.empty)"

definition torn :: "rphase \<Rightarrow> nat option \<Rightarrow> dphase \<Rightarrow> nat \<rightharpoonup> nat list" where
  "torn ph m d = wr_torn d ++ rd_torn ph m"

lemma phase_simps [simp]:
  "own_of RTop tb = Some tb" "own_of RPop tb = None" "own_of RRecv tb = Some tb" "own_of (RReset as) tb = Some tb"
  "own_of (RCall new) tb = Some tb" "own_of (RBody v off tlen) tb = Some tb"
  "wr_held DIdle = None" "wr_held (DHold v) = Some v" "wr_held (DDrop v as) = Some v"
  by (simp_all add: own_of_def wr_held_def)

lemma torn_simps [simp]:
  "torn RTop m d = wr_torn d" "torn RPop m d = wr_torn d" "torn RRecv m d = wr_torn d" "torn (RCall new) m d = wr_torn d"
  "torn (RBody v off tlen) m d = wr_torn d" "torn (RReset as) (Some v) d = (wr_torn d)(v \<mapsto> as)"
  "torn ph m DIdle = rd_torn ph m" "torn ph m (DHold v) = rd_torn ph m"
  by (simp_all add: torn_def rd_torn_def wr_torn_def)

lemma torn_drop: "rd_torn ph m v = None \<Longrightarrow> torn ph m (DDrop v as) = (rd_torn ph m)(v \<mapsto> as)"
  by (auto simp: torn_def wr_torn_def fun_eq_iff map_add_def split: option.split)

lemma wr_torn_held: "wr_torn d u = Some as \<Longrightarrow> u \<in> set (held (wr_held d))"
  by (auto simp: wr_torn_def split: dphase.splits if_splits)

lemma rd_torn_held: "rd_torn ph m u = Some as \<Longrightarrow> u \<in> set (held m)"
  by (auto simp: rd_torn_def split: rphase.splits option.splits if_splits)

text \<open>What the reader knows about its buffer in each phase.\<close>

definition phase_ok :: "nat \<Rightarrow> rtfs \<Rightarrow> rphase \<Rightarrow> dphase \<Rightarrow> bool" where
  "phase_ok nv rt ph d =
     (let eg = rt_eg rt; tb = rt_tbuf rt; n = length (rest eg tb) in
      case ph of
        RTop \<Rightarrow> True
      | RPop \<Rightarrow> True
      | RRecv \<Rightarrow> idle_mbuf HDRSPACE (eg_mbuf eg tb) \<and> lrefs nv eg (wr_torn d) tb = 0
      | RReset as \<Rightarrow> rt_m rt \<noteq> None \<and> 8 \<le> n \<and> n < 65536
      | RCall new \<Rightarrow> n < 65536 \<and> (if new then 8 \<le> n else rt_m rt = None \<and> 0 < n)
      | RBody v off tlen \<Rightarrow> rt_m rt = Some v \<and> 0 < n \<and> n < 65536 \<and> tlen = int n \<and> 0 \<le> off)"

definition rx_ok :: "nat \<Rightarrow> nat \<Rightarrow> rtfs \<Rightarrow> rphase \<Rightarrow> dphase \<Rightarrow> bool" where
  "rx_ok nv nb rt ph d \<longleftrightarrow>
     xinv nv nb (own_of ph (rt_tbuf rt)) (rt_eg rt) (rt_m rt) (wr_held d) (torn ph (rt_m rt) d) \<and> phase_ok nv rt ph d"

text \<open>
  What the specification still has to do with the tunnel packet that is being worked on: the inner packets to come
  and the one left unfinished.
\<close>

definition pend :: "rtfs \<Rightarrow> rphase \<Rightarrow> (bytes list \<times> rx) res" where
  "pend rt ph =
     (let eg = rt_eg rt; d = rest eg (rt_tbuf rt); r = rx_of eg (rt_m rt) in
      case ph of
        RReset as \<Rightarrow> rx_packet (unat (get16 d 6)) (drop 8 d) RxIdle
      | RCall new \<Rightarrow> if new then rx_packet (unat (get16 d 6)) (drop 8 d) r else Inr (rx_blocks d)
      | RBody v off tlen \<Rightarrow> rx_packet (nat off) d r
      | _ \<Rightarrow> Inr ([], r))"

text \<open>The inner packets that are complete and not yet written.\<close>

definition fly :: "egress \<Rightarrow> dphase \<Rightarrow> bytes list" where
  "fly eg d = out_bytes eg @ (case d of DHold v \<Rightarrow> [miov_bytes eg (eg_miov eg v)] | _ \<Rightarrow> [])"

definition carried :: "rtfs \<Rightarrow> rphase \<Rightarrow> rtfs \<Rightarrow> rphase \<Rightarrow> dphase \<Rightarrow> bool" where
  "carried rt ph rt' ph' d \<longleftrightarrow>
     (case pend rt' ph' of
        Inl e \<Rightarrow> pend rt ph = Inl e
      | Inr (ds', r) \<Rightarrow> \<exists>ds. pend rt ph = Inr (ds, r) \<and>
          mset (fly (rt_eg rt') d) + mset ds' = mset (fly (rt_eg rt) d) + mset ds)"

lemma carried_same:
  "pend rt' ph' = pend rt ph \<Longrightarrow> mset (fly (rt_eg rt') d) = mset (fly (rt_eg rt) d) \<Longrightarrow> carried rt ph rt' ph' d"
  by (auto simp: carried_def split: sum.split)

lemma fly_same:
  assumes "out_bytes eg' = out_bytes eg" "same_spaces eg eg'" "\<And>v. d = DHold v \<Longrightarrow> eg_miov eg' v = eg_miov eg v"
  shows "fly eg' d = fly eg d"
  using assms by (cases d) (simp_all add: fly_def miov_bytes_same [OF assms(2)])

lemma rx_okD:
  assumes "rx_ok nv nb rt ph d"
  shows "xinv nv nb (own_of ph (rt_tbuf rt)) (rt_eg rt) (rt_m rt) (wr_held d) (torn ph (rt_m rt) d)" "phase_ok nv rt ph d"
  using assms by (simp_all add: rx_ok_def)

text \<open>The list the reader holds is not the one the writer holds.\<close>

lemma rx_ok_apart:
  assumes "rx_ok nv nb rt ph d" "v \<in> set (held (rt_m rt))"
  shows "v \<notin> set (held (wr_held d))" "wr_torn d v = None" "d \<noteq> DHold v"
proof -
  show 1: "v \<notin> set (held (wr_held d))"
    using xinvD(10) [OF rx_okD(1) [OF assms(1)], of v] assms(2) by (cases "wr_held d") auto
  then show "wr_torn d v = None" using wr_torn_held [of d v] by (cases "wr_torn d v") auto
  show "d \<noteq> DHold v" using 1 by auto
qed

section \<open>Steps of the reader\<close>

lemma report_same:
  assumes "read_tfs_report oneonly now rt = Inr (pkt, rt1)"
  shows "rt_eg rt1 = rt_eg rt" "rt_tbuf rt1 = rt_tbuf rt" "rt_m rt1 = rt_m rt" "rt_rl rt1 = rt_rl rt"
  using assms by (auto simp: read_tfs_report_def Let_def res_simps split: if_splits prod.splits)

lemma pend_idle: "rt_eg rt1 = rt_eg rt \<Longrightarrow> rt_m rt1 = rt_m rt \<Longrightarrow> ph \<in> {RTop, RPop, RRecv} \<Longrightarrow> ph' \<in> {RTop, RPop, RRecv} \<Longrightarrow>
    pend rt1 ph' = pend rt ph"
  by (auto simp: pend_def Let_def)

lemma rx_of_same: "same_spaces eg eg' \<Longrightarrow> eg_miov eg' = eg_miov eg \<Longrightarrow> rx_of eg' m = rx_of eg m"
  by (cases m) (simp_all add: rx_of_def Let_def miov_bytes_same)

lemma out_bytes_same:
  "same_spaces eg eg' \<Longrightarrow> eg_miov eg' = eg_miov eg \<Longrightarrow> eg_outq eg' = eg_outq eg \<Longrightarrow> out_bytes eg' = out_bytes eg"
  by (simp add: out_bytes_def out_list_def miov_bytes_same)

lemma carried_still:
  assumes "same_spaces (rt_eg rt) (rt_eg rt')" "eg_miov (rt_eg rt') = eg_miov (rt_eg rt)" "eg_outq (rt_eg rt') = eg_outq (rt_eg rt)"
    and "rt_m rt' = rt_m rt" "ph \<in> {RTop, RPop, RRecv}" "ph' \<in> {RTop, RPop, RRecv}"
  shows "carried rt ph rt' ph' d"
proof (rule carried_same)
  show "pend rt' ph' = pend rt ph" using assms rx_of_same [OF assms(1,2)] by (auto simp: pend_def Let_def)
  show "mset (fly (rt_eg rt') d) = mset (fly (rt_eg rt) d)"
    using fly_same [OF out_bytes_same [OF assms(1-3)] assms(1)] assms(2) by simp
qed

lemma top_ok:
  assumes ok: "rx_ok nv nb rt RTop d" and step: "reader_top oneonly now rt = Inr (pkt, rt', ph')"
  shows "rx_ok nv nb rt' ph' d" "carried rt RTop rt' ph' d" "rt_rl rt' = rt_rl rt"
    "ack_last (rt_ack rt') = 0 \<or> ack_last (rt_ack rt') = ack_last (rt_ack rt)"
    "ph' \<in> {RPop, RRecv}"
proof -
  from step obtain rt1 where rep: "read_tfs_report oneonly now rt = Inr (pkt, rt1)"
    by (auto simp: reader_top_def res_simps Let_def split: if_splits)
  note same = report_same [OF rep]
  let ?eg = "rt_eg rt" and ?tb = "rt_tbuf rt"
  let ?b = "eg_mbuf ?eg ?tb" and ?T = "wr_torn d"
  have inv: "xinv nv nb (Some ?tb) ?eg (rt_m rt) (wr_held d) ?T" using rx_okD(1) [OF ok] by simp
  have apart: "\<forall>v \<in> set (held (rt_m rt)). ?T v = None" using rx_ok_apart(2) [OF ok] by blast
  have all: "rx_ok nv nb rt' ph' d \<and> carried rt RTop rt' ph' d \<and> rt_rl rt' = rt_rl rt \<and> rt_ack rt' = rt_ack rt1 \<and> ph' \<in> {RPop, RRecv}"
  proof (cases "mb_refcnt ?b = 1")
    case True
    let ?b' = "?b\<lparr>mb_start := HDRSPACE, mb_end := HDRSPACE, mb_left := 0, mb_refcnt := 1\<rparr>"
    have st: "rt' = rt1\<lparr>rt_eg := eg_put ?tb ?b' ?eg\<rparr>" "ph' = RRecv"
      using step rep True by (auto simp: reader_top_def mbuf_reset_def res_simps Let_def same eg_put_def eg_mbuf_def)
    have wf: "mbuf_wf ?b'" using xinv_own(2) [OF inv] HDR_le_MAXBUF by (simp add: mbuf_wf_def)
    note lr = xinv_last_ref [OF inv True]
    have p: "xinv nv nb (Some ?tb) (eg_put ?tb ?b' ?eg) (rt_m rt) (wr_held d) ?T"
      "lrefs nv (eg_put ?tb ?b' ?eg) ?T = lrefs nv ?eg ?T"
      by (rule xinv_put [OF inv lr _ wf _ apart]; simp)+
    have "rx_ok nv nb rt' RRecv d"
      using p lr wf by (simp add: rx_ok_def phase_ok_def Let_def st same idle_mbuf_def mbuf_wf_def)
    moreover have "carried rt RTop rt' RRecv d"
      by (rule carried_still) (simp_all add: st same same_spaces_def)
    ultimately show ?thesis by (simp add: st same)
  next
    case False
    have st: "rt' = rt1\<lparr>rt_eg := eg_put ?tb (?b\<lparr>mb_refcnt := mb_refcnt ?b - 1\<rparr>) ?eg\<rparr>" "ph' = RPop"
      using step rep False by (auto simp: reader_top_def res_simps Let_def same)
    note rel = xinv_release [OF inv False]
    have "rx_ok nv nb rt' RPop d" using rel(1) by (simp add: rx_ok_def phase_ok_def st same)
    moreover have "carried rt RTop rt' RPop d"
      by (rule carried_still) (simp_all add: st same same_spaces_def)
    ultimately show ?thesis by (simp add: st same)
  qed
  then show "rx_ok nv nb rt' ph' d" "carried rt RTop rt' ph' d" "rt_rl rt' = rt_rl rt" "ph' \<in> {RPop, RRecv}" by blast+
  show "ack_last (rt_ack rt') = 0 \<or> ack_last (rt_ack rt') = ack_last (rt_ack rt)"
    using all report_last [OF rep] by auto
qed

lemma pop_ok:
  assumes ok: "rx_ok nv nb rt RPop d" and step: "reader_pop rt = Inr rt'"
  shows "rx_ok nv nb rt' RRecv d" "carried rt RPop rt' RRecv d" "rt_rl rt' = rt_rl rt" "rt_ack rt' = rt_ack rt"
proof -
  have inv: "xinv nv nb None (rt_eg rt) (rt_m rt) (wr_held d) (wr_torn d)" using rx_okD(1) [OF ok] by simp
  from step obtain a q where pop: "mqueue_pop (m_freeq (eg_mem (rt_eg rt))) = Inr (a, q)" by (auto simp: reader_pop_def res_simps)
  note px = xinv_pop [OF inv pop]
  from step pop have rt': "rt' = rt\<lparr>rt_tbuf := a, rt_eg := eg_put a ((eg_mbuf ((rt_eg rt)\<lparr>eg_mem := (eg_mem (rt_eg rt))\<lparr>m_freeq := q\<rparr>\<rparr>) a)\<lparr>mb_refcnt := 1\<rparr>)
      ((rt_eg rt)\<lparr>eg_mem := (eg_mem (rt_eg rt))\<lparr>m_freeq := q\<rparr>\<rparr>)\<rparr>" by (simp add: reader_pop_def Let_def)
  have t: "rt_tbuf rt' = a" "rt_m rt' = rt_m rt"
    "rt_eg rt' = eg_put a ((eg_mbuf ((rt_eg rt)\<lparr>eg_mem := (eg_mem (rt_eg rt))\<lparr>m_freeq := q\<rparr>\<rparr>) a)\<lparr>mb_refcnt := 1\<rparr>)
      ((rt_eg rt)\<lparr>eg_mem := (eg_mem (rt_eg rt))\<lparr>m_freeq := q\<rparr>\<rparr>)" by (simp_all add: rt')
  have px': "xinv nv nb (Some a) (rt_eg rt') (rt_m rt) (wr_held d) (wr_torn d)" "lrefs nv (rt_eg rt') (wr_torn d) a = 0"
    "idle_mbuf HDRSPACE (eg_mbuf (rt_eg rt') a)" "same_spaces (rt_eg rt) (rt_eg rt')" "eg_miov (rt_eg rt') = eg_miov (rt_eg rt)"
    "eg_outq (rt_eg rt') = eg_outq (rt_eg rt)"
    unfolding t(3) using px by blast+
  show "rx_ok nv nb rt' RRecv d" using px' by (simp add: rx_ok_def phase_ok_def Let_def t(1,2))
  show "carried rt RPop rt' RRecv d" by (rule carried_still) (simp_all add: px' t(2))
  show "rt_rl rt' = rt_rl rt" "rt_ack rt' = rt_ack rt" by (simp_all add: rt')
qed

text \<open>Giving up the inner packet in progress.\<close>

lemma reset_one_ok:
  assumes ok: "rx_ok nv nb rt (RReset (a # as)) d"
  shows "\<exists>eg. eg_deref a (rt_eg rt) = Inr eg \<and> rx_ok nv nb (rt\<lparr>rt_eg := eg\<rparr>) (RReset as) d \<and>
    carried rt (RReset (a # as)) (rt\<lparr>rt_eg := eg\<rparr>) (RReset as) d"
proof -
  have ph: "phase_ok nv rt (RReset (a # as)) d" by (rule rx_okD(2) [OF ok])
  then obtain v where v: "rt_m rt = Some v" by (auto simp: phase_ok_def Let_def)
  have inv: "xinv nv nb (Some (rt_tbuf rt)) (rt_eg rt) (Some v) (wr_held d) ((wr_torn d)(v \<mapsto> a # as))"
    using rx_okD(1) [OF ok] by (simp add: v)
  from xinv_deref [OF inv] obtain eg where eg: "eg_deref a (rt_eg rt) = Inr eg"
    "xinv nv nb (Some (rt_tbuf rt)) eg (Some v) (wr_held d) ((wr_torn d)(v \<mapsto> as))" "same_spaces (rt_eg rt) eg"
    "eg_miov eg = eg_miov (rt_eg rt)" "eg_outq eg = eg_outq (rt_eg rt)"
    "mb_start (eg_mbuf eg (rt_tbuf rt)) = mb_start (eg_mbuf (rt_eg rt) (rt_tbuf rt))"
    "mb_end (eg_mbuf eg (rt_tbuf rt)) = mb_end (eg_mbuf (rt_eg rt) (rt_tbuf rt))" by auto
  have r: "rest eg (rt_tbuf rt) = rest (rt_eg rt) (rt_tbuf rt)"
    using eg(3,6,7) by (simp add: rest_def mbuf_bytes_def same_spaces_def)
  have "rx_ok nv nb (rt\<lparr>rt_eg := eg\<rparr>) (RReset as) d"
    using eg(2) ph by (simp add: rx_ok_def v phase_ok_def r)
  moreover have "carried rt (RReset (a # as)) (rt\<lparr>rt_eg := eg\<rparr>) (RReset as) d"
    using fly_same [OF out_bytes_same [OF eg(3-5)] eg(3)] by (intro carried_same) (simp_all add: pend_def r eg(4))
  ultimately show ?thesis using eg(1) by blast
qed

lemma reset_end_ok:
  assumes ok: "rx_ok nv nb rt (RReset []) d" and v: "rt_m rt = Some v"
  shows "rx_ok nv nb (rt\<lparr>rt_eg := eg_clear v (rt_eg rt)\<rparr>) (RCall True) d"
    "carried rt (RReset []) (rt\<lparr>rt_eg := eg_clear v (rt_eg rt)\<rparr>) (RCall True) d"
proof -
  let ?rt = "rt\<lparr>rt_eg := eg_clear v (rt_eg rt)\<rparr>"
  have inv: "xinv nv nb (Some (rt_tbuf rt)) (rt_eg rt) (Some v) (wr_held d) ((wr_torn d)(v \<mapsto> []))"
    using rx_okD(1) [OF ok] by (simp add: v)
  note ap = rx_ok_apart [OF ok, of v, unfolded v, simplified]
  note cl = xinv_clear [OF inv ap(2)]
  show "rx_ok nv nb ?rt (RCall True) d"
    using cl(1) rx_okD(2) [OF ok] by (simp add: rx_ok_def v phase_ok_def Let_def)
  show "carried rt (RReset []) ?rt (RCall True) d"
  proof (rule carried_same)
    show "pend ?rt (RCall True) = pend rt (RReset [])" by (simp add: pend_def v cl(3) Let_def)
    have "eg_miov (eg_clear v (rt_eg rt)) u = eg_miov (rt_eg rt) u" if "d = DHold u" for u using that ap(3) by auto
    from fly_same [OF cl(2) same_spaces_clear this] show "mset (fly (rt_eg ?rt) d) = mset (fly (rt_eg rt) d)" by simp
  qed
qed

lemma rx_packet_idle: "P \<noteq> [] \<Longrightarrow> rx_packet 0 P RxIdle = Inr (rx_blocks P)"
  by (simp add: rx_packet_def)

lemma call_ok:
  assumes ok: "rx_ok nv nb rt (RCall new) d"
    and step: "atip_enter (rt_tbuf rt) new (rt_m rt) (rt_eg rt) = Inr (v, off, tlen, eg)"
  shows "rx_ok nv nb (rt\<lparr>rt_m := Some v, rt_eg := eg\<rparr>) (RBody v off tlen) d"
    "carried rt (RCall new) (rt\<lparr>rt_m := Some v, rt_eg := eg\<rparr>) (RBody v off tlen) d"
proof -
  let ?tb = "rt_tbuf rt" and ?st = "rt_eg rt"
  let ?rt = "rt\<lparr>rt_m := Some v, rt_eg := eg\<rparr>"
  have inv: "xinv nv nb (Some ?tb) ?st (rt_m rt) (wr_held d) (wr_torn d)" using rx_okD(1) [OF ok] by simp
  have T: "\<forall>u as. wr_torn d u = Some as \<longrightarrow> u \<in> set (held (wr_held d))" using wr_torn_held by blast
  have len: "length (rest ?st ?tb) < 65536" "new \<Longrightarrow> 8 \<le> length (rest ?st ?tb)" "\<not> new \<Longrightarrow> rt_m rt = None \<and> rest ?st ?tb \<noteq> []"
    using rx_okD(2) [OF ok] by (auto simp: phase_ok_def Let_def split: if_splits)
  note e = xinv_enter [OF inv T len step]
  note tch = enter_touches [OF step]
  let ?P = "if new then drop 8 (rest ?st ?tb) else rest ?st ?tb"
  show "rx_ok nv nb ?rt (RBody v off tlen) d"
    using e(1-5) len(1) by (auto simp: rx_ok_def phase_ok_def Let_def)
  show "carried rt (RCall new) ?rt (RBody v off tlen) d"
  proof (rule carried_same)
    show "pend ?rt (RBody v off tlen) = pend rt (RCall new)"
      using e(1,3,6) len(3) by (auto simp: pend_def Let_def rx_of_simps rx_packet_idle)
    from fly_same [OF e(7) tch(3)] tch(1) show "mset (fly (rt_eg ?rt) d) = mset (fly ?st d)" by simp
  qed
qed

lemma body_ok:
  assumes ok: "rx_ok nv nb rt (RBody v off tlen) d"
    and step: "atip_round (rt_tbuf rt) v off tlen (rt_eg rt) = Inr (e, eg)"
  defines "rt' \<equiv> rt\<lparr>rt_m := (case e of Done m' \<Rightarrow> m' | Recurse \<Rightarrow> None), rt_eg := eg\<rparr>"
    and "ph' \<equiv> (case e of Done m' \<Rightarrow> RTop | Recurse \<Rightarrow> RCall False)"
  shows "rx_ok nv nb rt' ph' d" "carried rt (RBody v off tlen) rt' ph' d"
proof -
  let ?tb = "rt_tbuf rt" and ?st = "rt_eg rt"
  have ph: "rt_m rt = Some v" "rest ?st ?tb \<noteq> []" "length (rest ?st ?tb) < 65536" "tlen = int (length (rest ?st ?tb))" "off = int (nat off)"
    using rx_okD(2) [OF ok] by (auto simp: phase_ok_def Let_def)
  have inv: "xinv nv nb (Some ?tb) ?st (Some v) (wr_held d) (wr_torn d)" using rx_okD(1) [OF ok] by (simp add: ph(1))
  have T: "\<forall>u as. wr_torn d u = Some as \<longrightarrow> u \<in> set (held (wr_held d))" using wr_torn_held by blast
  have "atip_round ?tb v (int (nat off)) (int (length (rest ?st ?tb))) ?st = Inr (e, eg)" using step ph by simp
  from xinv_round [OF inv T ph(2,3) this] obtain ds r' where
    rx: "rx_packet (nat off) (rest ?st ?tb) (rx_of ?st (Some v)) = Inr (ds, r')" and sp: "same_spaces ?st eg"
    and mi: "\<forall>u. u \<noteq> v \<longrightarrow> eg_miov eg u = eg_miov ?st u"
    and res: "case e of
       Done m' \<Rightarrow> xinv nv nb (Some ?tb) eg m' (wr_held d) (wr_torn d) \<and> out_bytes eg = out_bytes ?st @ ds \<and> rx_of eg m' = r'
     | Recurse \<Rightarrow> xinv nv nb (Some ?tb) eg None (wr_held d) (wr_torn d) \<and> rest eg ?tb \<noteq> [] \<and> length (rest eg ?tb) < 65536 \<and>
         (\<exists>p ds'. ds = p # ds' \<and> out_bytes eg = out_bytes ?st @ [p] \<and> rx_blocks (rest eg ?tb) = (ds', r'))" by blast
  have hold: "(case d of DHold u \<Rightarrow> [miov_bytes eg (eg_miov eg u)] | _ \<Rightarrow> []) =
      (case d of DHold u \<Rightarrow> [miov_bytes ?st (eg_miov ?st u)] | _ \<Rightarrow> [])"
    using rx_ok_apart(3) [OF ok, of v] mi ph(1) by (cases d) (simp_all add: miov_bytes_same [OF sp])
  show "rx_ok nv nb rt' ph' d"
    using res by (cases e) (auto simp: rt'_def ph'_def rx_ok_def phase_ok_def Let_def)
  show "carried rt (RBody v off tlen) rt' ph' d"
    using res rx by (cases e) (auto simp: carried_def rt'_def ph'_def pend_def Let_def ph(1) fly_def hold)
qed

section \<open>A datagram\<close>

lemma put_ok:
  assumes ok: "rx_ok nv nb rt ph d" and ph: "own_of ph (rt_tbuf rt) = Some tb" "torn ph (rt_m rt) d = wr_torn d"
    and inv: "xinv nv nb (Some tb) eg (rt_m rt) (wr_held d) (wr_torn d)" and lr: "lrefs nv eg (wr_torn d) tb = 0"
    and b: "mb_refcnt b = mb_refcnt (eg_mbuf eg tb)" "mbuf_wf b" "length (mb_space b) = length (mb_space (eg_mbuf eg tb))"
  shows "xinv nv nb (Some tb) (eg_put tb b eg) (rt_m rt) (wr_held d) (wr_torn d)" "lrefs nv (eg_put tb b eg) (wr_torn d) tb = 0"
    "fly (eg_put tb b eg) d = fly eg d" "rx_of (eg_put tb b eg) (rt_m rt) = rx_of eg (rt_m rt)"
proof -
  have one: "mb_refcnt b = 1" using xinv_refcnt [OF inv, of tb] lr b(1) by (simp add: holders_x_def)
  have apart: "\<forall>v \<in> set (held (rt_m rt)). wr_torn d v = None" using rx_ok_apart(2) [OF ok] by blast
  note p = xinv_put [OF inv lr one b(2,3) apart]
  show "xinv nv nb (Some tb) (eg_put tb b eg) (rt_m rt) (wr_held d) (wr_torn d)" "lrefs nv (eg_put tb b eg) (wr_torn d) tb = 0"
    "rx_of (eg_put tb b eg) (rt_m rt) = rx_of eg (rt_m rt)" using p(1,3,4) lr by simp_all
  show "fly (eg_put tb b eg) d = fly eg d"
  proof (cases d)
    case (DHold v)
    then have "wr_held d = Some v" "wr_torn d v = None" by (simp_all add: wr_torn_def)
    from p(6) [OF this] p(2) DHold show ?thesis by (simp add: fly_def)
  qed (simp_all add: fly_def p(2))
qed

lemma recv_x:
  assumes ok: "rx_ok nv nb rt RRecv d" and recv: "tbuf_recv (rt_tbuf rt) dg (rt_eg rt) = (n, eg1)"
  defines "eg2 \<equiv> eg_put (rt_tbuf rt) ((eg_mbuf eg1 (rt_tbuf rt))\<lparr>mb_end := mb_start (eg_mbuf eg1 (rt_tbuf rt)) + n\<rparr>) eg1"
  shows "xinv nv nb (Some (rt_tbuf rt)) eg1 (rt_m rt) (wr_held d) (wr_torn d)" "fly eg1 d = fly (rt_eg rt) d"
    "xinv nv nb (Some (rt_tbuf rt)) eg2 (rt_m rt) (wr_held d) (wr_torn d)" "fly eg2 d = fly (rt_eg rt) d"
    "rx_of eg2 (rt_m rt) = rx_of (rt_eg rt) (rt_m rt)"
    "n = min (length dg) (MAXBUF - HDRSPACE)" "rest eg2 (rt_tbuf rt) = take n dg"
    "rx_of eg1 (rt_m rt) = rx_of (rt_eg rt) (rt_m rt)"
proof -
  let ?a = "rt_tbuf rt" and ?eg = "rt_eg rt"
  have inv: "xinv nv nb (Some ?a) ?eg (rt_m rt) (wr_held d) (wr_torn d)" using rx_okD(1) [OF ok] by simp
  have ph: "idle_mbuf HDRSPACE (eg_mbuf ?eg ?a)" "lrefs nv ?eg (wr_torn d) ?a = 0"
    using rx_okD(2) [OF ok] by (simp_all add: phase_ok_def Let_def)
  have len: "length (mb_space (eg_mbuf ?eg ?a)) = MAXBUF" by (rule xinv_own(2) [OF inv])
  have idle: "mb_start (eg_mbuf ?eg ?a) = HDRSPACE" "mb_end (eg_mbuf ?eg ?a) = HDRSPACE" "HDRSPACE \<le> MAXBUF"
    using ph(1) len by (simp_all add: idle_mbuf_def)
  let ?b = "(eg_mbuf ?eg ?a)\<lparr>mb_space := splice_at HDRSPACE (take n dg) (mb_space (eg_mbuf ?eg ?a))\<rparr>"
  have "nat (MBUF_AVAIL (eg_mbuf ?eg ?a)) = MAXBUF - HDRSPACE" using len idle by (simp add: MBUF_AVAIL_def)
  then show n: "n = min (length dg) (MAXBUF - HDRSPACE)"
    using recv idle by (auto simp: tbuf_recv_def Let_def)
  have eg1: "eg1 = eg_put ?a ?b ?eg" using recv idle by (auto simp: tbuf_recv_def Let_def)
  have tn: "length (take n dg) = n" "HDRSPACE + n \<le> MAXBUF" using n idle by auto
  then have "length (splice_at HDRSPACE (take n dg) (mb_space (eg_mbuf ?eg ?a))) = MAXBUF"
    using len by (subst length_splice_at) auto
  then have sl: "length (mb_space ?b) = MAXBUF" by simp
  have wf: "mbuf_wf ?b" using sl idle by (simp add: mbuf_wf_def)
  have b: "mb_refcnt ?b = mb_refcnt (eg_mbuf ?eg ?a)" "length (mb_space ?b) = length (mb_space (eg_mbuf ?eg ?a))"
    using sl len by simp_all
  note p1 = put_ok [OF ok _ _ inv ph(2) b(1) wf b(2), simplified, folded eg1]
  show "xinv nv nb (Some ?a) eg1 (rt_m rt) (wr_held d) (wr_torn d)" "fly eg1 d = fly ?eg d"
    "rx_of eg1 (rt_m rt) = rx_of ?eg (rt_m rt)" using p1 by simp_all
  have b1: "mb_start (eg_mbuf eg1 ?a) = HDRSPACE" "mb_end (eg_mbuf eg1 ?a) = HDRSPACE" "length (mb_space (eg_mbuf eg1 ?a)) = MAXBUF"
    "mb_space (eg_mbuf eg1 ?a) = splice_at HDRSPACE (take n dg) (mb_space (eg_mbuf ?eg ?a))"
    using idle sl by (simp_all add: eg1)
  let ?b2 = "(eg_mbuf eg1 ?a)\<lparr>mb_end := mb_start (eg_mbuf eg1 ?a) + n\<rparr>"
  have "mbuf_wf ?b2" using b1 tn by (simp add: mbuf_wf_def)
  from put_ok [OF ok _ _ p1(1,2) _ this, simplified, folded eg2_def] p1
  show "xinv nv nb (Some ?a) eg2 (rt_m rt) (wr_held d) (wr_torn d)" "fly eg2 d = fly ?eg d"
    "rx_of eg2 (rt_m rt) = rx_of ?eg (rt_m rt)" by simp_all
  have "subseg HDRSPACE (length (take n dg)) (splice_at HDRSPACE (take n dg) (mb_space (eg_mbuf ?eg ?a))) = take n dg"
    by (rule subseg_splice_at) (use tn len in simp)
  then show "rest eg2 ?a = take n dg" using b1 tn(1) by (simp add: rest_def mbuf_bytes_def eg2_def)
qed

lemma reader_data_same:
  assumes "reader_data seq rt = (rt', ph')"
  shows "rt_eg rt' = rt_eg rt" "rt_m rt' = rt_m rt" "rt_tbuf rt' = rt_tbuf rt" "rt_rl rt' = rt_rl rt"
    "ph' = RTop \<or> ph' = RCall True \<or> (\<exists>v. rt_m rt = Some v \<and> ph' = RReset (miov_refs (eg_miov (rt_eg rt) v)))"
  using assms by (auto simp: reader_data_def Let_def split: if_splits option.splits)

lemma reader_data_ok:
  assumes ok: "rx_ok nv nb rt RTop d" and step: "reader_data seq rt = (rt', ph')"
    and len: "8 \<le> length (rest (rt_eg rt) (rt_tbuf rt))" "length (rest (rt_eg rt) (rt_tbuf rt)) < 65536"
  shows "rx_ok nv nb rt' ph' d"
proof -
  note same = reader_data_same [OF step]
  have inv: "xinv nv nb (Some (rt_tbuf rt)) (rt_eg rt) (rt_m rt) (wr_held d) (wr_torn d)" using rx_okD(1) [OF ok] by simp
  from same(5) consider "ph' = RTop" | "ph' = RCall True"
    | v where "rt_m rt = Some v" "ph' = RReset (miov_refs (eg_miov (rt_eg rt) v))" by blast
  then show ?thesis
  proof cases
    case (3 v)
    from xinv_tear [OF inv, of v] rx_ok_apart(2) [OF ok, of v] 3 same len
    show ?thesis by (simp add: rx_ok_def phase_ok_def Let_def)
  qed (use inv same len in \<open>simp_all add: rx_ok_def phase_ok_def Let_def\<close>)
qed

lemma reader_dispatch_cases:
  assumes "reader_dispatch oneonly n rt = Inr (rt', ph')"
  shows "(\<exists>fb. rt' = (rt_received n rt)\<lparr>rt_fb := fb\<rparr> \<and> ph' = RTop) \<or> rt' = rt_drop (rt_received n rt) \<and> ph' = RTop \<or>
    (\<exists>seq. reader_data seq (rt_received n rt) = (rt', ph'))"
  using assms unfolding reader_dispatch_def Let_def rt_received_def [symmetric]
  by (auto simp: bindE_eq_Inr split: if_splits)

lemma admit_same:
  assumes "read_tfs_admit n now rt = Inr (go, rt')"
  shows "rt_eg rt' = rt_eg rt" "rt_tbuf rt' = rt_tbuf rt" "rt_m rt' = rt_m rt" "go \<Longrightarrow> 8 \<le> n"
  using assms by (auto simp: read_tfs_admit_def rt_drop_def Let_def res_simps split: if_splits option.splits)

lemma recv_ok:
  assumes ok: "rx_ok nv nb rt RRecv d" and step: "reader_recv oneonly r now rt = Inr (rt', ph')"
  shows "rx_ok nv nb rt' ph' d" "fly (rt_eg rt') d = fly (rt_eg rt) d"
proof -
  have inv: "xinv nv nb (Some (rt_tbuf rt)) (rt_eg rt) (rt_m rt) (wr_held d) (wr_torn d)" using rx_okD(1) [OF ok] by simp
  have "rx_ok nv nb rt' ph' d \<and> fly (rt_eg rt') d = fly (rt_eg rt) d"
  proof (cases r)
    case RecvErr
    then show ?thesis using step inv by (auto simp: reader_recv_def rx_ok_def phase_ok_def)
  next
    case (Recv dg)
    obtain n eg1 where recv: "tbuf_recv (rt_tbuf rt) dg (rt_eg rt) = (n, eg1)" by fastforce
    note rx = recv_x [OF ok recv]
    from step Recv recv obtain go rt1 where adm: "read_tfs_admit n now (rt\<lparr>rt_eg := eg1\<rparr>) = Inr (go, rt1)"
      and dis: "(if go then reader_dispatch oneonly n rt1 else Inr (rt1, RTop)) = Inr (rt', ph')"
      by (auto simp: reader_recv_def res_simps)
    note same = admit_same [OF adm, simplified]
    show ?thesis
    proof (cases go)
      case False
      then show ?thesis using dis same rx(1,2) by (auto simp: rx_ok_def phase_ok_def)
    next
      case True
      let ?rt2 = "rt_received n rt1"
      let ?eg2 = "eg_put (rt_tbuf rt) ((eg_mbuf eg1 (rt_tbuf rt))\<lparr>mb_end := mb_start (eg_mbuf eg1 (rt_tbuf rt)) + n\<rparr>) eg1"
      have 2: "rt_eg ?rt2 = ?eg2" "rt_tbuf ?rt2 = rt_tbuf rt" "rt_m ?rt2 = rt_m rt" using same by (simp_all add: rt_received_def)
      have ok2: "rx_ok nv nb ?rt2 RTop d" using rx(3) 2 by (simp add: rx_ok_def phase_ok_def)
      have "n < 65536" "length (take n dg) = n" using rx(6) by (auto simp: const_defs)
      then have len: "8 \<le> length (rest (rt_eg ?rt2) (rt_tbuf ?rt2))" "length (rest (rt_eg ?rt2) (rt_tbuf ?rt2)) < 65536"
        using rx(7) same(4) True 2 by simp_all
      have "reader_dispatch oneonly n rt1 = Inr (rt', ph')" using dis True by simp
      from reader_dispatch_cases [OF this] consider fb where "rt' = ?rt2\<lparr>rt_fb := fb\<rparr>" "ph' = RTop"
        | "rt' = rt_drop ?rt2" "ph' = RTop" | seq where "reader_data seq ?rt2 = (rt', ph')" by blast
      then show ?thesis
      proof cases
        case 1
        then show ?thesis using ok2 rx(4) 2 by (simp add: rx_ok_def phase_ok_def)
      next
        case 2
        then show ?thesis using ok2 rx(4) \<open>rt_eg ?rt2 = ?eg2\<close> by (simp add: rx_ok_def phase_ok_def rt_drop_def)
      next
        case 3
        from reader_data_ok [OF ok2 this len] reader_data_same(1) [OF this] rx(4) 2 show ?thesis by simp
      qed
    qed
  qed
  then show "rx_ok nv nb rt' ph' d" "fly (rt_eg rt') d = fly (rt_eg rt) d" by blast+
qed

text \<open>A data packet that is newer than the last one, in the counts of the report and in what is to be done.\<close>

definition ack_accept :: "u32 \<Rightarrow> ackinfo \<Rightarrow> ackinfo" where
  "ack_accept seq ack =
     \<lparr>ack_start = (if ack_start ack = 0 then seq else ack_start ack), ack_last = seq,
      ack_ndrop = (if lost_before seq ack then ack_ndrop ack + (seq - (ack_last ack + 1)) else ack_ndrop ack)\<rparr>"

lemma reader_data_ack:
  assumes "ack_last (rt_ack rt) < seq" "reader_data seq rt = (rt', ph')"
  shows "rt_ack rt' = ack_accept seq (rt_ack rt)"
proof -
  let ?ack = "if ack_start (rt_ack rt) = 0 then (rt_ack rt)\<lparr>ack_start := seq\<rparr> else rt_ack rt"
  have f: "ack_last ?ack = ack_last (rt_ack rt)" "ack_ndrop ?ack = ack_ndrop (rt_ack rt)"
    "ack_start ?ack = (if ack_start (rt_ack rt) = 0 then seq else ack_start (rt_ack rt))" by simp_all
  have "\<not> seq \<le> ack_last ?ack" unfolding f using assms(1) by simp
  then have "rt_ack rt' = (if seq \<noteq> ack_last ?ack + 1 \<and> ack_last ?ack \<noteq> 0
      then ?ack\<lparr>ack_ndrop := ack_ndrop ?ack + (seq - (ack_last ?ack + 1))\<rparr> else ?ack)\<lparr>ack_last := seq\<rparr>"
    using assms(2) unfolding reader_data_def Let_def by auto
  then show ?thesis by (simp add: ack_accept_def lost_before_def)
qed

lemma recv_data_eq:
  assumes ok: "rx_ok nv nb rt RRecv d" and rl: "rt_rl rt = None" and p: "length dd \<le> MAXBUF - HDRSPACE - 8"
  shows "\<exists>rt2. reader_recv oneonly (Recv (tfs_bytes seq off dd)) now rt = Inr (reader_data seq rt2) \<and>
    rest (rt_eg rt2) (rt_tbuf rt2) = tfs_bytes seq off dd \<and> rx_of (rt_eg rt2) (rt_m rt) = rx_of (rt_eg rt) (rt_m rt) \<and>
    rt_m rt2 = rt_m rt \<and> rt_ack rt2 = rt_ack rt \<and> rt_rl rt2 = None \<and> rt_timer rt2 = rt_timer rt"
proof -
  let ?p = "tfs_bytes seq off dd" and ?a = "rt_tbuf rt"
  obtain n eg1 where recv: "tbuf_recv ?a ?p (rt_eg rt) = (n, eg1)" by fastforce
  note rx = recv_x [OF ok recv]
  have n: "n = 8 + length dd" using rx(6) p by (simp add: const_defs)
  let ?rt1 = "rt\<lparr>rt_eg := eg1\<rparr>"
  let ?rt2 = "rt_received n ?rt1"
  let ?eg2 = "eg_put ?a ((eg_mbuf eg1 ?a)\<lparr>mb_end := mb_start (eg_mbuf eg1 ?a) + n\<rparr>) eg1"
  have dis: "reader_recv oneonly (Recv ?p) now rt = reader_dispatch oneonly n ?rt1"
    using recv n rl by (simp add: reader_recv_def read_tfs_admit_def)
  have 2: "rt_eg ?rt2 = ?eg2" "rt_tbuf ?rt2 = ?a" "rt_m ?rt2 = rt_m rt" "rt_ack ?rt2 = rt_ack rt" "rt_rl ?rt2 = None"
    "rt_timer ?rt2 = rt_timer rt" using rl by (simp_all add: rt_received_def)
  have r: "rest ?eg2 ?a = ?p" using rx(7) n by simp
  have wf: "mbuf_wf (eg_mbuf ?eg2 ?a)" using xinvD(3) [OF rx(3)] by simp
  have f: "get32 (mb_space (eg_mbuf ?eg2 ?a)) (mb_start (eg_mbuf ?eg2 ?a)) = seq"
    "get32 (mb_space (eg_mbuf ?eg2 ?a)) (mb_start (eg_mbuf ?eg2 ?a) + 4) = get32 ?p 4"
    using mbuf_get32 [OF wf, of 0] mbuf_get32 [OF wf, of 4] r n by (simp_all add: rest_def tfs_bytes_fields)
  have "reader_dispatch oneonly n ?rt1 = Inr (reader_data seq ?rt2)"
    using f unfolding reader_dispatch_def Let_def rt_received_def by (simp add: tfs_bytes_version)
  with dis 2 r rx(5) show ?thesis by (intro exI [of _ ?rt2]) simp
qed

lemma recv_data_pend:
  assumes ok: "rx_ok nv nb rt RRecv d" and rl: "rt_rl rt = None"
    and p: "dd \<noteq> []" "length dd \<le> MAXBUF - HDRSPACE - 8" and seq: "ack_last (rt_ack rt) < seq"
    and step: "reader_recv oneonly (Recv (tfs_bytes seq off dd)) now rt = Inr (rt', ph')"
  shows "pend rt' ph' = rx_packet (unat off) dd
      (if lost_before seq (rt_ack rt) then RxIdle else rx_of (rt_eg rt) (rt_m rt))"
    "ack_last (rt_ack rt') = seq" "rt_rl rt' = None" "rt_ack rt' = ack_accept seq (rt_ack rt)" "rt_timer rt' = rt_timer rt"
proof -
  from recv_data_eq [OF ok rl p(2), of oneonly seq off now] step obtain rt2 where data: "reader_data seq rt2 = (rt', ph')"
    and 2: "rest (rt_eg rt2) (rt_tbuf rt2) = tfs_bytes seq off dd" "rx_of (rt_eg rt2) (rt_m rt) = rx_of (rt_eg rt) (rt_m rt)"
      "rt_m rt2 = rt_m rt" "rt_ack rt2 = rt_ack rt" "rt_rl rt2 = None" "rt_timer rt2 = rt_timer rt" by auto
  let ?ack = "if ack_start (rt_ack rt) = 0 then (rt_ack rt)\<lparr>ack_start := seq\<rparr> else rt_ack rt"
  have last: "ack_last ?ack = ack_last (rt_ack rt)" by simp
  have lost: "(seq \<noteq> ack_last ?ack + 1 \<and> ack_last ?ack \<noteq> 0) = lost_before seq (rt_ack rt)"
    unfolding last by (simp add: lost_before_def)
  have "\<not> seq \<le> ack_last ?ack" unfolding last using seq by simp
  with data have ph: "ph' = (case rt_m rt of
      Some v \<Rightarrow> if lost_before seq (rt_ack rt) then RReset (miov_refs (eg_miov (rt_eg rt2) v)) else RCall True | None \<Rightarrow> RCall True)"
    unfolding reader_data_def Let_def 2 lost by auto
  show acc: "rt_ack rt' = ack_accept seq (rt_ack rt)" using reader_data_ack [OF _ data] seq 2(4) by simp
  then show "ack_last (rt_ack rt') = seq" by (simp add: ack_accept_def)
  show "rt_timer rt' = rt_timer rt" using data 2(6) by (auto simp: reader_data_def Let_def split: if_splits)
  show "rt_rl rt' = None" using reader_data_same(4) [OF data] 2(5) by simp
  note same = reader_data_same(1-3) [OF data]
  show "pend rt' ph' = rx_packet (unat off) dd (if lost_before seq (rt_ack rt) then RxIdle else rx_of (rt_eg rt) (rt_m rt))"
    using 2(1,2) unfolding ph pend_def Let_def same 2(3)
    by (cases "rt_m rt") (simp_all add: tfs_bytes_fields rx_of_simps)
qed

text \<open>The datagrams that are taken for data packets; the others are reports, of an unknown version, or too short.\<close>

definition is_data :: "bytes \<Rightarrow> bool" where
  "is_data d \<longleftrightarrow> 8 \<le> length d \<and> get32 d 4 AND 0xC0000000 = 0"

lemma is_data_tfs_bytes: "is_data (tfs_bytes seq off dd)"
  by (simp add: is_data_def tfs_bytes_version)

lemma version_bits:
  assumes "(w :: u32) AND 0xC0000000 \<noteq> 0"
  shows "w AND 0xC0000000 = 0x40000000 \<or> w AND 0x80000000 \<noteq> 0"
proof -
  have m: "(w AND 2 ^ n) = (if bit w n then 2 ^ n else 0)" for n
    by (rule bit_eqI) (auto simp: bit_simps)
  have "w AND 0xC0000000 = (w AND 2 ^ 31) OR (w AND 2 ^ 30)" by (simp add: bit.conj_disj_distrib [symmetric])
  then show ?thesis using assms m [of 31] m [of 30] by (auto split: if_splits)
qed

text \<open>Any other datagram leaves the reassembly and the last sequence number as they are.\<close>

lemma recv_other_pend:
  assumes ok: "rx_ok nv nb rt RRecv d" and rl: "rt_rl rt = None" and dg: "\<not> is_data dg"
    and step: "reader_recv oneonly (Recv dg) now rt = Inr (rt', ph')"
  shows "ph' = RTop" "rx_of (rt_eg rt') (rt_m rt') = rx_of (rt_eg rt) (rt_m rt)" "rt_rl rt' = None"
    "ack_last (rt_ack rt') = ack_last (rt_ack rt)"
proof -
  obtain n eg1 where recv: "tbuf_recv (rt_tbuf rt) dg (rt_eg rt) = (n, eg1)" by fastforce
  note rx = recv_x [OF ok recv]
  from step recv obtain go rt1 where adm: "read_tfs_admit n now (rt\<lparr>rt_eg := eg1\<rparr>) = Inr (go, rt1)"
    and dis: "(if go then reader_dispatch oneonly n rt1 else Inr (rt1, RTop)) = Inr (rt', ph')"
    by (auto simp: reader_recv_def res_simps)
  have go: "go \<longleftrightarrow> 8 \<le> n" "go \<Longrightarrow> rt1 = rt\<lparr>rt_eg := eg1\<rparr>" "\<not> go \<Longrightarrow> rt1 = rt\<lparr>rt_eg := eg1\<rparr> \<or> rt1 = rt_drop (rt\<lparr>rt_eg := eg1\<rparr>)"
    using adm rl by (auto simp: read_tfs_admit_def split: if_splits)
  have "ph' = RTop \<and> rx_of (rt_eg rt') (rt_m rt') = rx_of (rt_eg rt) (rt_m rt) \<and> rt_rl rt' = None \<and>
    ack_last (rt_ack rt') = ack_last (rt_ack rt)"
  proof (cases go)
    case False
    with dis go(3) rx(8) rl show ?thesis by (auto simp: rt_drop_def)
  next
    case True
    let ?eg2 = "eg_put (rt_tbuf rt) ((eg_mbuf eg1 (rt_tbuf rt))\<lparr>mb_end := mb_start (eg_mbuf eg1 (rt_tbuf rt)) + n\<rparr>) eg1"
    have n: "8 \<le> n" "8 \<le> length dg" "n \<le> length dg" using True go(1) rx(6) by simp_all
    have wf: "mbuf_wf (eg_mbuf ?eg2 (rt_tbuf rt))" using xinvD(3) [OF rx(3)] by simp
    have "get32 (mb_space (eg_mbuf ?eg2 (rt_tbuf rt))) (mb_start (eg_mbuf ?eg2 (rt_tbuf rt)) + 4) = get32 (take n dg) 4"
      using mbuf_get32 [OF wf, of 4] rx(7) n by (simp add: rest_def)
    also have "\<dots> = get32 dg 4" using n by (simp add: get32_def nth_append)
    finally have off: "get32 (mb_space (eg_mbuf ?eg2 (rt_tbuf rt))) (mb_start (eg_mbuf ?eg2 (rt_tbuf rt)) + 4) AND 0xC0000000 \<noteq> 0"
      using dg n by (simp add: is_data_def)
    let ?rt2 = "rt_received n (rt\<lparr>rt_eg := eg1\<rparr>)"
    have 2: "rt_eg ?rt2 = ?eg2" "rt_m ?rt2 = rt_m rt" "rt_rl ?rt2 = None" "rt_ack ?rt2 = rt_ack rt"
      using rl by (simp_all add: rt_received_def)
    from dis True go(2) have "reader_dispatch oneonly n (rt\<lparr>rt_eg := eg1\<rparr>) = Inr (rt', ph')" by simp
    then have "(\<exists>fb. rt' = ?rt2\<lparr>rt_fb := fb\<rparr> \<and> ph' = RTop) \<or> rt' = rt_drop ?rt2 \<and> ph' = RTop"
      using version_bits [OF off] unfolding reader_dispatch_def Let_def rt_received_def [symmetric]
      by (auto simp: bindE_eq_Inr split: if_splits)
    with 2 rx(5) show ?thesis by (auto simp: rt_drop_def)
  qed
  then show "ph' = RTop" "rx_of (rt_eg rt') (rt_m rt') = rx_of (rt_eg rt) (rt_m rt)" "rt_rl rt' = None"
    "ack_last (rt_ack rt') = ack_last (rt_ack rt)" by blast+
qed

end
