(* ===== verification/RxProps.thy ===== *)
theory RxProps
  imports RxPhases
begin

text \<open>
  The steps of the interface writer, and the properties of interleaved runs of the receiving side.
\<close>

section \<open>Steps of the writer\<close>

definition tb_same :: "nat option \<Rightarrow> egress \<Rightarrow> egress \<Rightarrow> bool" where
  "tb_same own eg eg' \<longleftrightarrow> (\<forall>tb. own = Some tb \<longrightarrow> mb_start (eg_mbuf eg' tb) = mb_start (eg_mbuf eg tb) \<and>
     mb_end (eg_mbuf eg' tb) = mb_end (eg_mbuf eg tb) \<and> mb_space (eg_mbuf eg' tb) = mb_space (eg_mbuf eg tb))"

lemma tb_same_rest: "tb_same (Some tb) eg eg' \<Longrightarrow> rest eg' tb = rest eg tb"
  by (simp add: tb_same_def rest_def mbuf_bytes_def)

lemma tb_same_mbuf: "eg_mbuf eg' = eg_mbuf eg \<Longrightarrow> tb_same own eg eg'"
  by (simp add: tb_same_def)

text \<open>What the reader relies on is untouched.\<close>

lemma phase_ok_kept:
  assumes ok: "phase_ok nv rt ph d" and tb: "tb_same (own_of ph (rt_tbuf rt)) (rt_eg rt) eg'"
    and lr: "ph = RRecv \<Longrightarrow> lrefs nv eg' (wr_torn d') (rt_tbuf rt) \<le> lrefs nv (rt_eg rt) (wr_torn d) (rt_tbuf rt)"
  shows "phase_ok nv (rt\<lparr>rt_eg := eg'\<rparr>) ph d'"
proof (cases "ph = RPop")
  case False
  then have tb': "tb_same (Some (rt_tbuf rt)) (rt_eg rt) eg'" using tb by (simp add: own_of_def)
  have "ph = RRecv \<Longrightarrow> idle_mbuf HDRSPACE (eg_mbuf eg' (rt_tbuf rt))"
    using ok tb' by (simp add: phase_ok_def Let_def tb_same_def idle_mbuf_def)
  then show ?thesis
    using ok lr tb_same_rest [OF tb'] by (cases ph) (auto simp: phase_ok_def Let_def split: if_splits)
qed (simp add: phase_ok_def)

lemma pend_kept:
  assumes tb: "tb_same (own_of ph (rt_tbuf rt)) (rt_eg rt) eg'" and rx: "rx_of eg' (rt_m rt) = rx_of (rt_eg rt) (rt_m rt)"
  shows "pend (rt\<lparr>rt_eg := eg'\<rparr>) ph = pend rt ph"
proof (cases "ph = RPop")
  case False
  then have "rest eg' (rt_tbuf rt) = rest (rt_eg rt) (rt_tbuf rt)" using tb by (intro tb_same_rest) (simp add: own_of_def)
  with rx show ?thesis by (cases ph) (simp_all add: pend_def Let_def)
qed (simp add: pend_def Let_def rx)

definition drained :: "nat \<Rightarrow> nat \<Rightarrow> rtfs \<Rightarrow> rphase \<Rightarrow> dphase \<Rightarrow> bytes option \<Rightarrow> egress \<Rightarrow> dphase \<Rightarrow> bool" where
  "drained nv nb rt ph d x eg d' \<longleftrightarrow>
     rx_ok nv nb (rt\<lparr>rt_eg := eg\<rparr>) ph d' \<and> pend (rt\<lparr>rt_eg := eg\<rparr>) ph = pend rt ph \<and>
     mset (emitted x) + mset (fly eg d') = mset (fly (rt_eg rt) d)"

lemma drain_pop_ok:
  assumes ok: "rx_ok nv nb rt ph DIdle" and pop: "miovq_pop (eg_outq (rt_eg rt)) = Inr (v, q)"
  shows "drained nv nb rt ph DIdle None ((rt_eg rt)\<lparr>eg_outq := q\<rparr>) (DHold v)"
proof -
  let ?eg = "rt_eg rt" and ?eg' = "(rt_eg rt)\<lparr>eg_outq := q\<rparr>"
  have inv: "xinv nv nb (own_of ph (rt_tbuf rt)) ?eg (rt_m rt) None (rd_torn ph (rt_m rt))" using rx_okD(1) [OF ok] by simp
  note x = xinv_drain_pop [OF inv pop]
  have mi: "eg_miov ?eg' = eg_miov ?eg" "eg_mbuf ?eg' = eg_mbuf ?eg" by (simp_all add: eg_miov_def eg_mbuf_def fun_eq_iff)
  have same: "same_spaces ?eg ?eg'" by (simp add: same_spaces_def mi)
  note tb = tb_same_mbuf [OF mi(2)]
  have "lrefs nv ?eg' (wr_torn (DHold v)) a = lrefs nv ?eg (wr_torn DIdle) a" for a
    unfolding lrefs_def live_def wr_torn_def mi by simp
  then have "phase_ok nv (rt\<lparr>rt_eg := ?eg'\<rparr>) ph (DHold v)" using phase_ok_kept [OF rx_okD(2) [OF ok] tb] by simp
  moreover have "pend (rt\<lparr>rt_eg := ?eg'\<rparr>) ph = pend rt ph" by (rule pend_kept [OF tb rx_of_same [OF same mi(1)]])
  moreover have "fly ?eg' (DHold v) = fly ?eg DIdle" by (simp add: fly_def x(2) mi miov_bytes_same [OF same])
  ultimately show ?thesis using x(1) by (simp add: drained_def rx_ok_def)
qed

lemma drain_write_ok:
  assumes ok: "rx_ok nv nb rt ph (DHold v)"
  shows "drained nv nb rt ph (DHold v) (Some (miov_bytes (rt_eg rt) (eg_miov (rt_eg rt) v))) (rt_eg rt)
    (DDrop v (miov_refs (eg_miov (rt_eg rt) v)))"
proof -
  let ?eg = "rt_eg rt" and ?d = "DDrop v (miov_refs (eg_miov (rt_eg rt) v))"
  have inv: "xinv nv nb (own_of ph (rt_tbuf rt)) ?eg (rt_m rt) (Some v) (rd_torn ph (rt_m rt))" using rx_okD(1) [OF ok] by simp
  have T: "rd_torn ph (rt_m rt) v = None"
    using rd_torn_held [of ph "rt_m rt" v] xinvD(10) [OF inv, of v] by (cases "rd_torn ph (rt_m rt) v") auto
  have "lrefs nv ?eg (wr_torn ?d) a = lrefs nv ?eg (wr_torn (DHold v)) a" for a
    by (simp add: lrefs_def) (rule sum.cong, auto simp: live_def wr_torn_def)
  then have "phase_ok nv (rt\<lparr>rt_eg := ?eg\<rparr>) ph ?d"
    using phase_ok_kept [OF rx_okD(2) [OF ok], of ?eg ?d] tb_same_mbuf [OF refl] by simp
  with xinv_tear [OF inv T] T show ?thesis by (simp add: drained_def rx_ok_def torn_drop fly_def)
qed

lemma drain_deref_ok:
  assumes ok: "rx_ok nv nb rt ph (DDrop v (a # as))"
  shows "\<exists>eg. eg_deref a (rt_eg rt) = Inr eg \<and> drained nv nb rt ph (DDrop v (a # as)) None eg (DDrop v as)"
proof -
  let ?eg = "rt_eg rt" and ?T = "rd_torn ph (rt_m rt)" and ?own = "own_of ph (rt_tbuf rt)"
  have v: "v \<notin> set (held (rt_m rt))" using xinvD(10) [OF rx_okD(1) [OF ok], of v] by simp
  then have T: "?T v = None" using rd_torn_held [of ph "rt_m rt" v] by (cases "?T v") auto
  have inv: "xinv nv nb ?own ?eg (rt_m rt) (Some v) (?T(v \<mapsto> a # as))" using rx_okD(1) [OF ok] by (simp add: torn_drop T)
  from xinv_deref [OF inv] obtain eg where eg: "eg_deref a ?eg = Inr eg"
    "xinv nv nb ?own eg (rt_m rt) (Some v) (?T(v \<mapsto> as))" "same_spaces ?eg eg" "eg_miov eg = eg_miov ?eg"
    "eg_outq eg = eg_outq ?eg"
    and own: "\<forall>tb. ?own = Some tb \<longrightarrow> mb_start (eg_mbuf eg tb) = mb_start (eg_mbuf ?eg tb) \<and>
       mb_end (eg_mbuf eg tb) = mb_end (eg_mbuf ?eg tb)"
    and le: "\<And>x. lrefs nv eg (?T(v \<mapsto> as)) x \<le> lrefs nv ?eg (?T(v \<mapsto> a # as)) x" by blast
  have tb: "tb_same ?own ?eg eg" using own eg(3) by (simp add: tb_same_def same_spaces_def)
  have "lrefs nv eg (wr_torn (DDrop v as)) (rt_tbuf rt) \<le> lrefs nv ?eg (wr_torn (DDrop v (a # as))) (rt_tbuf rt)" if "ph = RRecv"
    using le [of "rt_tbuf rt"] that by (simp add: wr_torn_def rd_torn_def)
  from phase_ok_kept [OF rx_okD(2) [OF ok] tb this] have "phase_ok nv (rt\<lparr>rt_eg := eg\<rparr>) ph (DDrop v as)" .
  moreover have "pend (rt\<lparr>rt_eg := eg\<rparr>) ph = pend rt ph" by (rule pend_kept [OF tb rx_of_same [OF eg(3,4)]])
  ultimately show ?thesis
    using eg(1,2) out_bytes_same [OF eg(3-5)]
    by (intro exI [of _ eg]) (simp add: drained_def rx_ok_def torn_drop T fly_def)
qed

lemma drain_put_ok:
  assumes ok: "rx_ok nv nb rt ph (DDrop v [])"
  shows "\<exists>x q. miovq_put (eg_iovfreeq (rt_eg rt)) v = Inr (x, q) \<and>
    drained nv nb rt ph (DDrop v []) None ((eg_clear v (rt_eg rt))\<lparr>eg_iovfreeq := q\<rparr>) DIdle"
proof -
  let ?eg = "rt_eg rt" and ?T = "rd_torn ph (rt_m rt)" and ?own = "own_of ph (rt_tbuf rt)" and ?eg1 = "eg_clear v (rt_eg rt)"
  have v: "v \<notin> set (held (rt_m rt))" using xinvD(10) [OF rx_okD(1) [OF ok], of v] by simp
  then have T: "?T v = None" and m: "rt_m rt \<noteq> Some v" using rd_torn_held [of ph "rt_m rt" v] by (cases "?T v"; auto)+
  have inv: "xinv nv nb ?own ?eg (rt_m rt) (Some v) (?T(v \<mapsto> []))" using rx_okD(1) [OF ok] by (simp add: torn_drop T)
  note cl = xinv_clear [OF inv T]
  have "miov_clean (eg_miov ?eg1 v)" by simp
  from xinv_drain_put [OF cl(1) T this] obtain x q where q: "miovq_put (eg_iovfreeq ?eg1) v = Inr (x, q)"
    "xinv nv nb ?own (?eg1\<lparr>eg_iovfreeq := q\<rparr>) (rt_m rt) None ?T" "out_bytes (?eg1\<lparr>eg_iovfreeq := q\<rparr>) = out_bytes ?eg1"
    "rx_of (?eg1\<lparr>eg_iovfreeq := q\<rparr>) (rt_m rt) = rx_of ?eg1 (rt_m rt)" by blast
  let ?eg2 = "?eg1\<lparr>eg_iovfreeq := q\<rparr>"
  have mi: "eg_miov ?eg2 = eg_miov ?eg1" "eg_mbuf ?eg2 = eg_mbuf ?eg" by (simp_all add: eg_miov_def eg_mbuf_def fun_eq_iff eg_clear_def)
  note tb = tb_same_mbuf [OF mi(2)]
  have "lrefs nv ?eg2 (wr_torn DIdle) a = lrefs nv ?eg (wr_torn (DDrop v [])) a" for a
    by (simp add: lrefs_def) (rule sum.cong, auto simp: live_def wr_torn_def mi miov_refs_def)
  then have "phase_ok nv (rt\<lparr>rt_eg := ?eg2\<rparr>) ph DIdle" using phase_ok_kept [OF rx_okD(2) [OF ok] tb] by simp
  moreover have "rx_of ?eg2 (rt_m rt) = rx_of ?eg (rt_m rt)" using q(4) cl(4) [OF m] by simp
  then have "pend (rt\<lparr>rt_eg := ?eg2\<rparr>) ph = pend rt ph" by (rule pend_kept [OF tb])
  moreover have "fly ?eg2 DIdle = fly ?eg (DDrop v [])" using q(3) cl(2) by (simp add: fly_def)
  ultimately show ?thesis using q(1,2) by (simp add: drained_def rx_ok_def)
qed

text \<open>The writer waits when nothing is queued; otherwise its step succeeds.\<close>

lemma drain_ok:
  assumes ok: "rx_ok nv nb rt ph d"
  shows "d = DIdle \<and> out_list (rt_eg rt) = [] \<and> drain_step (rt_eg rt) d = Inl Blocked \<or>
    (\<exists>x eg d'. drain_step (rt_eg rt) d = Inr (x, eg, d') \<and> drained nv nb rt ph d x eg d')"
proof -
  have fq: "vq_freeq (eg_iovfreeq (rt_eg rt))" and okq: "miovq_ok (eg_outq (rt_eg rt))"
    using xinvD(1,6) [OF rx_okD(1) [OF ok]] by (auto simp: eg_inv_def)
  show ?thesis
  proof (cases d)
    case DIdle
    show ?thesis
    proof (cases "out_list (rt_eg rt) = []")
      case True
      then have "miovq_pop (eg_outq (rt_eg rt)) = Inl Blocked" using okq
        by (auto simp: out_list_def miovq_abs_defs miovq_pop_def)
      then show ?thesis using True DIdle by (simp add: drain_step_def)
    next
      case False
      with miovq_pop_top [OF okq] obtain v q where "miovq_pop (eg_outq (rt_eg rt)) = Inr (v, q)" by (auto simp: out_list_def)
      with drain_pop_ok [OF ok [unfolded DIdle] this] DIdle show ?thesis by (simp add: drain_step_def)
    qed
  next
    case (DHold v)
    have "iov_gather (eg_mem (rt_eg rt)) (take (mi_niov (eg_miov (rt_eg rt) v)) (mi_iov (eg_miov (rt_eg rt) v))) =
        miov_bytes (rt_eg rt) (eg_miov (rt_eg rt) v)" by (simp add: iov_gather_bytes miov_bytes_def)
    with drain_write_ok [OF ok [unfolded DHold]] DHold fq show ?thesis by (simp add: drain_step_def Let_def)
  next
    case (DDrop v as)
    show ?thesis
    proof (cases as)
      case Nil
      with drain_put_ok [OF ok [unfolded DDrop Nil]] DDrop fq show ?thesis by (auto simp: drain_step_def)
    next
      case (Cons a bs)
      with drain_deref_ok [OF ok [unfolded DDrop Cons]] DDrop show ?thesis by (auto simp: drain_step_def)
    qed
  qed
qed

section \<open>Steps and runs\<close>

definition rx_inv :: "nat \<Rightarrow> nat \<Rightarrow> rx_fine \<Rightarrow> bool" where
  "rx_inv nv nb s \<longleftrightarrow> rx_ok nv nb (rf_rt s) (rf_reader s) (rf_writer s)"

lemma read_ok:
  assumes ok: "rx_ok nv nb rt ph d" and step: "reader_step oneonly now rt ph = Inr (pkt, rt', ph')"
  shows "rx_ok nv nb rt' ph' d" "carried rt ph rt' ph' d" "rt_rl rt' = rt_rl rt"
    "ack_last (rt_ack rt') = 0 \<or> ack_last (rt_ack rt') = ack_last (rt_ack rt)"
proof -
  have "rx_ok nv nb rt' ph' d \<and> carried rt ph rt' ph' d \<and> rt_rl rt' = rt_rl rt \<and>
    (ack_last (rt_ack rt') = 0 \<or> ack_last (rt_ack rt') = ack_last (rt_ack rt))"
  proof (cases ph)
    case RTop
    with step top_ok [OF ok [unfolded RTop]] show ?thesis by (simp add: reader_step_def)
  next
    case RPop
    with step pop_ok [OF ok [unfolded RPop]] show ?thesis by (auto simp: reader_step_def res_simps)
  next
    case RRecv
    with step show ?thesis by (simp add: reader_step_def)
  next
    case (RReset as)
    show ?thesis
    proof (cases as)
      case Nil
      obtain v where v: "rt_m rt = Some v"
        using rx_okD(2) [OF ok] RReset by (auto simp: phase_ok_def Let_def)
      from step RReset Nil v have "rt' = rt\<lparr>rt_eg := eg_clear v (rt_eg rt)\<rparr>" "ph' = RCall True"
        by (simp_all add: reader_step_def)
      with reset_end_ok [OF ok [unfolded RReset Nil] v] RReset Nil show ?thesis by simp
    next
      case (Cons a bs)
      from step RReset Cons reset_one_ok [OF ok [unfolded RReset Cons]] show ?thesis
        by (auto simp: reader_step_def)
    qed
  next
    case (RCall new)
    from step RCall obtain v off tlen eg where e: "atip_enter (rt_tbuf rt) new (rt_m rt) (rt_eg rt) = Inr (v, off, tlen, eg)"
      "rt' = rt\<lparr>rt_m := Some v, rt_eg := eg\<rparr>" "ph' = RBody v off tlen" by (auto simp: reader_step_def res_simps)
    from call_ok [OF ok [unfolded RCall] e(1)] e RCall show ?thesis by simp
  next
    case (RBody v off tlen)
    from step RBody obtain e eg where e: "atip_round (rt_tbuf rt) v off tlen (rt_eg rt) = Inr (e, eg)"
      "(rt', ph') = (case e of Done m' \<Rightarrow> (rt\<lparr>rt_m := m', rt_eg := eg\<rparr>, RTop) | Recurse \<Rightarrow> (rt\<lparr>rt_m := None, rt_eg := eg\<rparr>, RCall False))"
      by (auto simp: reader_step_def res_simps)
    from body_ok [OF ok [unfolded RBody] e(1)] e(2) RBody show ?thesis by (cases e) simp_all
  qed
  then show "rx_ok nv nb rt' ph' d" "carried rt ph rt' ph' d" "rt_rl rt' = rt_rl rt"
    "ack_last (rt_ack rt') = 0 \<or> ack_last (rt_ack rt') = ack_last (rt_ack rt)" by blast+
qed

lemma rx_step_inv:
  assumes "rx_step oneonly s e ws s'" "rx_inv nv nb s"
  shows "rx_inv nv nb s'"
  using assms(1)
proof cases
  case (x_read now pkt rt ph)
  from read_ok(1) [OF _ x_read(4)] assms(2) x_read(3) show ?thesis by (simp add: rx_inv_def)
next
  case (x_recv r now rt ph)
  from recv_ok(1) [OF _ x_recv(5)] assms(2) x_recv(3,4) show ?thesis by (simp add: rx_inv_def)
next
  case (x_write d eg ph)
  from drain_ok [OF assms(2) [unfolded rx_inv_def]] x_write show ?thesis by (auto simp: rx_inv_def drained_def)
qed

lemma rx_run_inv:
  assumes "rx_fine_run oneonly s es ws s'" "rx_inv nv nb s"
  shows "rx_inv nv nb s'"
  using assms by (induction rule: rx_fine_run.induct) (auto dest: rx_step_inv)

text \<open>The datagrams that arrive in a run.\<close>

definition arrived :: "rx_event list \<Rightarrow> bytes list" where
  "arrived es = concat (map (\<lambda>r. case r of Recv d \<Rightarrow> [d] | RecvErr \<Rightarrow> []) (arrivals es))"

lemma arrived_simps [simp]:
  "arrived [] = []" "arrived (XRecv (Recv d) now # es) = d # arrived es" "arrived (XRecv RecvErr now # es) = arrived es"
  "arrived (XRead now # es) = arrived es" "arrived (XWrite # es) = arrived es"
  by (simp_all add: arrived_def)

text \<open>Those among them that are data packets.\<close>

definition data_arrived :: "rx_event list \<Rightarrow> bytes list" where
  "data_arrived es = filter is_data (arrived es)"

lemma data_arrived_simps [simp]:
  "data_arrived [] = []" "data_arrived (XRecv RecvErr now # es) = data_arrived es"
  "data_arrived (XRecv (Recv d) now # es) = (if is_data d then d # data_arrived es else data_arrived es)"
  "data_arrived (XRead now # es) = data_arrived es" "data_arrived (XWrite # es) = data_arrived es"
  by (simp_all add: data_arrived_def)

lemma is_data_wire: "is_data (wire p)"
  by (cases p) (simp add: wire_def is_data_tfs_bytes)

lemma data_arrived_wire: "arrived es = map wire pkts \<Longrightarrow> data_arrived es = map wire pkts"
  using is_data_wire by (auto simp: data_arrived_def intro: filter_True)

lemma arrived_turns:
  "arrivals fs = concat (map (\<lambda>e. case e of Turn t1 r t2 \<Rightarrow> [r] | WriteIntf \<Rightarrow> []) es) \<Longrightarrow> arrived fs = datagrams es"
proof -
  have "concat (map (\<lambda>r. case r of Recv d \<Rightarrow> [d] | RecvErr \<Rightarrow> [])
      (concat (map (\<lambda>e. case e of Turn t1 r t2 \<Rightarrow> [r] | WriteIntf \<Rightarrow> []) es))) = datagrams es"
    by (induction es rule: datagrams.induct) simp_all
  then show "arrivals fs = concat (map (\<lambda>e. case e of Turn t1 r t2 \<Rightarrow> [r] | WriteIntf \<Rightarrow> []) es) \<Longrightarrow> ?thesis"
    by (simp add: arrived_def)
qed

section \<open>What a run writes\<close>

text \<open>The specification of the rest of a run: the tunnel packet being worked on, then the packets to come.\<close>

definition spec_run :: "rx_fine \<Rightarrow> (nat \<times> bytes) list \<Rightarrow> (bytes list \<times> rx) res" where
  "spec_run s ps =
     bindE (pend (rf_rt s) (rf_reader s)) (\<lambda>(ds, r). bindE (rx_run ps r) (\<lambda>(es, r'). Inr (ds @ es, r')))"

definition in_hand :: "rx_fine \<Rightarrow> bytes list" where
  "in_hand s = fly (rt_eg (rf_rt s)) (rf_writer s)"

text \<open>A run that has written \<open>ws\<close> agrees with the specification.\<close>

definition agrees :: "rx_fine \<Rightarrow> (nat \<times> bytes) list \<Rightarrow> bytes list \<Rightarrow> rx_fine \<Rightarrow> bool" where
  "agrees s ps ws s' \<longleftrightarrow>
     (case pend (rf_rt s') (rf_reader s') of
        Inl e \<Rightarrow> spec_run s ps = Inl e
      | Inr (ds', r) \<Rightarrow> \<exists>ds. spec_run s ps = Inr (ds, r) \<and> mset ws + mset (in_hand s') + mset ds' = mset (in_hand s) + mset ds)"

lemma agrees_refl: "agrees s [] [] s"
  by (cases "pend (rf_rt s) (rf_reader s)") (auto simp: agrees_def spec_run_def)

lemma agrees_cons:
  assumes a: "agrees s1 ps1 vs s'"
    and Inl: "\<And>e. spec_run s1 ps1 = Inl e \<Longrightarrow> spec_run s ps = Inl e"
    and Inr: "\<And>ds r. spec_run s1 ps1 = Inr (ds, r) \<Longrightarrow>
      \<exists>ds0. spec_run s ps = Inr (ds0, r) \<and> mset ws + mset (in_hand s1) + mset ds = mset (in_hand s) + mset ds0"
  shows "agrees s ps (ws @ vs) s'"
proof (cases "pend (rf_rt s') (rf_reader s')")
  case (Inl e)
  then show ?thesis using a assms(2) by (simp add: agrees_def)
next
  case p: (Inr x)
  obtain ds' r where x: "x = (ds', r)" by fastforce
  with a p obtain ds where 1: "spec_run s1 ps1 = Inr (ds, r)"
    "mset vs + mset (in_hand s') + mset ds' = mset (in_hand s1) + mset ds" by (auto simp: agrees_def)
  from Inr [OF 1(1)] obtain ds0 where 2: "spec_run s ps = Inr (ds0, r)"
    "mset ws + mset (in_hand s1) + mset ds = mset (in_hand s) + mset ds0" by blast
  have "mset (ws @ vs) + mset (in_hand s') + mset ds' = mset ws + (mset vs + mset (in_hand s') + mset ds')" by simp
  also have "\<dots> = mset (in_hand s) + mset ds0" unfolding 1(2) using 2(2) by (simp add: ac_simps)
  finally show ?thesis using 2(1) by (simp add: agrees_def p x)
qed

lemma spec_run_carried:
  assumes "carried rt ph rt' ph' d" and s: "rf_rt s = rt" "rf_reader s = ph" "rf_writer s = d"
    and s1: "rf_rt s1 = rt'" "rf_reader s1 = ph'" "rf_writer s1 = d" and a: "agrees s1 ps vs s'"
  shows "agrees s ps vs s'"
proof -
  have "agrees s ps ([] @ vs) s'"
  proof (rule agrees_cons [OF a])
    fix e assume e: "spec_run s1 ps = Inl e"
    show "spec_run s ps = Inl e"
      using assms(1) e s s1 by (cases "pend rt' ph'") (auto simp: carried_def spec_run_def bindE_def split: sum.splits)
  next
    fix ds r assume r: "spec_run s1 ps = Inr (ds, r)"
    then obtain ds1 r1 es where 1: "pend rt' ph' = Inr (ds1, r1)" "rx_run ps r1 = Inr (es, r)" "ds = ds1 @ es"
      using s1 by (auto simp: spec_run_def res_simps)
    with assms(1) obtain ds0 where 0: "pend rt ph = Inr (ds0, r1)"
      "mset (fly (rt_eg rt') d) + mset ds1 = mset (fly (rt_eg rt) d) + mset ds0" by (auto simp: carried_def)
    have "mset [] + mset (in_hand s1) + mset ds = mset (in_hand s) + mset (ds0 @ es)"
      using 0(2) s s1 1(3) by (simp add: in_hand_def add.assoc [symmetric])
    then show "\<exists>ds0. spec_run s ps = Inr (ds0, r) \<and> mset [] + mset (in_hand s1) + mset ds = mset (in_hand s) + mset ds0"
      using 0(1) 1(2) s by (intro exI [of _ "ds0 @ es"]) (simp add: spec_run_def)
  qed
  then show ?thesis by simp
qed

lemma rx_fine_run_spec:
  assumes "rx_fine_run oneonly s es ws s'" "rx_inv nv nb s" "rt_rl (rf_rt s) = None"
    and "data_arrived es = map wire pkts" "consecutive k pkts"
    and "ack_last (rt_ack (rf_rt s)) = 0 \<or> ack_last (rt_ack (rf_rt s)) + 1 = k"
  shows "agrees s (map framed pkts) ws s'"
  using assms
proof (induction arbitrary: pkts k rule: rx_fine_run.induct)
  case (x_done s)
  then show ?case by (simp add: agrees_refl)
next
  case (x_more s e ws s1 es vs s2)
  have inv1: "rx_inv nv nb s1" by (rule rx_step_inv [OF x_more.hyps(1) x_more.prems(1)])
  note ok = x_more.prems(1) [unfolded rx_inv_def]
  from x_more.hyps(1) show ?case
  proof cases
    case (x_read now pkt rt ph)
    note r = read_ok [OF ok x_read(4)]
    from x_more.IH [OF inv1 _ _ x_more.prems(4)] x_more.prems(2,3,5) r(3,4) x_read have
      "agrees s1 (map framed pkts) vs s2" by auto
    from spec_run_carried [OF r(2) refl refl refl _ _ _ this] x_read show ?thesis by simp
  next
    case (x_recv i now rt ph)
    have p: "pend (rf_rt s) (rf_reader s) = Inr ([], rx_of (rt_eg (rf_rt s)) (rt_m (rf_rt s)))"
      using x_recv(4) by (simp add: pend_def Let_def)
    note ok' = ok [unfolded x_recv(4)]
    have h: "in_hand s1 = in_hand s" using recv_ok(2) [OF ok' x_recv(5)] x_recv(3) by (simp add: in_hand_def)
    show ?thesis
    proof (cases i)
      case RecvErr
      then have "rt = rf_rt s" "ph = RTop" using x_recv(5) by (simp_all add: reader_recv_def)
      then have s1: "rf_rt s1 = rf_rt s" "rf_reader s1 = RTop" using x_recv(3) by simp_all
      from x_more.IH [OF inv1 _ _ x_more.prems(4)] x_more.prems(2,3,5) s1 x_recv(1) RecvErr have
        a: "agrees s1 (map framed pkts) vs s2" by simp
      have "spec_run s1 ps = spec_run s ps" for ps using s1 p by (simp add: spec_run_def pend_def Let_def)
      then show ?thesis unfolding x_recv(2) by (intro agrees_cons [OF a]) (simp_all add: h)
    next
      case d: (Recv d)
      show ?thesis
      proof (cases "is_data d")
        case False
        note 1 = recv_other_pend [OF ok' x_more.prems(2) False x_recv(5) [unfolded d]]
        have s1: "rf_rt s1 = rt" "rf_reader s1 = RTop" using x_recv(3) 1(1) by simp_all
        from x_more.IH [OF inv1 _ _ x_more.prems(4)] x_more.prems(2,3,5) s1 1 x_recv(1) d False have
          a: "agrees s1 (map framed pkts) vs s2" by simp
        have "spec_run s1 ps = spec_run s ps" for ps using s1 p 1(2) by (simp add: spec_run_def pend_def Let_def)
        then show ?thesis unfolding x_recv(2) by (intro agrees_cons [OF a]) (simp_all add: h)
      next
        case True
        with d x_more.prems(3) x_recv(1) obtain seq off dd ps where pk: "pkts = (seq, off, dd) # ps"
          "d = tfs_bytes seq off dd" "data_arrived es = map wire ps" by (cases pkts) (auto simp: wire_def)
        with x_more.prems(4) have c: "seq = k" "k \<noteq> 0" "dd \<noteq> []" "length dd \<le> MAXBUF - HDRSPACE - 8" "consecutive (k + 1) ps"
          by auto
        let ?ack = "rt_ack (rf_rt s)"
        have lt: "ack_last ?ack < seq" using x_more.prems(5) c(1,2) succ_less by (auto simp: word_gt_0)
        have nl: "\<not> lost_before seq ?ack" using x_more.prems(5) c(1) by (auto simp: lost_before_def)
        note 1 = recv_data_pend [OF ok' x_more.prems(2) c(3,4) lt x_recv(5) [unfolded d pk(2)]]
        have s1: "rf_rt s1 = rt" "rf_reader s1 = ph" using x_recv(3) by simp_all
        have "rt_rl (rf_rt s1) = None" "ack_last (rt_ack (rf_rt s1)) + 1 = k + 1" using 1 s1 c(1) by simp_all
        from x_more.IH [OF inv1 this(1) pk(3) c(5)] this(2) have a: "agrees s1 (map framed ps) vs s2" by blast
        have eq: "spec_run s1 (map framed ps) = spec_run s (map framed pkts)"
          using 1(1) nl p s1 by (simp add: spec_run_def pk(1) framed_def case_prod_unfold bindE_right)
        show ?thesis unfolding x_recv(2) by (rule agrees_cons [OF a]) (simp_all add: eq h)
      qed
    qed
  next
    case (x_write x eg d)
    from drain_ok [OF ok] x_write(4) have dr: "drained nv nb (rf_rt s) (rf_reader s) (rf_writer s) x eg d" by auto
    from x_more.IH [OF inv1 _ _ x_more.prems(4)] x_more.prems(2,3,5) x_write have
      a: "agrees s1 (map framed pkts) vs s2" by auto
    have sp: "spec_run s1 ps = spec_run s ps" for ps using dr x_write(3) by (simp add: spec_run_def drained_def)
    have h: "mset ws + mset (in_hand s1) = mset (in_hand s)"
      using dr x_write(2,3) by (simp add: in_hand_def drained_def)
    show ?thesis by (rule agrees_cons [OF a]) (simp_all add: sp h)
  qed
qed

end
