(* ===== verification/RxDelivery.thy ===== *)
theory RxDelivery
  imports RxProps
begin

text \<open>
  The properties of the receiving side when the steps of its two threads interleave in any way.
\<close>

section \<open>From set-up on\<close>

definition rx_begin :: "rtfs \<Rightarrow> rx_fine" where
  "rx_begin rt = \<lparr>rf_rt = rt, rf_reader = RTop, rf_writer = DIdle\<rparr>"

lemma rx_begin_simps [simp]:
  "rf_rt (rx_begin rt) = rt" "rf_reader (rx_begin rt) = RTop" "rf_writer (rx_begin rt) = DIdle"
  "pend rt RTop = Inr ([], rx_of (rt_eg rt) (rt_m rt))" "in_hand (rx_begin rt) = out_bytes (rt_eg rt)"
  by (simp_all add: rx_begin_def pend_def Let_def in_hand_def fly_def)

lemma rx_begin_inv: "rt_inv nv nb rt \<Longrightarrow> rx_inv nv nb (rx_begin rt)"
  using xinv_start [of nv nb "rt_eg rt" "rt_tbuf rt" "rt_m rt"]
  by (simp add: rx_inv_def rx_ok_def phase_ok_def rt_inv_def rd_torn_def)

lemma spec_run_begin: "spec_run (rx_begin rt) ps = rx_run ps (rx_of (rt_eg rt) (rt_m rt))"
  by (simp add: spec_run_def case_prod_unfold bindE_right)

lemma rx_run_agrees:
  assumes "rx_fine_run oneonly (rx_begin rt) es ws s" "rt_inv nv nb rt" "rt_rl rt = None"
    and "data_arrived es = map wire pkts" "consecutive k pkts"
    and "ack_last (rt_ack rt) = 0 \<or> ack_last (rt_ack rt) + 1 = k"
  shows "agrees (rx_begin rt) (map framed pkts) ws s"
  by (rule rx_fine_run_spec [OF assms(1) rx_begin_inv [OF assms(2)] _ assms(4,5)]) (use assms(3,6) in simp_all)

text \<open>The references to a buffer: the reader's own and those of the scatter lists that are not given back yet.\<close>

definition references :: "nat \<Rightarrow> rx_fine \<Rightarrow> nat \<Rightarrow> nat" where
  "references nv s =
     holders_x nv (own_of (rf_reader s) (rt_tbuf (rf_rt s))) (rt_eg (rf_rt s)) (torn (rf_reader s) (rt_m (rf_rt s)) (rf_writer s))"

text \<open>Where the scatter lists are: with the reader, with the writer, free, queued.\<close>

definition scatter_lists :: "rx_fine \<Rightarrow> nat list" where
  "scatter_lists s =
     held (rt_m (rf_rt s)) @ held (wr_held (rf_writer s)) @ free_list (rt_eg (rf_rt s)) @ out_list (rt_eg (rf_rt s))"

lemma rx_inv_counts:
  assumes "rx_inv nv nb s"
  shows "mb_refcnt (eg_mbuf (rt_eg (rf_rt s)) a) = word_of_nat (references nv s a)"
    "references nv s a < 2 ^ 32" "0 < references nv s a \<Longrightarrow> a < nb"
    "distinct (mqueue_contents (m_freeq (eg_mem (rt_eg (rf_rt s)))))"
    "set (mqueue_contents (m_freeq (eg_mem (rt_eg (rf_rt s))))) = {a. a < nb \<and> references nv s a = 0}"
    "distinct (scatter_lists s)" "set (scatter_lists s) \<subseteq> {..<nv}"
proof -
  note x = rx_okD(1) [OF assms [unfolded rx_inv_def]]
  from xinvD(4) [OF x] show "mb_refcnt (eg_mbuf (rt_eg (rf_rt s)) a) = word_of_nat (references nv s a)"
    "references nv s a < 2 ^ 32" "0 < references nv s a \<Longrightarrow> a < nb"
    "distinct (mqueue_contents (m_freeq (eg_mem (rt_eg (rf_rt s)))))"
    "set (mqueue_contents (m_freeq (eg_mem (rt_eg (rf_rt s))))) = {a. a < nb \<and> references nv s a = 0}"
    by (auto simp: pool_ok_mbufs references_def)
  show "distinct (scatter_lists s)" "set (scatter_lists s) \<subseteq> {..<nv}"
    using xinvD(1) [OF x] xinvD(10) [OF x] by (cases "wr_held (rf_writer s)"; auto simp: eg_inv_def scatter_lists_def)+
qed

section \<open>Properties\<close>

text \<open>C5: the receiving side counts its references right. After set-up over zeroed memory, whatever datagrams arrive
  and however the steps of the reader and the writer interleave: the count of every buffer is the number of references to it, also
  while a thread is giving back those of a scatter list; a buffer is in the free queue exactly when there is none; every
  scatter list is in one place; and the writer's next step succeeds, or nothing is queued and it waits.\<close>

theorem interleaved_receiver_counts_references:
  assumes "zeroed raw space slots rawm vslots oslots"
    and "\<forall>v. 0 < length (iovs v) \<and> length (iovs v) \<le> 2 ^ 20 \<and> length (ptrs v) = length (iovs v)"
    and "tfs_tunnel_egress tfsmtu raw space slots rawm iovs ptrs vslots oslots = Inr (eg, a1, a2)"
    and "read_tfs_start oneonly ack_ms congest now timer buf fb eg = Inr rt"
    and "rx_fine_run oneonly (rx_begin rt) es ws s"
  shows "(\<forall>a. mb_refcnt (eg_mbuf (rt_eg (rf_rt s)) a) = word_of_nat (references OUTERQSZ s a) \<and> references OUTERQSZ s a < 2 ^ 32) \<and>
    distinct (mqueue_contents (m_freeq (eg_mem (rt_eg (rf_rt s))))) \<and>
    set (mqueue_contents (m_freeq (eg_mem (rt_eg (rf_rt s))))) = {a. a < OUTERQSZ \<and> references OUTERQSZ s a = 0} \<and>
    distinct (scatter_lists s) \<and> set (scatter_lists s) \<subseteq> {..<OUTERQSZ} \<and>
    ((\<exists>r. drain_step (rt_eg (rf_rt s)) (rf_writer s) = Inr r) \<or>
     rf_writer s = DIdle \<and> out_list (rt_eg (rf_rt s)) = [] \<and> drain_step (rt_eg (rf_rt s)) (rf_writer s) = Inl Blocked)"
proof -
  have i: "rx_inv OUTERQSZ OUTERQSZ s"
    by (rule rx_run_inv [OF assms(5) rx_begin_inv [OF start_sys(1) [OF assms(1-4)]]])
  from rx_inv_counts [OF i] drain_ok [OF i [unfolded rx_inv_def]] show ?thesis by blast
qed

text \<open>C4: nothing is lost, invented or altered by the interleaving. When the data packets that arrive are consecutive,
  whatever reports and stray datagrams arrive between them, and no congestion limit is set,
  then at every step the inner packets written, those complete and still in hand, and those the reader has yet to cut
  out of the packet it works on are the ones that were in hand before and those that the framing specification
  cuts out of the packets; if the specification rejects the packet being worked on, it rejects the sequence.\<close>

theorem interleaved_receiver_delivers:
  assumes "rx_fine_run oneonly (rx_begin rt) es ws s" "rt_inv nv nb rt" "rt_rl rt = None"
    and "data_arrived es = map wire pkts" "consecutive k pkts"
    and "ack_last (rt_ack rt) = 0 \<or> ack_last (rt_ack rt) + 1 = k"
  shows "case pend (rf_rt s) (rf_reader s) of
     Inl e \<Rightarrow> rx_run (map framed pkts) (rx_of (rt_eg rt) (rt_m rt)) = Inl e
   | Inr (ds', r) \<Rightarrow> \<exists>ds. rx_run (map framed pkts) (rx_of (rt_eg rt) (rt_m rt)) = Inr (ds, r) \<and>
       mset ws + mset (in_hand s) + mset ds' = mset (out_bytes (rt_eg rt)) + mset ds"
  using rx_run_agrees [OF assms] unfolding agrees_def spec_run_begin rx_begin_simps .

text \<open>A run in which the writer has taken the inner packet and not yet written it.\<close>

lemma hold_demo:
  "\<exists>rt es s. start_demo = Inr rt \<and> rt_inv OUTERQSZ OUTERQSZ rt \<and> rt_rl rt = None \<and> ack_last (rt_ack rt) = 0 \<and>
     rx_of (rt_eg rt) (rt_m rt) = RxIdle \<and> out_bytes (rt_eg rt) = [] \<and>
     rx_fine_run False (rx_begin rt) es [] s \<and> arrived es = [tfs_bytes 1 0 demo_payload] \<and>
     rf_reader s = RTop \<and> (\<exists>v. rf_writer s = DHold v)"
proof -
  from demo_run obtain rt rt' where r: "start_demo = Inr rt" "rt_inv OUTERQSZ OUTERQSZ rt" "rt_rl rt = None"
    "ack_last (rt_ack rt) = 0" "rx_of (rt_eg rt) (rt_m rt) = RxIdle" "out_bytes (rt_eg rt) = []"
    and run: "egress_run False rt [Turn (Timespec 1 500) (Recv (tfs_bytes 1 0 demo_payload)) (Timespec 1 600), WriteIntf]
       [[0x45, 0, 0, 7, 10, 20, 30]] rt'" by blast
  from run obtain pkt rt1 w eg where
    turn: "read_tfs_step False (Timespec 1 500) (Recv (tfs_bytes 1 0 demo_payload)) (Timespec 1 600) rt = Inr (pkt, rt1)"
    and wr: "write_intf_step (rt_eg rt1) = Inr (w, eg)"
    by (elim run_ConsE turnE wrtE) blast
  from read_turn_run [OF turn, of DIdle] obtain es where
    es: "rx_fine_run False (rx_begin rt) es [] (rx_begin rt1)" "arrivals es = [Recv (tfs_bytes 1 0 demo_payload)]"
    unfolding rx_begin_def by blast
  from wr obtain v q where pop: "miovq_pop (eg_outq (rt_eg rt1)) = Inr (v, q)" by (auto simp: write_intf_step_def res_simps)
  then have "drain_step (rt_eg rt1) DIdle = Inr (None, (rt_eg rt1)\<lparr>eg_outq := q\<rparr>, DHold v)" by (simp add: drain_step_def)
  from rx_fine_run_append [OF es(1) [unfolded rx_begin_def [of rt1]] write_one_rx [OF this, of False RTop]]
  have "rx_fine_run False (rx_begin rt) (es @ [XWrite]) []
      \<lparr>rf_rt = rt1\<lparr>rt_eg := (rt_eg rt1)\<lparr>eg_outq := q\<rparr>\<rparr>, rf_reader = RTop, rf_writer = DHold v\<rparr>" by simp
  moreover have "arrived (es @ [XWrite]) = [tfs_bytes 1 0 demo_payload]" using es(2) by (simp add: arrived_def)
  ultimately show ?thesis using r
    by (intro exI [of _ rt] exI [of _ "es @ [XWrite]"]
        exI [of _ "\<lparr>rf_rt = rt1\<lparr>rt_eg := (rt_eg rt1)\<lparr>eg_outq := q\<rparr>\<rparr>, rf_reader = RTop, rf_writer = DHold v\<rparr>"]) simp
qed

lemma hold_demo_hand:
  "\<exists>rt es s v. start_demo = Inr rt \<and> rx_fine_run False (rx_begin rt) es [] s \<and> rf_writer s = DHold v \<and>
     in_hand s = [[0x45, 0, 0, 7, 10, 20, 30]]"
proof -
  from hold_demo obtain rt es s v where 0: "start_demo = Inr rt" "rt_inv OUTERQSZ OUTERQSZ rt" "rt_rl rt = None"
    "ack_last (rt_ack rt) = 0" "rx_of (rt_eg rt) (rt_m rt) = RxIdle" "out_bytes (rt_eg rt) = []"
    "rx_fine_run False (rx_begin rt) es [] s" "arrived es = [tfs_bytes 1 0 demo_payload]" "rf_reader s = RTop" "rf_writer s = DHold v"
    by blast
  have "data_arrived es = map wire [(1, 0, demo_payload)]" "consecutive 1 [(1, 0, demo_payload)]"
    using 0(8) by (simp_all add: data_arrived_def is_data_tfs_bytes) (simp_all add: wire_def demo_payload_def const_defs)
  from rx_run_agrees [OF 0(7,2,3) this] have "in_hand s = [[0x45, 0, 0, 7, 10, 20, 30]]"
    unfolding agrees_def spec_run_begin using 0 demo_payload_rx by (auto simp: framed_def)
  with 0 show ?thesis by blast
qed

theorem interleaved_receiver_delivers_witness:
  "\<exists>rt es s v. start_demo = Inr rt \<and> rx_fine_run False (rx_begin rt) es [] s \<and> rf_writer s = DHold v \<and>
     in_hand s = [[0x45, 0, 0, 7, 10, 20, 30]] \<and> rx_of (rt_eg (rf_rt s)) (rt_m (rf_rt s)) = RxPartial [0x45, 0, 0, 9, 40] 4"
proof -
  from hold_demo obtain rt es s v where 0: "start_demo = Inr rt" "rt_inv OUTERQSZ OUTERQSZ rt" "rt_rl rt = None"
    "ack_last (rt_ack rt) = 0" "rx_of (rt_eg rt) (rt_m rt) = RxIdle" "out_bytes (rt_eg rt) = []"
    "rx_fine_run False (rx_begin rt) es [] s" "arrived es = [tfs_bytes 1 0 demo_payload]" "rf_reader s = RTop" "rf_writer s = DHold v"
    by blast
  have "data_arrived es = map wire [(1, 0, demo_payload)]" "consecutive 1 [(1, 0, demo_payload)]"
    using 0(8) by (simp_all add: data_arrived_def is_data_tfs_bytes) (simp_all add: wire_def demo_payload_def const_defs)
  from interleaved_receiver_delivers [OF 0(7,2,3) this] 0 demo_payload_rx
  have "in_hand s = [[0x45, 0, 0, 7, 10, 20, 30]]" "rx_of (rt_eg (rf_rt s)) (rt_m (rf_rt s)) = RxPartial [0x45, 0, 0, 9, 40] 4"
    by (auto simp: framed_def)
  with 0 show ?thesis by blast
qed

text \<open>The memory the example starts from.\<close>

lemma start_demo_parts:
  assumes "start_demo = Inr rt"
  shows "\<exists>raw space slots rawm iovs ptrs eg a d fb. zeroed raw space slots rawm slots slots \<and>
    (\<forall>v. length (iovs v) = 8 \<and> length (ptrs v) = 8) \<and>
    tfs_tunnel_egress 1500 raw space slots rawm iovs ptrs slots slots = Inr (eg, a, d) \<and>
    read_tfs_start False 1000 0 (Timespec 1 0) \<lparr>st_ts = Timespec 0 0, st_nsecs = 0\<rparr> ack_buffer fb eg = Inr rt"
proof -
  let ?slots = "replicate OUTERQSZ (0 :: nat)"
  let ?rawm = "\<lparr>mi_iov = [], mi_mbufs = [], mi_len = 0, mi_left = 0, mi_niov = 0, mi_maxiov = 0\<rparr>"
  let ?iovs = "\<lambda>_ :: nat. replicate 8 \<lparr>iov_base = PPad, iov_len = 0\<rparr>" and ?ptrs = "\<lambda>_ :: nat. replicate 8 (0 :: nat)"
  have "zeroed (\<lambda>_. mbuf_new 0 0) (replicate (OUTERQSZ * MAXBUF) 0) ?slots (\<lambda>_. ?rawm) ?slots ?slots"
    by (simp add: zeroed_def mbuf_new_def)
  moreover have "\<forall>v. length (?iovs v) = 8 \<and> length (?ptrs v) = 8" by simp
  moreover from assms obtain eg a d where
    "tfs_tunnel_egress 1500 (\<lambda>_. mbuf_new 0 0) (replicate (OUTERQSZ * MAXBUF) 0) ?slots (\<lambda>_. ?rawm) ?iovs ?ptrs ?slots ?slots
       = Inr (eg, a, d)"
    "read_tfs_start False 1000 0 (Timespec 1 0) \<lparr>st_ts = Timespec 0 0, st_nsecs = 0\<rparr> ack_buffer
       \<lparr>g_avgpps = Some a, g_avgdrops = Some d, g_pps = None\<rparr> eg = Inr rt"
    by (auto simp: start_demo_def res_simps)
  ultimately show ?thesis by (intro exI conjI)
qed

theorem interleaved_receiver_counts_references_witness:
  "\<exists>rt es s v. start_demo = Inr rt \<and> rx_fine_run False (rx_begin rt) es [] s \<and> rf_writer s = DHold v \<and>
     (\<exists>r. drain_step (rt_eg (rf_rt s)) (DHold v) = Inr r) \<and> distinct (scatter_lists s)"
proof -
  from hold_demo obtain rt es s v where 0: "start_demo = Inr rt" "rx_fine_run False (rx_begin rt) es [] s" "rf_writer s = DHold v"
    by blast
  from start_demo_parts [OF 0(1)] obtain raw space slots rawm iovs ptrs eg a d fb where
    p: "zeroed raw space slots rawm slots slots" "\<forall>v. length (iovs v) = 8 \<and> length (ptrs v) = 8"
    "tfs_tunnel_egress 1500 raw space slots rawm iovs ptrs slots slots = Inr (eg, a, d)"
    "read_tfs_start False 1000 0 (Timespec 1 0) \<lparr>st_ts = Timespec 0 0, st_nsecs = 0\<rparr> ack_buffer fb eg = Inr rt" by blast
  from p(2) have "\<forall>v. 0 < length (iovs v) \<and> length (iovs v) \<le> 2 ^ 20 \<and> length (ptrs v) = length (iovs v)" by simp
  from interleaved_receiver_counts_references [OF p(1) this p(3,4) 0(2)]
  have "\<exists>r. drain_step (rt_eg (rf_rt s)) (DHold v) = Inr r" "distinct (scatter_lists s)" unfolding 0(3) by blast+
  with 0 show ?thesis by blast
qed

end
