(* ===== verification/Tunnel.thy ===== *)
theory Tunnel
  imports InterleaveProps RxDelivery
begin

text \<open>
  The two ends together: a sender and a receiver, in each of which the two threads interleave at every queue operation,
  and a link that carries the sender's datagrams in order, whatever else arrives between them.
\<close>

section \<open>End to end\<close>

text \<open>When the data packets that reach the receiver are the sender's, in order, every inner packet read at one end is written
  unaltered at the other, or is complete and in the hands of the receiver, to be cut out of the tunnel packet that it
  works on, in flight with a part at either end, or in the sender's queue; and nothing else is written.\<close>

lemma tunnel_run_delivers:
  assumes "ig_memory raw space slots oslots iovecs freem" "14 < tfsmtu" "tfsmtu \<le> int (MAXBUF - HDRSPACE)"
    and "fine_run one dontfrag tfsmtu
      \<lparr>fi_wt = write_tfs_start now iovecs freem (tfs_tunnel_ingress raw space slots oslots hs), fi_reader = None, fi_writer = WIdle\<rparr>
      es ds s"
    and "fi_writer s = WIdle" "full_sends tfsmtu es" "length ds < 2 ^ 32 - 1" "\<forall>p \<in> set (taken_in es). inner_ok p"
    and "zeroed raw2 space2 slots2 rawm vslots2 oslots2"
    and "\<forall>v. 0 < length (iovs v) \<and> length (iovs v) \<le> 2 ^ 20 \<and> length (ptrs v) = length (iovs v)"
    and "tfs_tunnel_egress tfsmtu2 raw2 space2 slots2 rawm iovs ptrs vslots2 oslots2 = Inr (eg, a1, a2)"
    and "read_tfs_start one2 ack_ms 0 now2 timer buf fb eg = Inr rt"
    and "rx_fine_run one2 (rx_begin rt) evs ws s2" "data_arrived evs = ds"
  shows "\<exists>ds' r. pend (rf_rt s2) (rf_reader s2) = Inr (ds', r) \<and>
    mset (taken_in es) = mset ws + mset (in_hand s2) + mset ds' + mset (in_flight (lo_of (fi_wt s)) r) + mset (fine_queue s)"
proof -
  let ?wt = "write_tfs_start now iovecs freem (tfs_tunnel_ingress raw space slots oslots hs)"
  let ?s = "\<lparr>fi_wt = ?wt, fi_reader = None, fi_writer = WIdle\<rparr>"
  note si = start_ingress [OF assms(1), where now = now and hs = hs]
  note se = start_sys [OF assms(9-12)]
  have rt: "rt_rl rt = None" "ack_last (rt_ack rt) = 0"
    using assms(12) by (auto simp: read_tfs_start_def res_simps Let_def ack_zero_def)
  have i: "inv_at one dontfrag INNERQSZ tfsmtu ?s None []"
    using si(1,2) wt_inv_fine [of INNERQSZ ?wt one dontfrag tfsmtu] by simp
  have q: "fine_queue ?s = []" using si(3) by (simp add: fine_queue_def)
  from fine_run_tx [OF assms(4) i assms(2,3,6), of RxIdle] assms(7,8) si(5) q obtain pkts os r' lo' P' where
    tx: "ds = map wire pkts" "consecutive 1 pkts" "rx_run (map framed pkts) RxIdle = Inr (os, r')"
      "in_step lo' r'" "inv_at one dontfrag INNERQSZ tfsmtu s lo' P'"
      "mset (taken_in es) = mset os + mset (in_flight lo' r') + mset P' + mset (fine_queue s)" by auto
  have lo: "lo' = lo_of (fi_wt s)" "P' = []" using tx(5) assms(5) by (simp_all add: fine_inv_def)
  from rx_run_agrees [OF assms(13) se(1) rt(1) assms(14) [unfolded tx(1)] tx(2)] rt(2)
  have "agrees (rx_begin rt) (map framed pkts) ws s2" by simp
  then have "pend (rf_rt s2) (rf_reader s2) = Inr x \<longrightarrow> snd x = r' \<and> mset ws + mset (in_hand s2) + mset (fst x) = mset os"
    "pend (rf_rt s2) (rf_reader s2) \<noteq> Inl e" for x e
    unfolding agrees_def spec_run_begin se(2) rx_begin_simps se(3) using tx(3) by (auto split: sum.splits)
  then obtain ds' where "pend (rf_rt s2) (rf_reader s2) = Inr (ds', r')" "mset ws + mset (in_hand s2) + mset ds' = mset os"
    by (cases "pend (rf_rt s2) (rf_reader s2)") auto
  with tx lo show ?thesis by simp
qed

lemma demo_wire_rx:
  "rx_packet (unat (0 :: u16)) (demo_inner @ replicate 25 0) RxIdle = Inr ([demo_inner], RxIdle)"
  using rx_blocks_whole [OF demo_inner_ok, of "replicate 25 0"] by (simp add: rx_packet_def demo_inner_def)

lemma tunnel_run_demo:
  "\<exists>wt' es rt evs rt'. fine_run False False 40 \<lparr>fi_wt = ingress_demo, fi_reader = None, fi_writer = WIdle\<rparr> es
       [wire (1, 0, demo_inner @ replicate 25 0)] \<lparr>fi_wt = wt', fi_reader = None, fi_writer = WIdle\<rparr> \<and>
     taken_in es = [demo_inner] \<and> full_sends 40 es \<and> start_demo = Inr rt \<and>
     rx_fine_run False (rx_begin rt) evs [demo_inner] (rx_begin rt') \<and> data_arrived evs = [wire (1, 0, demo_inner @ replicate 25 0)]"
proof -
  let ?d = "demo_inner @ replicate 25 0"
  have "?d \<noteq> []" "length ?d \<le> MAXBUF - HDRSPACE - 8" by (simp_all add: demo_inner_def const_defs)
  from demo_run_of [OF this demo_wire_rx] obtain rt rt' where r: "start_demo = Inr rt"
    "egress_run False rt [Turn (Timespec 1 500) (Recv (tfs_bytes 1 0 ?d)) (Timespec 1 600), WriteIntf] [demo_inner] rt'" by blast
  from egress_run_fine [OF r(2)] arrived_turns obtain evs where
    "rx_fine_run False (rx_begin rt) evs [demo_inner] (rx_begin rt')" "arrived evs = [wire (1, 0, ?d)]"
    unfolding rx_begin_def by (fastforce simp: wire_def)
  then have "rx_fine_run False (rx_begin rt) evs [demo_inner] (rx_begin rt')" "data_arrived evs = [wire (1, 0, ?d)]"
    by (simp_all add: data_arrived_def is_data_wire)
  with fine_demo_run r(1) show ?thesis by blast
qed

end
