(* ===== verification/Startup.thy ===== *)
theory Startup
  imports Complex_Main Pps
begin

text \<open>
  \<open>main\<close> of \<open>src/src/main.c\<close>: the option switch, the choice of the socket with \<open>tfs_connect\<close> and
  \<open>tfs_accept\<close>; and the rate that \<open>write_tfs_pkts\<close> passes to \<open>pps_new\<close>. What the system calls
  return is an argument.
\<close>

section \<open>Options\<close>

text \<open>\<open>atoi\<close>: white space, a sign, digits; \<open>(int) strtol(s, NULL, 10)\<close> as the C library has it.\<close>

definition is_space :: "char \<Rightarrow> bool" where
  "is_space c \<longleftrightarrow> (let n = of_char c :: nat in n = 32 \<or> 9 \<le> n \<and> n \<le> 13)"

definition is_digit :: "char \<Rightarrow> bool" where
  "is_digit c \<longleftrightarrow> (let n = of_char c :: nat in 48 \<le> n \<and> n \<le> 57)"

definition digits_value :: "string \<Rightarrow> int" where
  "digits_value ds = foldl (\<lambda>n c. 10 * n + (int (of_char c) - 48)) 0 ds"

definition strtol :: "string \<Rightarrow> int" where
  "strtol s =
     (let t = dropWhile is_space s;
          neg = (t \<noteq> [] \<and> hd t = CHR ''-'');
          u = (if t \<noteq> [] \<and> (hd t = CHR ''-'' \<or> hd t = CHR ''+'') then tl t else t);
          n = digits_value (takeWhile is_digit u)
      in max (- (2 ^ 63)) (min (2 ^ 63 - 1) (if neg then - n else n)))"

definition atoi :: "string \<Rightarrow> int" where
  "atoi s = sint (word_of_int (strtol s) :: u32)"

text \<open>The tables given to \<open>getopt_long\<close>; a value 0 is \<open>None\<close>.\<close>

definition lopts :: "(string \<times> bool \<times> char option) list" where
  "lopts =
     [(''single-only'', False, Some CHR ''1''), (''help'', False, Some CHR ''h''), (''debug'', False, None),
      (''congest-rate'', True, Some CHR ''C''), (''connect'', True, Some CHR ''c''), (''dev'', True, Some CHR ''d''),
      (''dont-fragment'', False, Some CHR ''D''), (''listen'', True, Some CHR ''l''), (''mtu'', True, Some CHR ''m''),
      (''port'', True, Some CHR ''p''), (''rate'', True, Some CHR ''r''), (''verbose'', False, Some CHR ''v'')]"

definition optstring :: string where
  "optstring = ''1C:c:Dd:hl:p:uv''"

fun short_opts :: "string \<Rightarrow> (char \<times> bool) list" where
  "short_opts [] = []"
| "short_opts [c] = [(c, False)]"
| "short_opts (c # d # s) = (if d = CHR '':'' then (c, True) # short_opts s else (c, False) # short_opts (d # s))"

text \<open>
  A result of \<open>getopt_long\<close>: an option character with \<open>optarg\<close> (a null pointer is \<open>None\<close>), a
  long option of value 0 with its index, or an error. \<open>can_return\<close> says which the tables allow.
\<close>

datatype opt_result = Opt char "string option" | Opt0 nat | OptErr

fun can_return :: "opt_result \<Rightarrow> bool" where
  "can_return (Opt c arg) \<longleftrightarrow>
     (c, arg \<noteq> None) \<in> set (short_opts optstring) \<or> (arg \<noteq> None, Some c) \<in> set (map snd lopts)"
| "can_return (Opt0 li) \<longleftrightarrow> li < length lopts \<and> snd (snd (lopts ! li)) = None"
| "can_return OptErr \<longleftrightarrow> True"

record config =
  cf_debug :: bool
  cf_dontfrag :: bool
  cf_oneonly :: bool
  cf_verbose :: bool
  cf_tfsmtu :: int
  cf_congest :: u64
  cf_txrate :: u64
  cf_listen :: string
  cf_server :: "string option"
  cf_sport :: "string option"
  cf_devname :: string

text \<open>The argument where \<open>atoi\<close> or \<open>strncpy\<close> reads it.\<close>

definition arg_of :: "string option \<Rightarrow> string res" where
  "arg_of a = (case a of None \<Rightarrow> Inl NullPointer | Some s \<Rightarrow> Inr s)"

definition IFNAMSIZ :: nat where
  "IFNAMSIZ = 16"

definition defaults :: config where
  "defaults = \<lparr>cf_debug = False, cf_dontfrag = False, cf_oneonly = False, cf_verbose = False, cf_tfsmtu = 1500,
     cf_congest = 0, cf_txrate = 0, cf_listen = ''::'', cf_server = None, cf_sport = None, cf_devname = ''vtun%d''\<rparr>"

fun option_step :: "opt_result \<Rightarrow> config \<Rightarrow> config res" where
  "option_step OptErr cf = Inl Errx"
| "option_step (Opt0 li) cf =
     (if fst (lopts ! li) = ''debug'' then Inr (cf\<lparr>cf_verbose := True, cf_debug := True\<rparr>) else Inr cf)"
| "option_step (Opt c arg) cf =
     (if c = CHR ''1'' then Inr (cf\<lparr>cf_oneonly := True\<rparr>)
      else if c = CHR ''C'' then bindE (arg_of arg) (\<lambda>s. Inr (cf\<lparr>cf_congest := word_of_int (atoi s) * 1000\<rparr>))
      else if c = CHR ''c'' then Inr (cf\<lparr>cf_server := arg\<rparr>)
      else if c = CHR ''D'' then Inl Errx
      else if c = CHR ''d'' then bindE (arg_of arg) (\<lambda>s. Inr (cf\<lparr>cf_devname := take (IFNAMSIZ - 1) s\<rparr>))
      else if c = CHR ''l'' then bindE (arg_of arg) (\<lambda>s. Inr (cf\<lparr>cf_listen := s\<rparr>))
      else if c = CHR ''h'' \<or> c = CHR ''m'' then bindE (arg_of arg) (\<lambda>s. Inr (cf\<lparr>cf_tfsmtu := atoi s\<rparr>))
      else if c = CHR ''p'' then Inr (cf\<lparr>cf_sport := arg\<rparr>)
      else if c = CHR ''r'' then bindE (arg_of arg) (\<lambda>s. Inr (cf\<lparr>cf_txrate := word_of_int (atoi s) * 1000\<rparr>))
      else if c = CHR ''v'' then Inr (cf\<lparr>cf_verbose := True\<rparr>)
      else if c = CHR ''?'' then Inl Errx
      else Inr cf)"

fun options :: "opt_result list \<Rightarrow> config \<Rightarrow> config res" where
  "options [] cf = Inr cf"
| "options (r # rs) cf = bindE (option_step r cf) (options rs)"

section \<open>Sockets\<close>

text \<open>
  One address of \<open>getaddrinfo\<close> with what \<open>socket\<close> and \<open>connect\<close> or \<open>bind\<close> return for it. The
  state is \<open>peeraddr\<close>, 16 bytes, and the descriptors opened so far.
\<close>

record attempt =
  at_addr :: bytes
  at_socket :: int
  at_result :: int

definition PEERADDR :: nat where
  "PEERADDR = 16"

fun connect_loop :: "attempt list \<Rightarrow> bytes \<Rightarrow> int list \<Rightarrow> (int \<times> bytes \<times> int list) res" where
  "connect_loop [] peer fds = Inl Errx"
| "connect_loop (a # as) peer fds =
     (if at_socket a < 0 then connect_loop as peer fds
      else if length (at_addr a) > PEERADDR then connect_loop as peer (at_socket a # fds)
      else if at_result a \<noteq> -1 then Inr (at_socket a, splice_at 0 (at_addr a) peer, at_socket a # fds)
      else connect_loop as (splice_at 0 (at_addr a) peer) (at_socket a # fds))"

definition tfs_connect :: "int \<Rightarrow> attempt list \<Rightarrow> bytes \<Rightarrow> (int \<times> bytes \<times> int list) res" where
  "tfs_connect gai as peer = bindE (requireE Errx (gai = 0)) (\<lambda>_. connect_loop as peer [])"

fun bind_loop :: "attempt list \<Rightarrow> int list \<Rightarrow> (int \<times> int list) res" where
  "bind_loop [] fds = Inl Errx"
| "bind_loop (a # as) fds =
     (if at_socket a < 0 then bind_loop as fds
      else if at_result a = 0 then Inr (at_socket a, at_socket a # fds)
      else bind_loop as (at_socket a # fds))"

text \<open>
  \<open>recvfrom\<close> returns \<open>n\<close> and the sender's address \<open>from\<close>, of which as much as fits is stored
  while \<open>alen\<close> becomes its full length; \<open>connect\<close> reads \<open>alen\<close> bytes of \<open>peeraddr\<close> and returns \<open>rc\<close>.
\<close>

definition tfs_accept :: "int \<Rightarrow> attempt list \<Rightarrow> int \<Rightarrow> bytes \<Rightarrow> int \<Rightarrow> bytes \<Rightarrow> (int \<times> bytes \<times> int list) res" where
  "tfs_accept gai as n from rc peer =
     bindE (requireE Errx (gai = 0)) (\<lambda>_.
     bindE (bind_loop as []) (\<lambda>(s, fds).
     bindE (requireE Errx (n \<ge> 0)) (\<lambda>_.
     let peer' = splice_at 0 (take PEERADDR from) peer
     in bindE (requireE OutOfBounds (length from \<le> length peer')) (\<lambda>_.
        bindE (requireE Errx (rc \<ge> 0)) (\<lambda>_. Inr (s, peer', fds))))))"

section \<open>The sending rate\<close>

text \<open>
  A single-precision number is its value, an infinity or not a number; \<open>fl\<close> rounds a value to one. The
  numbers divided here are not negative, so a quotient by zero is the positive infinity or not a number.
\<close>

datatype flt = Fin rat | Inf | NaN

fun fdiv :: "(rat \<Rightarrow> rat) \<Rightarrow> flt \<Rightarrow> flt \<Rightarrow> flt" where
  "fdiv fl (Fin a) (Fin b) = (if b \<noteq> 0 then Fin (fl (a / b)) else if a = 0 then NaN else Inf)"
| "fdiv fl (Fin a) Inf = Fin 0"
| "fdiv fl Inf (Fin b) = Inf"
| "fdiv fl Inf Inf = NaN"
| "fdiv fl NaN y = NaN"
| "fdiv fl x NaN = NaN"

definition tx_pps :: "(rat \<Rightarrow> rat) \<Rightarrow> u64 \<Rightarrow> int \<Rightarrow> flt" where
  "tx_pps fl txrate tfsmtu =
     (let mtub = word_of_int ((tfsmtu - 32) * 8) :: u64
      in fdiv fl (Fin (fl (of_int (uint txrate)))) (Fin (fl (of_int (uint mtub)))))"

text \<open>
  The conversion to an unsigned integer of \<open>n\<close> bits cuts off the fraction, and is undefined for what does not fit.
  \<open>now\<close> is the clock.
\<close>

definition ftrunc :: "rat \<Rightarrow> int" where
  "ftrunc x = (if x < 0 then - \<lfloor>- x\<rfloor> else \<lfloor>x\<rfloor>)"

definition to_uint :: "nat \<Rightarrow> flt \<Rightarrow> int res" where
  "to_uint n x =
     (case x of
        Fin v \<Rightarrow> bindE (requireE BadConversion (- 1 < v \<and> v < 2 ^ n)) (\<lambda>_. Inr (ftrunc v))
      | _ \<Rightarrow> Inl BadConversion)"

definition pps_new :: "(rat \<Rightarrow> rat) \<Rightarrow> timespec \<Rightarrow> flt \<Rightarrow> pps res" where
  "pps_new fl now x =
     bindE (to_uint 32 x) (\<lambda>target.
     bindE (to_uint 64 (fdiv fl (Fin (fl (of_int NSECS_IN_SEC))) x)) (\<lambda>ival.
     Inr \<lparr>pps_periodic = periodic_init now (word_of_int ival), pps_pps = word_of_int target, pps_target = word_of_int target\<rparr>))"

section \<open>Properties\<close>

lemma short_opts_table:
  "short_opts optstring = [(CHR ''1'', False), (CHR ''C'', True), (CHR ''c'', True), (CHR ''D'', False), (CHR ''d'', True),
     (CHR ''h'', False), (CHR ''l'', True), (CHR ''p'', True), (CHR ''u'', False), (CHR ''v'', False)]"
  by (simp add: optstring_def)

lemma lopts_table:
  "set (map snd lopts) = {(False, Some CHR ''1''), (False, Some CHR ''h''), (False, None), (True, Some CHR ''C''),
     (True, Some CHR ''c''), (True, Some CHR ''d''), (False, Some CHR ''D''), (True, Some CHR ''l''), (True, Some CHR ''m''),
     (True, Some CHR ''p''), (True, Some CHR ''r''), (False, Some CHR ''v'')}"
  by (auto simp: lopts_def)

lemma can_return_args:
  "can_return (Opt c arg) \<longleftrightarrow>
     (if c \<in> {CHR ''1'', CHR ''D'', CHR ''h'', CHR ''u'', CHR ''v''} then arg = None
      else c \<in> {CHR ''C'', CHR ''c'', CHR ''d'', CHR ''l'', CHR ''m'', CHR ''p'', CHR ''r''} \<and> arg \<noteq> None)"
  unfolding can_return.simps short_opts_table lopts_table by (cases arg) auto

declare can_return.simps(1) [simp del]

text \<open>The options that end the program.\<close>

definition fatal :: "opt_result \<Rightarrow> bool" where
  "fatal r \<longleftrightarrow> (case r of OptErr \<Rightarrow> True | Opt0 _ \<Rightarrow> False | Opt c _ \<Rightarrow> c = CHR ''h'' \<or> c = CHR ''D'')"

lemma option_step_fatal:
  assumes "can_return r" "fatal r"
  shows "\<exists>e. option_step r cf = Inl e"
proof (cases r)
  case (Opt c arg)
  with assms show ?thesis
    unfolding Opt can_return_args by (cases arg) (auto simp: fatal_def arg_of_def split: if_splits)
qed (use assms in \<open>simp_all add: fatal_def\<close>)

text \<open>
  The specification of the command line: the argument of the last option \<open>c\<close>, and the configuration that
  follows from it and from the flags.
\<close>

fun last_arg :: "char \<Rightarrow> opt_result list \<Rightarrow> string option" where
  "last_arg c [] = None"
| "last_arg c (r # rs) =
     (case last_arg c rs of
        Some s \<Rightarrow> Some s
      | None \<Rightarrow> (case r of Opt d a \<Rightarrow> if d = c then a else None | _ \<Rightarrow> None))"

definition arg_or :: "'a \<Rightarrow> (string \<Rightarrow> 'a) \<Rightarrow> string option \<Rightarrow> 'a" where
  "arg_or x f a = (case a of None \<Rightarrow> x | Some s \<Rightarrow> f s)"

definition has_flag :: "char \<Rightarrow> opt_result list \<Rightarrow> bool" where
  "has_flag c rs \<longleftrightarrow> Opt c None \<in> set rs"

definition has_debug :: "opt_result list \<Rightarrow> bool" where
  "has_debug rs \<longleftrightarrow> (\<exists>li. Opt0 li \<in> set rs)"

text \<open>\<open>atoi\<close> as a rate: thousands, in 64 bits, where a negative number wraps.\<close>

definition kbits :: "string \<Rightarrow> u64" where
  "kbits s = word_of_int (atoi s * 1000)"

definition config_of :: "opt_result list \<Rightarrow> config \<Rightarrow> config" where
  "config_of rs cf =
     \<lparr>cf_debug = (cf_debug cf \<or> has_debug rs), cf_dontfrag = cf_dontfrag cf,
      cf_oneonly = (cf_oneonly cf \<or> has_flag CHR ''1'' rs),
      cf_verbose = (cf_verbose cf \<or> has_flag CHR ''v'' rs \<or> has_debug rs),
      cf_tfsmtu = arg_or (cf_tfsmtu cf) atoi (last_arg CHR ''m'' rs),
      cf_congest = arg_or (cf_congest cf) kbits (last_arg CHR ''C'' rs),
      cf_txrate = arg_or (cf_txrate cf) kbits (last_arg CHR ''r'' rs),
      cf_listen = arg_or (cf_listen cf) (\<lambda>s. s) (last_arg CHR ''l'' rs),
      cf_server = arg_or (cf_server cf) Some (last_arg CHR ''c'' rs),
      cf_sport = arg_or (cf_sport cf) Some (last_arg CHR ''p'' rs),
      cf_devname = arg_or (cf_devname cf) (take (IFNAMSIZ - 1)) (last_arg CHR ''d'' rs)\<rparr>"

lemma config_of_Nil: "config_of [] cf = cf"
  by (simp add: config_of_def arg_or_def has_flag_def has_debug_def)

lemma kbits_mult: "word_of_int (atoi s) * 1000 = kbits s"
  by (simp add: kbits_def)

lemma debug_option: "can_return (Opt0 li) \<Longrightarrow> fst (lopts ! li) = ''debug''"
  by (auto simp: lopts_def nth_Cons' split: if_splits)

lemma arg_or_last: "arg_or x f (case a of None \<Rightarrow> b | Some s \<Rightarrow> Some s) = arg_or (arg_or x f b) f a"
  by (simp add: arg_or_def split: option.split)

lemma option_step_config:
  assumes "can_return r" "\<not> fatal r"
  shows "option_step r cf = Inr (config_of [r] cf)"
proof (cases r)
  case (Opt c arg)
  have nf: "c \<noteq> CHR ''h''" "c \<noteq> CHR ''D''" using assms(2) unfolding Opt fatal_def by simp_all
  consider "arg = None" "c \<in> {CHR ''1'', CHR ''u'', CHR ''v''}"
    | s where "arg = Some s" "c \<in> {CHR ''C'', CHR ''c'', CHR ''d'', CHR ''l'', CHR ''m'', CHR ''p'', CHR ''r''}"
  proof (cases "c \<in> {CHR ''1'', CHR ''D'', CHR ''h'', CHR ''u'', CHR ''v''}")
    case True
    then have "arg = None" using assms(1) unfolding Opt can_return_args by (simp only: if_True simp_thms)
    then show thesis using True nf that(1) by (simp only: insert_iff empty_iff) metis
  next
    case False
    then have c: "c \<in> {CHR ''C'', CHR ''c'', CHR ''d'', CHR ''l'', CHR ''m'', CHR ''p'', CHR ''r''} \<and> arg \<noteq> None"
      using assms(1) unfolding Opt can_return_args by (simp only: if_False simp_thms)
    then obtain s where "arg = Some s" by (cases arg) simp_all
    with c show thesis using that(2) by (simp only: simp_thms)
  qed
  then show ?thesis
  proof cases
    case 1
    then show ?thesis unfolding Opt insert_iff empty_iff
      by (elim disjE FalseE) (simp_all add: config_of_def arg_or_def has_flag_def has_debug_def)
  next
    case 2
    then show ?thesis unfolding Opt insert_iff empty_iff
      by (elim disjE FalseE) (simp_all add: arg_of_def config_of_def arg_or_def has_flag_def has_debug_def kbits_mult)
  qed
next
  case (Opt0 li)
  with assms debug_option show ?thesis
    by (auto simp: config_of_def arg_or_def has_flag_def has_debug_def simp del: can_return.simps)
qed (use assms in \<open>simp add: fatal_def\<close>)

lemma config_of_Cons: "config_of (r # rs) cf = config_of rs (config_of [r] cf)"
proof -
  have f: "has_flag c (r # rs) \<longleftrightarrow> has_flag c [r] \<or> has_flag c rs" "has_debug (r # rs) \<longleftrightarrow> has_debug [r] \<or> has_debug rs" for c
    by (auto simp: has_flag_def has_debug_def)
  have l: "arg_or x g (last_arg c (r # rs)) = arg_or (arg_or x g (last_arg c [r])) g (last_arg c rs)" for x c and g :: "string \<Rightarrow> 'b"
    by (cases "last_arg c rs") (simp_all add: arg_or_def)
  show ?thesis unfolding config_of_def f by (simp add: l del: last_arg.simps) blast
qed

text \<open>C25: the command line is read as it should be. For results that the option tables allow, the switch fails exactly
  when there is an unknown option, \<open>--help\<close> or \<open>--dont-fragment\<close>. Otherwise each flag is set exactly when its option is
  there, and each value is that of the last option for it, or the default: the MTU is the number that \<open>atoi\<close> makes of its
  argument, the two rates thousands of theirs (modulo \<open>2^64\<close>), the device name the first 15 characters. Nothing checks
  the numbers: an MTU or a rate may be zero or negative.\<close>

theorem options_accepted:
  assumes "\<forall>r \<in> set rs. can_return r"
  shows "if \<exists>r \<in> set rs. fatal r then \<exists>e. options rs defaults = Inl e
    else options rs defaults = Inr
      \<lparr>cf_debug = has_debug rs, cf_dontfrag = False, cf_oneonly = has_flag CHR ''1'' rs,
       cf_verbose = (has_flag CHR ''v'' rs \<or> has_debug rs),
       cf_tfsmtu = arg_or 1500 atoi (last_arg CHR ''m'' rs),
       cf_congest = arg_or 0 kbits (last_arg CHR ''C'' rs), cf_txrate = arg_or 0 kbits (last_arg CHR ''r'' rs),
       cf_listen = arg_or ''::'' (\<lambda>s. s) (last_arg CHR ''l'' rs),
       cf_server = last_arg CHR ''c'' rs, cf_sport = last_arg CHR ''p'' rs,
       cf_devname = arg_or ''vtun%d'' (take 15) (last_arg CHR ''d'' rs)\<rparr>"
proof -
  have "if \<exists>r \<in> set rs. fatal r then \<exists>e. options rs cf = Inl e else options rs cf = Inr (config_of rs cf)" for cf
    using assms
  proof (induction rs arbitrary: cf)
    case (Cons r rs)
    show ?case
    proof (cases "fatal r")
      case True
      with option_step_fatal [of r cf] Cons.prems show ?thesis by auto
    next
      case False
      with option_step_config [of r cf] Cons.prems have "option_step r cf = Inr (config_of [r] cf)" by simp
      with Cons.IH [of "config_of [r] cf"] Cons.prems False show ?thesis by (simp add: config_of_Cons [of r rs])
    qed
  qed (simp add: config_of_Nil)
  moreover have "arg_or None Some a = a" for a by (cases a) (simp_all add: arg_or_def)
  ultimately show ?thesis by (simp add: config_of_def defaults_def IFNAMSIZ_def)
qed

theorem options_accepted_witness:
  "\<exists>cf. options [Opt (CHR ''c'') (Some ''10.0.0.1''), Opt (CHR ''C'') (Some ''9''), Opt (CHR ''m'') (Some ''1400''),
       Opt (CHR ''r'') (Some ''12''), Opt0 2] defaults = Inr cf \<and>
     cf_server cf = Some ''10.0.0.1'' \<and> cf_tfsmtu cf = 1400 \<and> cf_congest cf = 9000 \<and> cf_txrate cf = 12000 \<and> cf_verbose cf"
proof -
  let ?rs = "[Opt (CHR ''c'') (Some ''10.0.0.1''), Opt (CHR ''C'') (Some ''9''), Opt (CHR ''m'') (Some ''1400''),
      Opt (CHR ''r'') (Some ''12''), Opt0 2]"
  have "\<forall>r \<in> set ?rs. can_return r" by (simp_all add: can_return_args) (simp add: lopts_def numeral_eq_Suc)
  moreover have "\<not> (\<exists>r \<in> set ?rs. fatal r)" by (simp add: fatal_def)
  ultimately show ?thesis
    using options_accepted [of ?rs]
    by (simp add: arg_or_def has_debug_def kbits_def atoi_def strtol_def is_space_def is_digit_def digits_value_def)
qed

text \<open>C26: asking for help crashes. \<open>help\<close> takes no argument, but its case runs into the one of \<open>mtu\<close>,
  which converts the null \<open>optarg\<close>; the usage text is not reached.\<close>

theorem help_dereferences_null:
  assumes "options rs cf = Inr cf'" "can_return (Opt (CHR ''h'') arg)"
  shows "options (rs @ Opt (CHR ''h'') arg # rs') cf = Inl NullPointer"
proof -
  have arg: "arg = None" using assms(2) by (simp add: can_return_args)
  show ?thesis using assms(1)
  proof (induction rs arbitrary: cf)
    case Nil
    then show ?case by (simp add: arg arg_of_def)
  next
    case (Cons r rs)
    then show ?case by (auto simp: res_simps)
  qed
qed

theorem help_dereferences_null_witness:
  "options [Opt (CHR ''v'') None, Opt (CHR ''h'') None] defaults = Inl NullPointer"
  using help_dereferences_null [of "[Opt (CHR ''v'') None]" defaults "defaults\<lparr>cf_verbose := True\<rparr>" None "[]"]
  by (simp add: can_return_args arg_of_def)

text \<open>An address \<open>tfs_connect\<close> can use.\<close>

definition usable :: "attempt \<Rightarrow> bool" where
  "usable a \<longleftrightarrow> 0 \<le> at_socket a \<and> length (at_addr a) \<le> PEERADDR \<and> at_result a \<noteq> -1"

lemma connect_loop_none: "\<forall>a \<in> set as. \<not> usable a \<Longrightarrow> connect_loop as peer fds = Inl Errx"
  by (induction as arbitrary: peer fds) (auto simp: usable_def)

lemma connect_loop_first:
  assumes "\<forall>a \<in> set us. \<not> usable a" "usable a" "length peer = PEERADDR"
  shows "\<exists>peer'. connect_loop (us @ a # vs) peer fds =
      Inr (at_socket a, peer', at_socket a # rev (filter (\<lambda>s. 0 \<le> s) (map at_socket us)) @ fds) \<and>
    take (length (at_addr a)) peer' = at_addr a \<and> length peer' = PEERADDR"
  using assms
proof (induction us arbitrary: peer fds)
  case Nil
  then show ?case by (simp add: usable_def splice_at_def)
next
  case (Cons u us)
  have len: "length (at_addr u) \<le> PEERADDR \<Longrightarrow> length (splice_at 0 (at_addr u) peer) = PEERADDR"
    using Cons.prems(3) by simp
  from Cons.IH [of peer] Cons.IH [of "splice_at 0 (at_addr u) peer"] Cons.prems len show ?case
    by (auto simp: usable_def)
qed

text \<open>C27: \<open>tfs_connect\<close> takes the first address that it can use, stores it in \<open>peeraddr\<close>, and ends the program when there is
  none, which is always so when all addresses are longer than 16 bytes, as those of IPv6 are; the
  sockets made for the addresses before it are never closed.\<close>

theorem tfs_connect_first_usable:
  assumes "length peer = PEERADDR"
  shows "((\<forall>a \<in> set as. \<not> usable a) \<longrightarrow> tfs_connect 0 as peer = Inl Errx) \<and>
    (\<forall>us a vs. as = us @ a # vs \<and> usable a \<and> (\<forall>u \<in> set us. \<not> usable u) \<longrightarrow>
      (\<exists>peer'. tfs_connect 0 as peer = Inr (at_socket a, peer', at_socket a # rev (filter (\<lambda>s. 0 \<le> s) (map at_socket us))) \<and>
        take (length (at_addr a)) peer' = at_addr a))"
proof (intro conjI impI allI)
  assume "\<forall>a \<in> set as. \<not> usable a"
  then show "tfs_connect 0 as peer = Inl Errx" by (simp add: tfs_connect_def connect_loop_none)
next
  fix us a vs assume a: "as = us @ a # vs \<and> usable a \<and> (\<forall>u \<in> set us. \<not> usable u)"
  with connect_loop_first [of us a peer vs "[]"] assms
  show "\<exists>peer'. tfs_connect 0 as peer = Inr (at_socket a, peer', at_socket a # rev (filter (\<lambda>s. 0 \<le> s) (map at_socket us))) \<and>
      take (length (at_addr a)) peer' = at_addr a"
    by (auto simp: tfs_connect_def)
qed

theorem tfs_connect_first_usable_witness:
  "\<exists>peer'. tfs_connect 0 [\<lparr>at_addr = replicate 28 10, at_socket = 3, at_result = 0\<rparr>, \<lparr>at_addr = replicate 16 2, at_socket = 4, at_result = 0\<rparr>]
     (replicate 16 0) = Inr (4, peer', [4, 3]) \<and> take 16 peer' = replicate 16 2"
proof -
  let ?a = "\<lparr>at_addr = replicate 28 10, at_socket = 3, at_result = 0\<rparr> :: attempt"
  let ?b = "\<lparr>at_addr = replicate 16 2, at_socket = 4, at_result = 0\<rparr> :: attempt"
  have "length (replicate 16 0 :: bytes) = PEERADDR" by (simp add: PEERADDR_def)
  from tfs_connect_first_usable [OF this, of "[?a, ?b]"] have
    "usable ?b \<and> \<not> usable ?a \<Longrightarrow> \<exists>peer'. tfs_connect 0 [?a, ?b] (replicate 16 0) = Inr (4, peer', [4, 3]) \<and> take 16 peer' = replicate 16 2"
    by (auto dest!: spec [of _ "[?a]"])
  then show ?thesis by (simp add: usable_def PEERADDR_def)
qed

lemma bind_loop_first:
  "\<lbrakk>\<forall>u \<in> set us. at_socket u < 0 \<or> at_result u \<noteq> 0; 0 \<le> at_socket a; at_result a = 0\<rbrakk> \<Longrightarrow>
   \<exists>fds'. bind_loop (us @ a # vs) fds = Inr (at_socket a, fds')"
  by (induction us arbitrary: fds) auto

text \<open>C28: a server whose first peer uses a long address, as every peer of the default IPv6 socket does, reads beyond
  the 16 bytes of \<open>peeraddr\<close> when it connects; an address that fits is stored and connected to.\<close>

theorem tfs_accept_overreads_long_address:
  assumes "\<forall>u \<in> set us. at_socket u < 0 \<or> at_result u \<noteq> 0" "0 \<le> at_socket a" "at_result a = 0"
    and "0 \<le> n" "0 \<le> rc" "length peer = PEERADDR"
  shows "if length from > PEERADDR then tfs_accept 0 (us @ a # vs) n from rc peer = Inl OutOfBounds
    else \<exists>peer' fds. tfs_accept 0 (us @ a # vs) n from rc peer = Inr (at_socket a, peer', fds) \<and> take (length from) peer' = from"
  using bind_loop_first [OF assms(1-3), of vs "[]"] assms(4-6)
  by (auto simp: tfs_accept_def Let_def splice_at_def)

theorem tfs_accept_overreads_long_address_witness:
  "tfs_accept 0 [\<lparr>at_addr = replicate 28 0, at_socket = 3, at_result = 0\<rparr>] 0 (replicate 28 10) 0 (replicate PEERADDR 0) = Inl OutOfBounds"
  using tfs_accept_overreads_long_address [of "[]" "\<lparr>at_addr = replicate 28 0, at_socket = 3, at_result = 0\<rparr>" 0 0 "replicate PEERADDR 0"
      "replicate 28 10" "[]"]
  by (simp add: PEERADDR_def)

lemma ftrunc_pos: "0 \<le> x \<Longrightarrow> ftrunc x = \<lfloor>x\<rfloor>"
  by (simp add: ftrunc_def)

lemma uint_floor: "0 \<le> x \<Longrightarrow> x < 2 ^ LENGTH('a) \<Longrightarrow> uint (word_of_int \<lfloor>x\<rfloor> :: 'a::len word) = \<lfloor>x\<rfloor>" for x :: rat
  by (simp add: uint_word_of_int floor_less_iff)

lemma pps_new_state:
  assumes "1 \<le> x" "x < 2 ^ 32" "mono fl" "fl 0 = 0" "fl (of_int NSECS_IN_SEC) = of_int NSECS_IN_SEC"
  shows "\<exists>pp. pps_new fl now (Fin x) = Inr pp \<and> pps_ok pp \<and> uint (pps_target pp) = \<lfloor>x\<rfloor> \<and> pps_pps pp = pps_target pp \<and>
    uint (pd_ival (pps_periodic pp)) = \<lfloor>fl (of_int NSECS_IN_SEC / x)\<rfloor>"
proof -
  let ?q = "of_int NSECS_IN_SEC / x"
  have q: "0 \<le> ?q" "?q \<le> of_int NSECS_IN_SEC" using assms(1) by (simp_all add: NSECS_IN_SEC_def field_simps)
  have f: "0 \<le> fl ?q" "fl ?q \<le> of_int NSECS_IN_SEC"
    using monoD [OF assms(3) q(1)] monoD [OF assms(3) q(2)] assms(4,5) by simp_all
  have big: "fl ?q < 2 ^ 64" using f(2) by (simp add: NSECS_IN_SEC_def)
  let ?pp = "\<lparr>pps_periodic = periodic_init now (word_of_int \<lfloor>fl ?q\<rfloor>), pps_pps = word_of_int \<lfloor>x\<rfloor>, pps_target = word_of_int \<lfloor>x\<rfloor>\<rparr>"
  have "pps_new fl now (Fin x) = Inr ?pp"
    using assms(1,2,5) f(1) big by (simp add: pps_new_def to_uint_def Let_def ftrunc_pos)
  moreover have t: "uint (word_of_int \<lfloor>x\<rfloor> :: u32) = \<lfloor>x\<rfloor>" using assms(1,2) by (intro uint_floor) simp_all
  moreover have "uint (word_of_int \<lfloor>fl ?q\<rfloor> :: u64) = \<lfloor>fl ?q\<rfloor>" using f(1) big by (intro uint_floor) simp_all
  moreover have "1 \<le> \<lfloor>x\<rfloor>" using assms(1) by simp
  then have "(1 :: u32) \<le> word_of_int \<lfloor>x\<rfloor>" unfolding word_le_def t by simp
  ultimately show ?thesis by (intro exI [of _ ?pp]) (simp add: pps_ok_def periodic_init_def)
qed

text \<open>The controller starts in its invariant. For a rate of at least one packet per second, and rounding that is
  monotone and exact at 0 and \<open>NSECS_IN_SEC\<close>, \<open>pps_new\<close> sets target and rate to the whole packets per
  second and sleeps for the rounded quotient.\<close>

theorem pps_new_establishes_invariant:
  assumes "1 \<le> x" "x < 2 ^ 32" "mono fl" "fl 0 = 0" "fl (of_int NSECS_IN_SEC) = of_int NSECS_IN_SEC"
  shows "\<exists>pp. pps_new fl now (Fin x) = Inr pp \<and> pps_ok pp \<and> uint (pps_target pp) = \<lfloor>x\<rfloor> \<and> pps_pps pp = pps_target pp \<and>
    uint (pd_ival (pps_periodic pp)) = \<lfloor>fl (of_int NSECS_IN_SEC / x)\<rfloor>"
  by (rule pps_new_state [OF assms])

theorem pps_new_establishes_invariant_witness:
  "\<exists>pp. pps_new id (Timespec 1 0) (Fin (851 + 1 / 2)) = Inr pp \<and> pps_ok pp \<and> uint (pps_target pp) = 851"
  using pps_new_establishes_invariant [of "851 + 1 / 2" id "Timespec 1 0"] by (auto simp: mono_def floor_eq_iff)

text \<open>A case split that forgets the conditions, for chains of tests on a character.\<close>

lemma if_eqE:
  assumes "(if b then x else y) = z"
  obtains "x = z" | "y = z"
  using assms by (cases b) auto

lemma options_no_rate:
  "options rs cf = Inr cf' \<Longrightarrow> \<forall>a. Opt (CHR ''r'') a \<notin> set rs \<Longrightarrow> cf_txrate cf' = cf_txrate cf"
proof (induction rs arbitrary: cf)
  case (Cons r rs)
  from Cons.prems obtain cf1 where 1: "option_step r cf = Inr cf1" "options rs cf1 = Inr cf'" by (auto simp: res_simps)
  have "cf_txrate cf1 = cf_txrate cf"
  proof (cases r)
    case (Opt c arg)
    with Cons.prems(2) have "c \<noteq> CHR ''r''" by auto
    from 1(1) [unfolded Opt option_step.simps if_not_P [OF this]] show ?thesis
      by (elim if_eqE) (auto simp: res_simps)
  qed (use 1(1) in \<open>auto split: if_splits\<close>)
  with Cons.IH [OF 1(2)] Cons.prems(2) show ?case by simp
qed simp

lemma default_rate_pps:
  assumes "options rs defaults = Inr cf" "\<forall>a. Opt (CHR ''r'') a \<notin> set rs" "fl 0 = 0"
  shows "pps_new fl now (tx_pps fl (cf_txrate cf) (cf_tfsmtu cf)) = Inl BadConversion"
proof -
  have "cf_txrate cf = 0" using options_no_rate [OF assms(1,2)] by (simp add: defaults_def)
  then show ?thesis using assms(3) by (simp add: tx_pps_def pps_new_def to_uint_def ftrunc_def Let_def)
qed

end
