(* ===== verification/Sender.thy ===== *)
theory Sender
  imports IngressRun Startup Ack
begin

text \<open>
  The sending side with its pacing: what \<open>write_tfs_pkts\<close> of \<open>src/src/iptfs.c\<close> does before its loops and
  in their turns, each of which waits for the next period of \<open>g_pps\<close>; and the runs in which the
  interface reader, the writer and the reports that change the rate take their turns in any order.
\<close>

section \<open>The paced writer\<close>

record sender =
  sd_wt :: wtfs
  sd_fb :: feedback

text \<open>What comes before the loops; \<open>now\<close> and \<open>now'\<close> are the clock at \<open>st_reset\<close> and in \<open>pps_new\<close>.\<close>

definition write_tfs_begin :: "(rat \<Rightarrow> rat) \<Rightarrow> timespec \<Rightarrow> timespec \<Rightarrow> bool \<Rightarrow> u64 \<Rightarrow> int \<Rightarrow> iovec list \<Rightarrow> nat list \<Rightarrow>
    feedback \<Rightarrow> ingress \<Rightarrow> sender res" where
  "write_tfs_begin fl now now' oneonly txrate tfsmtu iovecs freem fb ig =
     bindE (if oneonly then Inr fb
            else bindE (pps_new fl now' (tx_pps fl txrate tfsmtu)) (\<lambda>p. Inr (fb\<lparr>g_pps := Some p\<rparr>)))
       (\<lambda>fb'. Inr \<lparr>sd_wt = write_tfs_start now iovecs freem ig, sd_fb = fb'\<rparr>)"

text \<open>
  A turn: \<open>now\<close> and \<open>now'\<close> are the clock before and after the sleep, \<open>t\<close> the clock in
  \<open>write_tfs_pkt\<close>, \<open>n\<close> what \<open>sendmsg\<close> returns. The result names the sleep and the packet.
\<close>

definition write_tfs_turn :: "bool \<Rightarrow> bool \<Rightarrow> int \<Rightarrow> timespec \<Rightarrow> timespec \<Rightarrow> timespec \<Rightarrow> int \<Rightarrow> sender \<Rightarrow>
    (timespec option \<times> bytes option \<times> sender) res" where
  "write_tfs_turn oneonly dontfrag tfsmtu now now' t n sd =
     bindE (if oneonly then bindE (mqueue_wait (ig_outq (wt_ig (sd_wt sd)))) (\<lambda>_. Inr (None, sd_fb sd))
            else bindE (deref (g_pps (sd_fb sd))) (\<lambda>p. bindE (pps_wait p now now') (\<lambda>(ns, p').
                 Inr (ns, (sd_fb sd)\<lparr>g_pps := Some p'\<rparr>))))
       (\<lambda>(ns, fb). bindE (write_tfs_pkt oneonly dontfrag tfsmtu t n (sd_wt sd)) (\<lambda>(pkt, wt).
        Inr (ns, pkt, \<lparr>sd_wt = wt, sd_fb = fb\<rparr>)))"

section \<open>Runs\<close>

text \<open>
  The turns: one of the interface reader, one of the writer, one report received. The clock does
  not go back, and a sleep takes at least the time asked for.
\<close>

datatype paced_event = PRead read_result | PWrite timespec int | PAck mbuf

definition stamp :: "sender \<Rightarrow> timespec" where
  "stamp sd = (case g_pps (sd_fb sd) of None \<Rightarrow> Timespec 0 0 | Some p \<Rightarrow> pd_timestamp (pps_periodic p))"

inductive paced_step :: "bool \<Rightarrow> int \<Rightarrow> sender \<Rightarrow> paced_event \<Rightarrow> bytes list \<Rightarrow> sender \<Rightarrow> bool" for dontfrag tfsmtu where
  paced_rd: "read_intf_step r (wt_ig (sd_wt sd)) = Inr ig \<Longrightarrow>
    paced_step dontfrag tfsmtu sd (PRead r) [] (sd\<lparr>sd_wt := (sd_wt sd)\<lparr>wt_ig := ig\<rparr>\<rparr>)"
| paced_wr: "write_tfs_turn False dontfrag tfsmtu now now' t n sd = Inr (slept, pkt, sd') \<Longrightarrow>
    ts_ok now \<Longrightarrow> ts_ok now' \<Longrightarrow> stamp sd \<le> now \<Longrightarrow>
    (slept \<noteq> None \<Longrightarrow> nanos now + nanos (the slept) \<le> nanos now') \<Longrightarrow>
    paced_step dontfrag tfsmtu sd (PWrite t n) (emitted pkt) sd'"
| paced_ack: "recv_ack False m (sd_fb sd) = Inr fb \<Longrightarrow> paced_step dontfrag tfsmtu sd (PAck m) [] (sd\<lparr>sd_fb := fb\<rparr>)"

inductive paced_run :: "bool \<Rightarrow> int \<Rightarrow> sender \<Rightarrow> paced_event list \<Rightarrow> bytes list \<Rightarrow> sender \<Rightarrow> bool" for dontfrag tfsmtu where
  paced_done: "paced_run dontfrag tfsmtu sd [] [] sd"
| paced_more: "paced_step dontfrag tfsmtu sd e ds sd1 \<Longrightarrow> paced_run dontfrag tfsmtu sd1 es ds' sd2 \<Longrightarrow>
    paced_run dontfrag tfsmtu sd (e # es) (ds @ ds') sd2"

fun turns :: "paced_event list \<Rightarrow> nat" where
  "turns [] = 0"
| "turns (PWrite _ _ # es) = Suc (turns es)"
| "turns (_ # es) = turns es"

fun ingress_events :: "paced_event list \<Rightarrow> ingress_event list" where
  "ingress_events [] = []"
| "ingress_events (PRead r # es) = ReadIntf r # ingress_events es"
| "ingress_events (PWrite t n # es) = WriteTfs t n # ingress_events es"
| "ingress_events (PAck m # es) = ingress_events es"

section \<open>The pace\<close>

text \<open>The period is at least \<open>m\<close> nanoseconds and stays so at every rate up to the target.\<close>

definition pace_ok :: "int \<Rightarrow> pps \<Rightarrow> bool" where
  "pace_ok m p \<longleftrightarrow> pps_ok p \<and> m \<le> uint (pd_ival (pps_periodic p)) \<and> uint (pd_ival (pps_periodic p)) \<le> NSECS_IN_SEC \<and>
     m \<le> NSECS_IN_SEC div uint (pps_target p) \<and> ts_ok (pd_timestamp (pps_periodic p))"

definition sender_ok :: "int \<Rightarrow> sender \<Rightarrow> bool" where
  "sender_ok m sd \<longleftrightarrow> (\<exists>p. g_pps (sd_fb sd) = Some p \<and> pace_ok m p)"

lemma uint_nsecs_div: "uint (ucast (word_of_int NSECS_IN_SEC div nval :: u32) :: u64) = NSECS_IN_SEC div uint nval" for nval :: u32
proof -
  have "uint (ucast w :: u64) = uint w" for w :: u32 by (rule uint_up_ucast) (simp add: is_up)
  then show ?thesis by (simp add: uint_div NSECS_IN_SEC_def)
qed

lemma pps_store_pace:
  assumes "pace_ok m p" "1 \<le> nval" "nval \<le> pps_target p"
  shows "\<exists>p'. pps_store p (pps_pps p) nval = Inr (nval, p') \<and> pace_ok m p' \<and>
    pd_timestamp (pps_periodic p') = pd_timestamp (pps_periodic p)"
proof -
  have ok: "pps_ok p" using assms(1) by (simp add: pace_ok_def)
  from pps_store_ok [OF ok assms(2,3)] obtain p' where p': "pps_store p (pps_pps p) nval = Inr (pps_pps p', p')"
    "pps_ok p'" "pps_pps p' = nval" "pps_target p' = pps_target p"
    "pd_timestamp (pps_periodic p') = pd_timestamp (pps_periodic p)" by blast
  have v: "1 \<le> uint nval" "uint nval \<le> uint (pps_target p)" using assms(2,3) by (simp_all add: word_le_def)
  then have d: "NSECS_IN_SEC div uint (pps_target p) \<le> NSECS_IN_SEC div uint nval" "NSECS_IN_SEC div uint nval \<le> NSECS_IN_SEC"
    using zdiv_mono2 [of NSECS_IN_SEC 1 "uint nval"] zdiv_mono2 [of NSECS_IN_SEC "uint nval" "uint (pps_target p)"]
    by (simp_all add: NSECS_IN_SEC_def)
  have "pd_ival (pps_periodic p') = pd_ival (pps_periodic p) \<or> uint (pd_ival (pps_periodic p')) = NSECS_IN_SEC div uint nval"
  proof (cases "nval = pps_pps p")
    case True
    with p'(1) show ?thesis by (simp add: pps_store_def)
  next
    case False
    with p'(1) have "p\<lparr>pps_pps := nval, pps_periodic :=
        periodic_change_rate (pps_periodic p) (ucast (word_of_int NSECS_IN_SEC div nval))\<rparr> = p'"
      by (auto simp: pps_store_def res_simps)
    from this [symmetric] show ?thesis by (simp add: periodic_change_rate_def uint_nsecs_div)
  qed
  with d p' assms(1) show ?thesis by (auto simp: pace_ok_def)
qed

lemma pps_change_pace:
  assumes "pace_ok m p" "pps_change_pps p x = Inr (r, p')"
  shows "pace_ok m p' \<and> pd_timestamp (pps_periodic p') = pd_timestamp (pps_periodic p)"
proof -
  have "1 \<le> pps_target p" using assms(1) by (auto simp: pace_ok_def pps_ok_def)
  note b = clamp_bounds [OF this, of "pps_pps p + word_of_int x", unfolded Let_def]
  from pps_store_pace [OF assms(1) b] assms(2) show ?thesis by (auto simp: pps_change_pps_def Let_def)
qed

lemma recv_ack_pace:
  assumes "recv_ack False m fb = Inr fb'" "g_pps fb = Some p" "pace_ok k p"
  shows "\<exists>p'. g_pps fb' = Some p' \<and> pace_ok k p' \<and> pd_timestamp (pps_periodic p') = pd_timestamp (pps_periodic p)"
proof -
  have rate: "pace_ok k p' \<and> pd_timestamp (pps_periodic p') = pd_timestamp (pps_periodic p)"
    if "ack_rate d a p = Inr p'" for d a p'
    using that pps_change_pace [OF assms(3)] by (auto simp: ack_rate_def res_simps split: if_splits)
  have "\<exists>p'. g_pps fb1 = Some p' \<and> pace_ok k p' \<and> pd_timestamp (pps_periodic p') = pd_timestamp (pps_periodic p)"
    if "ack_feed fb run drops = Inr fb1" for run drops fb1
    using that assms(2,3) rate by (auto simp: ack_feed_def deref_def res_simps Let_def split: if_splits option.splits)
  with assms show ?thesis by (auto simp: recv_ack_def res_simps Let_def split: if_splits)
qed

text \<open>A wait that returns stores a time at least a period after the last.\<close>

lemma pps_wait_pace:
  assumes "pps_wait p now now' = Inr (slept, p')" "pace_ok m p" "ts_ok now" "ts_ok now'"
    and "slept \<noteq> None \<Longrightarrow> nanos now + nanos (the slept) \<le> nanos now'"
  shows "pace_ok m p' \<and> nanos (pd_timestamp (pps_periodic p)) + m \<le> nanos (pd_timestamp (pps_periodic p'))"
proof -
  let ?pd = "pps_periodic p"
  have pd: "ts_ok (pd_timestamp ?pd)" "uint (pd_ival ?pd) < 2 ^ 62" "uint (pd_ival ?pd) \<le> NSECS_IN_SEC" "m \<le> uint (pd_ival ?pd)"
    using assms(2) by (simp_all add: pace_ok_def NSECS_IN_SEC_def)
  note n = nanos_periodic_expire [OF pd(1,2)]
  have p': "periodic_wait ?pd now now' = Inr (slept, pps_periodic p')" "p' = p\<lparr>pps_periodic := pps_periodic p'\<rparr>"
    using assms(1) by (auto simp: pps_wait_def res_simps)
  have "pd_ival (pps_periodic p') = pd_ival ?pd \<and> ts_ok (pd_timestamp (pps_periodic p')) \<and>
      nanos (pd_timestamp ?pd) + uint (pd_ival ?pd) \<le> nanos (pd_timestamp (pps_periodic p'))"
  proof (cases "periodic_expire ?pd < now")
    case True
    then have "nanos (periodic_expire ?pd) \<le> nanos now"
      using pd(3) assms(3) periodic_expire_cases [OF pd(1,2)] pd(1)
      by (auto simp: less_timespec_def ts_defs split: if_splits)
    moreover have "pps_periodic p' = ?pd\<lparr>pd_timestamp := now\<rparr>"
      using True p'(1) by (simp add: periodic_wait_def periodic_is_expired_less)
    ultimately show ?thesis using n assms(3) by simp
  next
    case False
    with p'(1) have "slept = Some (periodic_sleep now (periodic_expire ?pd))" "pps_periodic p' = ?pd\<lparr>pd_timestamp := now'\<rparr>"
      by (auto simp: periodic_wait_def periodic_is_expired_less res_simps Let_def)
    with assms(4,5) n show ?thesis by (simp add: nanos_periodic_sleep)
  qed
  moreover have "pps_pps p' = pps_pps p" "pps_target p' = pps_target p" by (subst p'(2), simp)+
  ultimately show ?thesis using assms(2) pd(4) by (auto simp: pace_ok_def pps_ok_def)
qed

lemma paced_step_pace:
  assumes "paced_step dontfrag tfsmtu sd e ds sd'" "sender_ok m sd"
  shows "sender_ok m sd' \<and> nanos (stamp sd) + int (turns [e]) * m \<le> nanos (stamp sd') \<and>
    ingress_run False dontfrag tfsmtu (sd_wt sd) (ingress_events [e]) ds (sd_wt sd')"
  using assms
proof (induction rule: paced_step.induct)
  case (paced_rd r sd ig)
  with ig_step [OF ingress_step.rd [OF paced_rd.hyps] ig_done] show ?case by (simp add: sender_ok_def stamp_def)
next
  case (paced_wr now now' t n sd slept pkt sd')
  from paced_wr.prems obtain p where p: "g_pps (sd_fb sd) = Some p" "pace_ok m p" by (auto simp: sender_ok_def)
  from paced_wr.hyps(1) p(1) obtain p' where p': "pps_wait p now now' = Inr (slept, p')" "g_pps (sd_fb sd') = Some p'"
    "write_tfs_step False dontfrag tfsmtu t n (sd_wt sd) = Inr (pkt, sd_wt sd')"
    by (auto simp: write_tfs_turn_def deref_def res_simps write_tfs_step_def)
  from ig_step [OF ingress_step.wr [OF p'(3)] ig_done] have
    "ingress_run False dontfrag tfsmtu (sd_wt sd) [WriteTfs t n] (emitted pkt) (sd_wt sd')" by (cases pkt) auto
  with pps_wait_pace [OF p'(1) p(2) paced_wr.hyps(2,3,5)] p p'(2) show ?case by (simp add: sender_ok_def stamp_def)
next
  case (paced_ack m' sd fb)
  from paced_ack.prems obtain p where p: "g_pps (sd_fb sd) = Some p" "pace_ok m p" by (auto simp: sender_ok_def)
  from recv_ack_pace [OF paced_ack.hyps p] p ig_done show ?case by (auto simp: sender_ok_def stamp_def)
qed

text \<open>Runs of the sender satisfy the bound and are runs of the unpaced sender.\<close>

lemma ingress_run_append:
  assumes "ingress_run oneonly dontfrag tfsmtu wt es ds wt1" "ingress_run oneonly dontfrag tfsmtu wt1 es' ds' wt2"
  shows "ingress_run oneonly dontfrag tfsmtu wt (es @ es') (ds @ ds') wt2"
  using assms
proof (induction rule: ingress_run.induct)
  case (ig_step wt e ds wt1 es ds1 wt3)
  from ingress_run.ig_step [OF ig_step.hyps(1) ig_step.IH [OF ig_step.prems]] show ?case by simp
qed simp

lemma paced_run_pace:
  assumes "paced_run dontfrag tfsmtu sd es ds sd'" "sender_ok m sd"
  shows "sender_ok m sd' \<and> nanos (stamp sd) + int (turns es) * m \<le> nanos (stamp sd') \<and>
    ingress_run False dontfrag tfsmtu (sd_wt sd) (ingress_events es) ds (sd_wt sd')"
  using assms
proof (induction rule: paced_run.induct)
  case (paced_done sd)
  then show ?case using ig_done by simp
next
  case (paced_more sd e ds sd1 es ds' sd2)
  from paced_step_pace [OF paced_more.hyps(1) paced_more.prems] have
    1: "sender_ok m sd1" "nanos (stamp sd) + int (turns [e]) * m \<le> nanos (stamp sd1)"
      "ingress_run False dontfrag tfsmtu (sd_wt sd) (ingress_events [e]) ds (sd_wt sd1)" by blast+
  from paced_more.IH [OF 1(1)] have
    2: "sender_ok m sd2" "nanos (stamp sd1) + int (turns es) * m \<le> nanos (stamp sd2)"
      "ingress_run False dontfrag tfsmtu (sd_wt sd1) (ingress_events es) ds' (sd_wt sd2)" by blast+
  have e: "ingress_events (e # es) = ingress_events [e] @ ingress_events es" "turns (e # es) = turns [e] + turns es"
    by (cases e; simp)+
  from ingress_run_append [OF 1(3) 2(3)] 1(2) 2(1,2) show ?case by (simp add: e algebra_simps)
qed

lemma write_tfs_begin_pace:
  assumes "tx_pps fl txrate tfsmtu = Fin x" "1 \<le> x" "x < 2 ^ 32"
    and "mono fl" "fl 0 = 0" "fl (of_int NSECS_IN_SEC) = of_int NSECS_IN_SEC" "ts_ok now'"
  defines "m \<equiv> min \<lfloor>fl (of_int NSECS_IN_SEC / x)\<rfloor> (NSECS_IN_SEC div \<lfloor>x\<rfloor>)"
  shows "\<exists>sd. write_tfs_begin fl now now' False txrate tfsmtu iovecs freem fb ig = Inr sd \<and> sender_ok m sd \<and> stamp sd = now' \<and>
    sd_wt sd = write_tfs_start now iovecs freem ig"
proof -
  from pps_new_state [OF assms(2-6)] obtain p where p: "pps_new fl now' (Fin x) = Inr p" "pps_ok p"
    "uint (pps_target p) = \<lfloor>x\<rfloor>" "uint (pd_ival (pps_periodic p)) = \<lfloor>fl (of_int NSECS_IN_SEC / x)\<rfloor>" by blast
  have "of_int NSECS_IN_SEC / x \<le> of_int NSECS_IN_SEC" using assms(2) by (simp add: NSECS_IN_SEC_def field_simps)
  from monoD [OF assms(4) this] assms(6) have "\<lfloor>fl (of_int NSECS_IN_SEC / x)\<rfloor> \<le> NSECS_IN_SEC"
    by (simp add: floor_le_iff NSECS_IN_SEC_def)
  moreover have ts: "pd_timestamp (pps_periodic p) = now'"
    using p(1) by (auto simp: pps_new_def periodic_init_def Let_def res_simps)
  ultimately have "pace_ok m p" using p assms(7) by (simp add: pace_ok_def m_def)
  with p(1) assms(1) ts show ?thesis by (simp add: write_tfs_begin_def sender_ok_def stamp_def)
qed

text \<open>The example: a sender of 1000 packets per second and its first turn.\<close>

lemma paced_demo:
  "\<exists>sd d sd'. write_tfs_begin id (Timespec 1 0) (Timespec 1 0) False 11744000 1500
       (replicate g_max_inner_pkt \<lparr>iov_base = PPad, iov_len = 0\<rparr>) (replicate g_max_inner_pkt 0) feedback_demo
       (wt_ig ingress_demo) = Inr sd \<and>
     paced_run False 1500 sd [PWrite (Timespec 1 1000500) 1500] [d] sd'"
proof -
  let ?io = "replicate g_max_inner_pkt \<lparr>iov_base = PPad, iov_len = 0\<rparr>" and ?fr = "replicate g_max_inner_pkt (0 :: nat)"
  let ?now = "Timespec 1 0" and ?fb = "feedback_demo\<lparr>g_pps := Some \<lparr>pps_periodic = periodic_init (Timespec 1 0) 1000000, pps_pps = 1000, pps_target = 1000\<rparr>\<rparr>"
  have x: "tx_pps id 11744000 1500 = Fin 1000" by (simp add: tx_pps_def)
  have wt: "write_tfs_start ?now ?io ?fr (wt_ig ingress_demo) = ingress_demo" by (simp add: ingress_demo_def write_tfs_start_def)
  have b: "write_tfs_begin id ?now ?now False 11744000 1500 ?io ?fr feedback_demo (wt_ig ingress_demo) =
      Inr \<lparr>sd_wt = ingress_demo, sd_fb = ?fb\<rparr>"
    by (simp add: write_tfs_begin_def x pps_new_def to_uint_def ftrunc_def NSECS_IN_SEC_def Let_def wt)
  have tx: "tx_packet False False (nat (1500 - 8)) (lo_of ingress_demo) (queue_of ingress_demo) = (Some (0, replicate 1492 0), None, [])"
    by (simp add: ingress_demo_start tx_packet_def)
  from write_tfs_pkt_tx [OF ingress_demo_start(1) _ _ tx [unfolded lo_of_def queue_of_def], of "Timespec 1 1000500" 1500]
  obtain d wt' where w: "write_tfs_pkt False False 1500 (Timespec 1 1000500) 1500 ingress_demo = Inr (Some d, wt')"
    by (auto simp: const_defs)
  have p: "pps_wait \<lparr>pps_periodic = periodic_init ?now 1000000, pps_pps = 1000, pps_target = 1000\<rparr> ?now (Timespec 1 1000000) =
      Inr (Some (Timespec 0 1000000), \<lparr>pps_periodic = periodic_init (Timespec 1 1000000) 1000000, pps_pps = 1000, pps_target = 1000\<rparr>)"
    by (simp add: pps_wait_def periodic_wait_def periodic_expire_def periodic_init_def periodic_is_expired_def periodic_sleep_def
        nanosleep_valid_def NSECS_IN_SEC_def Let_def)
  let ?sd = "\<lparr>sd_wt = ingress_demo, sd_fb = ?fb\<rparr>"
  have "write_tfs_turn False False 1500 ?now (Timespec 1 1000000) (Timespec 1 1000500) 1500 ?sd = Inr (Some (Timespec 0 1000000), Some d,
      \<lparr>sd_wt = wt', sd_fb = ?fb\<lparr>g_pps := Some \<lparr>pps_periodic = periodic_init (Timespec 1 1000000) 1000000, pps_pps = 1000, pps_target = 1000\<rparr>\<rparr>\<rparr>)"
    by (simp add: write_tfs_turn_def deref_def p w)
  from paced_more [OF paced_wr [OF this] paced_done] obtain sd' where
    r: "paced_run False 1500 ?sd [PWrite (Timespec 1 1000500) 1500] [d] sd'"
    by (auto simp: ts_defs stamp_def periodic_init_def)
  with b r show ?thesis by blast
qed

text \<open>By turns, the sender keeps its rate. Whatever the interface reader and the received reports do between the
  turns of the writer, \<open>k\<close> turns take at least \<open>k\<close> periods of the target rate, the rate given at start; and
  the datagrams are those of a run without pacing, to which the properties of the sending side apply. \<open>Paced\<close> has the same of all interleavings.\<close>

theorem sender_keeps_rate:
  assumes "tx_pps fl txrate tfsmtu = Fin x" "1 \<le> x" "x < 2 ^ 32"
    and "mono fl" "fl 0 = 0" "fl (of_int NSECS_IN_SEC) = of_int NSECS_IN_SEC" "ts_ok now'"
    and "write_tfs_begin fl now now' False txrate tfsmtu iovecs freem fb ig = Inr sd"
    and "paced_run dontfrag tfsmtu sd es ds sd'"
  shows "nanos now' + int (turns es) * min \<lfloor>fl (of_int NSECS_IN_SEC / x)\<rfloor> (NSECS_IN_SEC div \<lfloor>x\<rfloor>) \<le> nanos (stamp sd') \<and>
    ingress_run False dontfrag tfsmtu (write_tfs_start now iovecs freem ig) (ingress_events es) ds (sd_wt sd')"
  using paced_run_pace [OF assms(9)] write_tfs_begin_pace [OF assms(1-7), of now iovecs freem fb ig] assms(8) by auto

theorem sender_keeps_rate_witness:
  "\<exists>sd d sd'. paced_run False 1500 sd [PWrite (Timespec 1 1000500) 1500] [d] sd' \<and> 1001000000 \<le> nanos (stamp sd')"
proof -
  from paced_demo obtain sd d sd' where
    b: "write_tfs_begin id (Timespec 1 0) (Timespec 1 0) False 11744000 1500
       (replicate g_max_inner_pkt \<lparr>iov_base = PPad, iov_len = 0\<rparr>) (replicate g_max_inner_pkt 0) feedback_demo
       (wt_ig ingress_demo) = Inr sd"
    and r: "paced_run False 1500 sd [PWrite (Timespec 1 1000500) 1500] [d] sd'" by blast
  have x: "tx_pps id 11744000 1500 = Fin 1000" by (simp add: tx_pps_def)
  have h: "1 \<le> (1000 :: rat)" "(1000 :: rat) < 2 ^ 32" "mono (id :: rat \<Rightarrow> rat)" "id 0 = (0 :: rat)"
    "id (of_int NSECS_IN_SEC) = (of_int NSECS_IN_SEC :: rat)" "ts_ok (Timespec 1 0)" by (simp_all add: mono_def ts_defs)
  from sender_keeps_rate [OF x h b r] have "1001000000 \<le> nanos (stamp sd')" by (simp add: ts_defs)
  with r show ?thesis by blast
qed


text \<open>C31: without \<open>--rate\<close> the sender's period is undefined. Unless one packet is sent at a time, the rate of zero is
  divided into \<open>NSECS_IN_SEC\<close> (or, at an MTU of 32, by zero bits per packet), and the infinity, or what is not a number,
  is converted to an integer; this whatever the rounding of other values. In one-only mode the rate is not used.\<close>

theorem default_rate_undefined:
  assumes "options rs defaults = Inr cf" "\<forall>a. Opt (CHR ''r'') a \<notin> set rs" "fl 0 = 0"
  shows "pps_new fl now' (tx_pps fl (cf_txrate cf) (cf_tfsmtu cf)) = Inl BadConversion \<and>
    write_tfs_begin fl now now' (cf_oneonly cf) (cf_txrate cf) (cf_tfsmtu cf) iovecs freem fb ig =
      (if cf_oneonly cf then Inr \<lparr>sd_wt = write_tfs_start now iovecs freem ig, sd_fb = fb\<rparr> else Inl BadConversion)"
proof -
  from default_rate_pps [where fl = fl and now = now'] assms have
    "pps_new fl now' (tx_pps fl (cf_txrate cf) (cf_tfsmtu cf)) = Inl BadConversion" by blast
  then show ?thesis by (simp add: write_tfs_begin_def)
qed

theorem default_rate_undefined_witness:
  "pps_new id (Timespec 1 0) (tx_pps id (cf_txrate defaults) (cf_tfsmtu defaults)) = Inl BadConversion \<and>
   write_tfs_begin id (Timespec 1 0) (Timespec 1 0) False 0 1500 [] [] feedback_demo (wt_ig ingress_demo) = Inl BadConversion"
proof -
  have "options [] defaults = Inr defaults" by simp
  from default_rate_undefined [OF this, of id "Timespec 1 0" "Timespec 1 0" "[]" "[]" feedback_demo "wt_ig ingress_demo"] show ?thesis
    by (simp add: defaults_def)
qed

end
