(* ===== verification/Program.thy ===== *)
theory Program
  imports Tunnel Sender
begin

text \<open>
  \<open>main\<close> of \<open>src/src/main.c\<close> as a whole: the options, the tun device, the socket, the two sides with
  their threads, and the properties of the program from its command line on.
\<close>

section \<open>Set-up\<close>

definition O_NONBLOCK :: u32 where
  "O_NONBLOCK = 0x800"

text \<open>
  \<open>fd\<close> is what \<open>open\<close> returns, \<open>tunsetiff\<close> what the \<open>ioctl\<close> makes of the interface's name and its
  result, \<open>flags\<close> the flags of the descriptor. The name the kernel chose goes back to \<open>devname\<close>, which
  has room for \<open>IFNAMSIZ\<close> characters.
\<close>

definition tun_alloc :: "int \<Rightarrow> (string \<Rightarrow> int \<times> string) \<Rightarrow> u32 \<Rightarrow> string \<Rightarrow> (int \<times> string \<times> u32) res" where
  "tun_alloc fd tunsetiff flags dev =
     bindE (requireE Errx (fd \<ge> 0)) (\<lambda>_.
     let (rc, name) = tunsetiff (take IFNAMSIZ dev)
     in bindE (requireE Errx (rc \<ge> 0)) (\<lambda>_.
        bindE (requireE OutOfBounds (length name \<le> IFNAMSIZ)) (\<lambda>_.
        Inr (fd, name, flags AND NOT O_NONBLOCK))))"

text \<open>
  What the system gives to one run of the program: the results of the calls for the device and the
  socket, and the contents of the memory that \<open>malloc\<close> returns for the two sides and the writer's arrays.
\<close>

record world =
  en_fd :: int
  en_tunsetiff :: "string \<Rightarrow> int \<times> string"
  en_flags :: u32
  en_gai :: int
  en_addrs :: "attempt list"
  en_peek :: int
  en_from :: bytes
  en_conn :: int
  en_inbufs :: mheap
  en_inspace :: bytes
  en_inslots :: "nat list"
  en_inout :: "nat list"
  en_outhdr :: nat
  en_iovecs :: "iovec list"
  en_freem :: "nat list"
  en_egbufs :: mheap
  en_egspace :: bytes
  en_egslots :: "nat list"
  en_miovs :: "nat \<Rightarrow> miov"
  en_iovs :: "nat \<Rightarrow> iovec list"
  en_ptrs :: "nat \<Rightarrow> nat list"
  en_vslots :: "nat list"
  en_egout :: "nat list"

record program =
  pg_cf :: config
  pg_dev :: string
  pg_fd :: int
  pg_sock :: int
  pg_ingress :: ingress
  pg_egress :: egress
  pg_fb :: feedback

definition main_socket :: "config \<Rightarrow> world \<Rightarrow> (int \<times> bytes \<times> int list) res" where
  "main_socket cf w =
     (case cf_server cf of
        None \<Rightarrow> tfs_accept (en_gai w) (en_addrs w) (en_peek w) (en_from w) (en_conn w) (replicate PEERADDR 0)
      | Some server \<Rightarrow> tfs_connect (en_gai w) (en_addrs w) (replicate PEERADDR 0))"

definition main_egress :: "config \<Rightarrow> world \<Rightarrow> (egress \<times> runavg \<times> runavg) res" where
  "main_egress cf w =
     tfs_tunnel_egress (cf_tfsmtu cf) (en_egbufs w) (en_egspace w) (en_egslots w) (en_miovs w) (en_iovs w) (en_ptrs w)
       (en_vslots w) (en_egout w)"

text \<open>\<open>main\<close> up to the joining of the threads.\<close>

definition main_program :: "opt_result list \<Rightarrow> world \<Rightarrow> program res" where
  "main_program rs w =
     bindE (options rs defaults) (\<lambda>cf.
     bindE (tun_alloc (en_fd w) (en_tunsetiff w) (en_flags w) (cf_devname cf)) (\<lambda>(fd, dev, flags).
     bindE (main_socket cf w) (\<lambda>(s, peer, fds).
     let ig = tfs_tunnel_ingress (en_inbufs w) (en_inspace w) (en_inslots w) (en_inout w) (en_outhdr w)
     in bindE (main_egress cf w) (\<lambda>(eg, a, d).
        Inr \<lparr>pg_cf = cf, pg_dev = dev, pg_fd = fd, pg_sock = s, pg_ingress = ig, pg_egress = eg,
             pg_fb = \<lparr>g_avgpps = Some a, g_avgdrops = Some d, g_pps = None\<rparr>\<rparr>))))"

text \<open>The threads that read and write the tunnel, with the arguments \<open>_read_tfs_pkts\<close> and
  \<open>_write_tfs_pkts\<close> give them.\<close>

definition program_writer :: "(rat \<Rightarrow> rat) \<Rightarrow> timespec \<Rightarrow> timespec \<Rightarrow> world \<Rightarrow> program \<Rightarrow> sender res" where
  "program_writer fl now now' w pg =
     write_tfs_begin fl now now' (cf_oneonly (pg_cf pg)) (cf_txrate (pg_cf pg)) (cf_tfsmtu (pg_cf pg)) (en_iovecs w) (en_freem w)
       (pg_fb pg) (pg_ingress pg)"

definition program_reader :: "timespec \<Rightarrow> stimer \<Rightarrow> program \<Rightarrow> rtfs res" where
  "program_reader now timer pg =
     read_tfs_start (cf_oneonly (pg_cf pg)) 1000 (cf_congest (pg_cf pg)) now timer ack_buffer (pg_fb pg) (pg_egress pg)"

section \<open>Properties of the start\<close>

text \<open>What the program relies on: memory of the sizes asked for, with the fields zero that the code does not clear.\<close>

definition world_ok :: "int \<Rightarrow> world \<Rightarrow> bool" where
  "world_ok mtu w \<longleftrightarrow>
     ig_memory (en_inbufs w) (en_inspace w) (en_inslots w) (en_inout w) (en_iovecs w) (en_freem w) \<and>
     zeroed (en_egbufs w) (en_egspace w) (en_egslots w) (en_miovs w) (en_vslots w) (en_egout w) \<and>
     (\<forall>v. int (length (en_iovs w v)) = int MAXBUF sdiv mtu + 2 \<and> length (en_ptrs w v) = length (en_iovs w v))"

lemma main_program_parts:
  assumes "main_program rs w = Inr pg"
  shows "options rs defaults = Inr (pg_cf pg)"
    "pg_ingress pg = tfs_tunnel_ingress (en_inbufs w) (en_inspace w) (en_inslots w) (en_inout w) (en_outhdr w)"
    "\<exists>a d. main_egress (pg_cf pg) w = Inr (pg_egress pg, a, d) \<and>
      pg_fb pg = \<lparr>g_avgpps = Some a, g_avgdrops = Some d, g_pps = None\<rparr>"
  using assms by (auto simp: main_program_def res_simps Let_def)

lemma world_arrays:
  assumes "world_ok mtu w" "0 < mtu"
  shows "\<forall>v. 0 < length (en_iovs w v) \<and> length (en_iovs w v) \<le> 2 ^ 20 \<and> length (en_ptrs w v) = length (en_iovs w v)"
proof
  fix v
  have l: "int (length (en_iovs w v)) = int MAXBUF sdiv mtu + 2" "length (en_ptrs w v) = length (en_iovs w v)"
    using assms(1) by (simp_all add: world_ok_def)
  have "int MAXBUF sdiv mtu = int MAXBUF div mtu" using assms(2) by (simp add: signed_divide_int_def MAXBUF_def)
  moreover have "0 \<le> int MAXBUF div mtu" "int MAXBUF div mtu \<le> int MAXBUF"
    using assms(2) zdiv_mono2 [of "int MAXBUF" 1 mtu] by (simp_all add: pos_imp_zdiv_nonneg_iff)
  moreover have "int MAXBUF \<le> 10000" by (simp add: const_defs)
  ultimately have "0 < length (en_iovs w v)" "length (en_iovs w v) \<le> 10002" using l(1) by linarith+
  then show "0 < length (en_iovs w v) \<and> length (en_iovs w v) \<le> 2 ^ 20 \<and> length (en_ptrs w v) = length (en_iovs w v)"
    using l(2) by simp
qed

lemma program_starts:
  fixes now :: timespec
  assumes "main_program rs w = Inr pg" "world_ok (cf_tfsmtu (pg_cf pg)) w" "0 < cf_tfsmtu (pg_cf pg)"
  shows "wt_inv INNERQSZ (write_tfs_start now (en_iovecs w) (en_freem w) (pg_ingress pg))"
    "lo_of (write_tfs_start now (en_iovecs w) (en_freem w) (pg_ingress pg)) = None"
    "program_reader now timer pg = Inr rt \<Longrightarrow> rt_inv OUTERQSZ OUTERQSZ rt"
proof -
  note p = main_program_parts [OF assms(1)]
  from assms(2) have m: "ig_memory (en_inbufs w) (en_inspace w) (en_inslots w) (en_inout w) (en_iovecs w) (en_freem w)"
    "zeroed (en_egbufs w) (en_egspace w) (en_egslots w) (en_miovs w) (en_vslots w) (en_egout w)" by (simp_all add: world_ok_def)
  show "wt_inv INNERQSZ (write_tfs_start now (en_iovecs w) (en_freem w) (pg_ingress pg))"
    "lo_of (write_tfs_start now (en_iovecs w) (en_freem w) (pg_ingress pg)) = None"
    unfolding p(2) by (rule start_ingress(1,2) [OF m(1)])+
  from p(3) obtain a d where "main_egress (pg_cf pg) w = Inr (pg_egress pg, a, d)" by blast
  from start_sys(1) [OF m(2) world_arrays [OF assms(2,3)] this [unfolded main_egress_def]]
  show "program_reader now timer pg = Inr rt \<Longrightarrow> rt_inv OUTERQSZ OUTERQSZ rt" by (simp add: program_reader_def)
qed

lemma program_writer_start:
  "program_writer fl now now' w pg = Inr sd \<Longrightarrow> sd_wt sd = write_tfs_start now (en_iovecs w) (en_freem w) (pg_ingress pg)"
  by (auto simp: program_writer_def write_tfs_begin_def res_simps)

text \<open>A rate with which the writing thread starts: none in one-only mode, or a number of packets per second from 1 on.\<close>

definition rate_ok :: "(rat \<Rightarrow> rat) \<Rightarrow> config \<Rightarrow> bool" where
  "rate_ok fl cf \<longleftrightarrow> cf_oneonly cf \<or>
     (case tx_pps fl (cf_txrate cf) (cf_tfsmtu cf) of Fin x \<Rightarrow> 1 \<le> x \<and> x < 2 ^ 32 | _ \<Rightarrow> False)"

lemma program_writer_starts:
  assumes "rate_ok fl (pg_cf pg)" "mono fl" "fl 0 = 0" "fl (of_int NSECS_IN_SEC) = of_int NSECS_IN_SEC" "ts_ok now'"
  shows "\<exists>sd. program_writer fl now now' w pg = Inr sd \<and>
    (if cf_oneonly (pg_cf pg) then sd_fb sd = pg_fb pg
     else \<exists>p. g_pps (sd_fb sd) = Some p \<and> pps_ok p \<and> pd_timestamp (pps_periodic p) = now')"
proof (cases "cf_oneonly (pg_cf pg)")
  case True
  then show ?thesis by (simp add: program_writer_def write_tfs_begin_def)
next
  case False
  with assms(1) obtain x where x: "tx_pps fl (cf_txrate (pg_cf pg)) (cf_tfsmtu (pg_cf pg)) = Fin x" "1 \<le> x" "x < 2 ^ 32"
    by (auto simp: rate_ok_def split: flt.splits)
  from write_tfs_begin_pace [OF x assms(2-5), of now "en_iovecs w" "en_freem w" "pg_fb pg" "pg_ingress pg"] False show ?thesis
    by (auto simp: program_writer_def sender_ok_def pace_ok_def stamp_def)
qed

text \<open>The reading thread finds a buffer.\<close>

lemma program_reader_starts:
  assumes "main_program rs w = Inr pg" "world_ok (cf_tfsmtu (pg_cf pg)) w"
  shows "\<exists>rt. program_reader now timer pg = Inr rt"
proof -
  from main_program_parts(3) [OF assms(1)] obtain a d where e: "main_egress (pg_cf pg) w = Inr (pg_egress pg, a, d)" by blast
  then have q: "m_freeq (eg_mem (pg_egress pg)) =
      snd (mqueue_new_freeq (en_egbufs w) (en_egspace w) (en_egslots w) OUTERQSZ MAXBUF HDRSPACE)"
    by (auto simp: main_egress_def tfs_tunnel_egress_def case_prod_unfold Let_def res_simps dest!: sym [where t = "pg_egress pg"])
  have "length (en_egslots w) = OUTERQSZ" using assms(2) by (simp add: world_ok_def zeroed_def)
  from mqueue_new_freeq_state(1,2) [OF this, of "en_egbufs w" "en_egspace w" MAXBUF HDRSPACE, folded q]
  have "mqueue_ok (m_freeq (eg_mem (pg_egress pg)))" "mqueue_contents (m_freeq (eg_mem (pg_egress pg))) \<noteq> []"
    by (simp_all add: OUTERQSZ_def)
  from mqueue_pop_top [OF this] show ?thesis by (auto simp: program_reader_def read_tfs_start_def Let_def)
qed

text \<open>A system for the examples: one client, one server, cleared memory.\<close>

definition world_demo :: "nat \<Rightarrow> world" where
  "world_demo k =
     \<lparr>en_fd = 3, en_tunsetiff = (\<lambda>_. (0, ''vtun0'')), en_flags = 2, en_gai = 0,
      en_addrs = [\<lparr>at_addr = replicate 16 2, at_socket = 4, at_result = 0\<rparr>], en_peek = 0, en_from = replicate 16 2, en_conn = 0,
      en_inbufs = (\<lambda>_. mbuf_new 0 0), en_inspace = replicate (INNERQSZ * MAXBUF) 0, en_inslots = replicate INNERQSZ 0,
      en_inout = replicate INNERQSZ 0, en_outhdr = 0, en_iovecs = replicate g_max_inner_pkt \<lparr>iov_base = PPad, iov_len = 0\<rparr>,
      en_freem = replicate g_max_inner_pkt 0,
      en_egbufs = (\<lambda>_. mbuf_new 0 0), en_egspace = replicate (OUTERQSZ * MAXBUF) 0, en_egslots = replicate OUTERQSZ 0,
      en_miovs = (\<lambda>_. \<lparr>mi_iov = [], mi_mbufs = [], mi_len = 0, mi_left = 0, mi_niov = 0, mi_maxiov = 0\<rparr>),
      en_iovs = (\<lambda>_. replicate k \<lparr>iov_base = PPad, iov_len = 0\<rparr>), en_ptrs = (\<lambda>_. replicate k 0),
      en_vslots = replicate OUTERQSZ 0, en_egout = replicate OUTERQSZ 0\<rparr>"

lemma world_demo_ok: "int k = int MAXBUF sdiv mtu + 2 \<Longrightarrow> world_ok mtu (world_demo k)"
  by (simp add: world_ok_def world_demo_def ig_memory_def zeroed_def mbuf_new_def)

definition client_demo :: config where
  "client_demo = defaults\<lparr>cf_server := Some ''10.0.0.1'', cf_tfsmtu := 40, cf_txrate := 64000\<rparr>"

definition client_opts :: "opt_result list" where
  "client_opts = [Opt (CHR ''c'') (Some ''10.0.0.1''), Opt (CHR ''m'') (Some ''40''), Opt (CHR ''r'') (Some ''64'')]"

lemma client_demo_options: "options client_opts defaults = Inr client_demo"
  by (simp add: client_opts_def client_demo_def defaults_def arg_of_def atoi_def strtol_def is_space_def is_digit_def digits_value_def)

lemma client_demo_rate: "rate_ok id client_demo" "cf_oneonly client_demo = False"
  by (simp_all add: rate_ok_def client_demo_def tx_pps_def defaults_def)

lemma id_exact: "mono (id :: rat \<Rightarrow> rat)" "id 0 = (0 :: rat)" "id (of_int NSECS_IN_SEC) = (of_int NSECS_IN_SEC :: rat)"
  by (simp_all add: mono_def)

lemma demo_sockets:
  "tun_alloc (en_fd (world_demo k)) (en_tunsetiff (world_demo k)) (en_flags (world_demo k)) dev = Inr (3, ''vtun0'', 2)"
  "\<exists>peer fds. main_socket cf (world_demo k) = Inr (4, peer, fds)"
  by (auto simp: tun_alloc_def IFNAMSIZ_def O_NONBLOCK_def world_demo_def main_socket_def tfs_connect_def tfs_accept_def
      PEERADDR_def splice_at_def Let_def split: option.splits)

text \<open>C29: the program starts. If the options are accepted, the MTU is positive, the rate is a number from 1 on (or
  only one packet is sent at a time, which ignores it), and the system grants the device, the socket and the memory (\<open>world_ok\<close>), then \<open>main\<close>
  reaches its threads: the thread that writes the tunnel gets its period, with the start as its first time stamp; the one that reads
  the tunnel finds its first buffer; and the states in which the four threads start satisfy the invariants that all
  interleavings of their steps keep. \<open>fl\<close> is the rounding to a single-precision number, monotone and exact on \<open>10^9\<close>.\<close>

theorem main_starts_in_invariants:
  assumes "options rs defaults = Inr cf" "0 < cf_tfsmtu cf" "world_ok (cf_tfsmtu cf) w"
    and "0 \<le> en_fd w" "\<forall>nm. 0 \<le> fst (en_tunsetiff w nm) \<and> length (snd (en_tunsetiff w nm)) < IFNAMSIZ"
    and "main_socket cf w = Inr (s, peer, fds)"
    and "rate_ok fl cf" "mono fl" "fl 0 = 0" "fl (of_int NSECS_IN_SEC) = of_int NSECS_IN_SEC" "ts_ok now'"
  shows "\<exists>pg sd rt. main_program rs w = Inr pg \<and> pg_cf pg = cf \<and> pg_sock pg = s \<and>
    program_writer fl now now' w pg = Inr sd \<and>
    (if cf_oneonly cf then sd_fb sd = pg_fb pg
     else \<exists>p. g_pps (sd_fb sd) = Some p \<and> pps_ok p \<and> pd_timestamp (pps_periodic p) = now') \<and>
    inv_at (cf_oneonly cf) (cf_dontfrag cf) INNERQSZ (cf_tfsmtu cf)
      \<lparr>fi_wt = sd_wt sd, fi_reader = None, fi_writer = WIdle\<rparr> None [] \<and>
    program_reader now2 timer pg = Inr rt \<and> rx_inv OUTERQSZ OUTERQSZ (rx_begin rt)"
proof -
  obtain rc nm where i: "en_tunsetiff w (take IFNAMSIZ (cf_devname cf)) = (rc, nm)" by fastforce
  with assms(5) have "0 \<le> rc" "length nm < IFNAMSIZ" by (metis fst_conv, metis snd_conv)
  with i assms(4) obtain flags where t: "tun_alloc (en_fd w) (en_tunsetiff w) (en_flags w) (cf_devname cf) = Inr (en_fd w, nm, flags)"
    by (simp add: tun_alloc_def)
  obtain eg a d where "main_egress cf w = Inr (eg, a, d)"
    using assms(2) by (simp add: main_egress_def tfs_tunnel_egress_def case_prod_unfold Let_def)
  with t assms(1,6) obtain pg where pg: "main_program rs w = Inr pg" "pg_cf pg = cf" "pg_sock pg = s"
    by (simp add: main_program_def)
  from program_reader_starts [OF pg(1)] assms(3) pg(2) obtain rt where rt: "program_reader now2 timer pg = Inr rt" by blast
  from program_writer_starts [where pg = pg and w = w and now = now] assms(7-11) pg(2) obtain sd where
    sd: "program_writer fl now now' w pg = Inr sd" "if cf_oneonly cf then sd_fb sd = pg_fb pg
      else \<exists>p. g_pps (sd_fb sd) = Some p \<and> pps_ok p \<and> pd_timestamp (pps_periodic p) = now'" by (auto simp del: id_apply)
  note st = program_starts [OF pg(1), unfolded pg(2), OF assms(3,2)]
  have "inv_at (cf_oneonly cf) (cf_dontfrag cf) INNERQSZ (cf_tfsmtu cf) \<lparr>fi_wt = sd_wt sd, fi_reader = None, fi_writer = WIdle\<rparr> None []"
    using wt_inv_fine [of INNERQSZ "sd_wt sd" "cf_oneonly cf" "cf_dontfrag cf" "cf_tfsmtu cf"] st(1,2)
      program_writer_start [OF sd(1)] by simp
  with pg sd rt rx_begin_inv [OF st(3) [OF rt]] show ?thesis by blast
qed

theorem main_starts_in_invariants_witness:
  "\<exists>pg sd rt. main_program client_opts (world_demo 232) = Inr pg \<and>
     pg_sock pg = 4 \<and> program_writer id (Timespec 1 0) (Timespec 1 0) (world_demo 232) pg = Inr sd \<and> g_pps (sd_fb sd) \<noteq> None \<and>
     program_reader (Timespec 1 0) (st_reset (Timespec 1 0) 0) pg = Inr rt"
proof -
  have w: "world_ok (cf_tfsmtu client_demo) (world_demo 232)"
    by (rule world_demo_ok) (simp add: client_demo_def MAXBUF_def signed_divide_int_def)
  have t: "0 \<le> en_fd (world_demo 232)" "0 < cf_tfsmtu client_demo" "ts_ok (Timespec 1 0)"
    "\<forall>nm. 0 \<le> fst (en_tunsetiff (world_demo 232) nm) \<and> length (snd (en_tunsetiff (world_demo 232) nm)) < IFNAMSIZ"
    by (simp_all add: world_demo_def IFNAMSIZ_def client_demo_def ts_defs)
  from demo_sockets(2) obtain peer fds where "main_socket client_demo (world_demo 232) = Inr (4, peer, fds)" by blast
  from main_starts_in_invariants [OF client_demo_options t(2) w t(1,4) this client_demo_rate(1) id_exact t(3),
      of "Timespec 1 0" "Timespec 1 0" "st_reset (Timespec 1 0) 0"] client_demo_rate(2)
  show ?thesis by (auto simp del: id_apply)
qed

text \<open>C30: an MTU that is not a number, or 0, ends the program. \<open>atoi\<close> gives 0, which nothing checks, and
  the set-up of the receiving side divides by it once the device and the socket are there.\<close>

theorem zero_mtu_divides:
  assumes "options rs defaults = Inr cf" "cf_tfsmtu cf = 0"
    and "tun_alloc (en_fd w) (en_tunsetiff w) (en_flags w) (cf_devname cf) = Inr (fd, dev, flags)"
    and "main_socket cf w = Inr (s, peer, fds)"
  shows "main_program rs w = Inl DivByZero"
  using assms by (simp add: main_program_def main_egress_def tfs_tunnel_egress_def case_prod_unfold Let_def)

theorem zero_mtu_divides_witness:
  "main_program [Opt (CHR ''m'') (Some ''large'')] (world_demo 8) = Inl DivByZero"
proof -
  have o: "options [Opt (CHR ''m'') (Some ''large'')] defaults = Inr (defaults\<lparr>cf_tfsmtu := 0\<rparr>)"
    by (simp add: arg_of_def atoi_def strtol_def is_space_def is_digit_def digits_value_def)
  from demo_sockets(2) obtain peer fds where "main_socket (defaults\<lparr>cf_tfsmtu := 0\<rparr>) (world_demo 8) = Inr (4, peer, fds)" by blast
  from zero_mtu_divides [OF o _ demo_sockets(1) this] show ?thesis by simp
qed

section \<open>From command line to command line\<close>

text \<open>C1: the tunnel delivers. One end is started by \<open>main\<close> from its command line, and its writer has got its rate; so
  is the other, each over memory of the sizes asked for, zero where the code does not clear it (\<open>world_ok\<close>). At each
  end the threads interleave in any way. If the data packets that arrive at the second end are the datagrams of the
  first in their order, none lost, whatever reports and stray datagrams come between, then every inner packet read at the
  first end is written unaltered at the second, or is complete and in the hands of the receiver, to be cut out of the
  tunnel packet that it works on, in flight with a part at either end, or in the sender's queue; and nothing else is
  written. The conditions: an MTU from 15 to what a buffer has room for; datagrams sent in full, and fewer than
  \<open>2^32 - 1\<close>, so that the sequence number does not wrap; the sender is between two datagrams; the receiver has no
  congestion limit; and every inner packet has the length that \<open>add_to_inner_packet\<close> reads in it (\<open>inner_ok\<close>), as packets of
  IPv4 have. Those of IPv6 do not, for their length field leaves out the header: they are not covered, and
  \<open>EgressProps.ipv6_packet_truncated\<close> shows why.\<close>

theorem program_delivers:
  assumes "main_program rs w = Inr pg" "world_ok (cf_tfsmtu (pg_cf pg)) w"
    and "14 < cf_tfsmtu (pg_cf pg)" "cf_tfsmtu (pg_cf pg) \<le> int (MAXBUF - HDRSPACE)"
    and "program_writer fl now now' w pg = Inr sd"
    and "fine_run (cf_oneonly (pg_cf pg)) (cf_dontfrag (pg_cf pg)) (cf_tfsmtu (pg_cf pg))
      \<lparr>fi_wt = sd_wt sd, fi_reader = None, fi_writer = WIdle\<rparr> es ds s"
    and "fi_writer s = WIdle" "full_sends (cf_tfsmtu (pg_cf pg)) es" "length ds < 2 ^ 32 - 1" "\<forall>p \<in> set (taken_in es). inner_ok p"
    and "main_program rs2 w2 = Inr pg2" "world_ok (cf_tfsmtu (pg_cf pg2)) w2"
    and "0 < cf_tfsmtu (pg_cf pg2)" "cf_congest (pg_cf pg2) = 0"
    and "program_reader now2 timer pg2 = Inr rt"
    and "rx_fine_run (cf_oneonly (pg_cf pg2)) (rx_begin rt) evs ws s2" "data_arrived evs = ds"
  shows "\<exists>ds' r. pend (rf_rt s2) (rf_reader s2) = Inr (ds', r) \<and>
    mset (taken_in es) = mset ws + mset (in_hand s2) + mset ds' + mset (in_flight (lo_of (fi_wt s)) r) + mset (fine_queue s)"
proof -
  from main_program_parts(3) [OF assms(11)] obtain a d where e: "main_egress (pg_cf pg2) w2 = Inr (pg_egress pg2, a, d)" by blast
  from assms(2,12) have m: "ig_memory (en_inbufs w) (en_inspace w) (en_inslots w) (en_inout w) (en_iovecs w) (en_freem w)"
    "zeroed (en_egbufs w2) (en_egspace w2) (en_egslots w2) (en_miovs w2) (en_vslots w2) (en_egout w2)"
    by (simp_all add: world_ok_def)
  note run = assms(6) [unfolded program_writer_start [OF assms(5)] main_program_parts(2) [OF assms(1)]]
  show ?thesis
    by (rule tunnel_run_delivers [OF m(1) assms(3,4) run assms(7-10) m(2)
          world_arrays [OF assms(12,13)] e [unfolded main_egress_def] assms(15) [unfolded program_reader_def assms(14)] assms(16,17)])
qed

lemma main_demo:
  assumes "options rs defaults = Inr cf" "cf_tfsmtu cf \<noteq> 0"
  shows "\<exists>pg. main_program rs (world_demo k) = Inr pg \<and> pg_cf pg = cf"
proof -
  from demo_sockets(2) obtain peer fds where s: "main_socket cf (world_demo k) = Inr (4, peer, fds)" by blast
  obtain eg a d where "main_egress cf (world_demo k) = Inr (eg, a, d)"
    using assms(2) by (simp add: main_egress_def tfs_tunnel_egress_def case_prod_unfold Let_def)
  then show ?thesis using assms(1) s by (simp add: main_program_def demo_sockets(1))
qed

theorem program_delivers_witness:
  "\<exists>pg sd es s pg2 rt evs rt'. main_program client_opts (world_demo 232) = Inr pg \<and>
     program_writer id (Timespec 1 0) (Timespec 1 0) (world_demo 232) pg = Inr sd \<and>
     fine_run False False 40 \<lparr>fi_wt = sd_wt sd, fi_reader = None, fi_writer = WIdle\<rparr>
       es [wire (1, 0, demo_inner @ replicate 25 0)] s \<and> taken_in es = [demo_inner] \<and>
     main_program [] (world_demo 8) = Inr pg2 \<and>
     program_reader (Timespec 1 0) \<lparr>st_ts = Timespec 0 0, st_nsecs = 0\<rparr> pg2 = Inr rt \<and>
     rx_fine_run False (rx_begin rt) evs [demo_inner] (rx_begin rt') \<and> out_bytes (rt_eg rt') = [] \<and> fine_queue s = []"
proof -
  let ?d = "demo_inner @ replicate 25 0"
  let ?w = "world_demo 232" and ?w2 = "world_demo 8" and ?t = "Timespec 1 0"
  have c: "cf_tfsmtu client_demo = 40" "cf_oneonly client_demo = False" "cf_dontfrag client_demo = False"
    "cf_tfsmtu defaults = 1500" "cf_oneonly defaults = False" "cf_congest defaults = 0"
    by (simp_all add: client_demo_def defaults_def)
  from main_demo [OF client_demo_options] c obtain pg where
    pg: "main_program client_opts ?w = Inr pg" "pg_cf pg = client_demo" by auto
  from main_demo [of "[]"] c obtain pg2 where pg2: "main_program [] ?w2 = Inr pg2" "pg_cf pg2 = defaults" by auto
  have "ts_ok ?t" by (simp add: ts_defs)
  from program_writer_starts [OF client_demo_rate(1) [folded pg(2)] id_exact this, of ?t ?w] obtain sd where
    sd: "program_writer id ?t ?t ?w pg = Inr sd" by blast
  have wd: "sd_wt sd = ingress_demo"
    unfolding program_writer_start [OF sd] main_program_parts(2) [OF pg(1)] by (simp add: ingress_demo_def world_demo_def)
  from tunnel_run_demo obtain wt' es rt evs rt' where r: "fine_run False False 40 \<lparr>fi_wt = ingress_demo, fi_reader = None, fi_writer = WIdle\<rparr>
      es [wire (1, 0, ?d)] \<lparr>fi_wt = wt', fi_reader = None, fi_writer = WIdle\<rparr>" "taken_in es = [demo_inner]" "full_sends 40 es"
    "start_demo = Inr rt" "rx_fine_run False (rx_begin rt) evs [demo_inner] (rx_begin rt')" "data_arrived evs = [wire (1, 0, ?d)]" by blast
  let ?s = "\<lparr>fi_wt = wt', fi_reader = None, fi_writer = WIdle\<rparr>"
  from main_program_parts(3) [OF pg2(1)] obtain a d where
    e: "main_egress defaults ?w2 = Inr (pg_egress pg2, a, d)"
      "pg_fb pg2 = \<lparr>g_avgpps = Some a, g_avgdrops = Some d, g_pps = None\<rparr>" using pg2(2) by auto
  with r(4) have go: "program_reader ?t \<lparr>st_ts = Timespec 0 0, st_nsecs = 0\<rparr> pg2 = Inr rt"
    by (simp add: program_reader_def pg2(2) c start_demo_def main_egress_def world_demo_def)
  have w: "world_ok (cf_tfsmtu (pg_cf pg)) ?w" "world_ok (cf_tfsmtu (pg_cf pg2)) ?w2"
    unfolding pg(2) pg2(2) c by (rule world_demo_ok, simp add: MAXBUF_def signed_divide_int_def)+
  have p: "14 < cf_tfsmtu (pg_cf pg)" "cf_tfsmtu (pg_cf pg) \<le> int (MAXBUF - HDRSPACE)" "fi_writer ?s = WIdle"
    "full_sends (cf_tfsmtu (pg_cf pg)) es"
    "length [wire (1, 0, ?d)] < 2 ^ 32 - 1" "\<forall>p \<in> set (taken_in es). inner_ok p"
    "0 < cf_tfsmtu (pg_cf pg2)" "cf_congest (pg_cf pg2) = 0"
    unfolding r(2) pg(2) pg2(2) c using demo_inner_ok r(3) by (simp_all add: const_defs)
  have run: "fine_run (cf_oneonly (pg_cf pg)) (cf_dontfrag (pg_cf pg)) (cf_tfsmtu (pg_cf pg))
      \<lparr>fi_wt = sd_wt sd, fi_reader = None, fi_writer = WIdle\<rparr> es [wire (1, 0, ?d)] ?s"
    "rx_fine_run (cf_oneonly (pg_cf pg2)) (rx_begin rt) evs [demo_inner] (rx_begin rt')"
    unfolding wd pg(2) pg2(2) c using r by simp_all
  from program_delivers [OF pg(1) w(1) p(1,2) sd run(1) p(3-6) pg2(1) w(2) p(7,8) go run(2) r(6)]
  have "mset [demo_inner] = mset [demo_inner] + mset (out_bytes (rt_eg rt')) +
      mset (in_flight (lo_of (fi_wt ?s)) (rx_of (rt_eg rt') (rt_m rt'))) + mset (fine_queue ?s)" by (simp add: r(2))
  then have "out_bytes (rt_eg rt') = []" "fine_queue ?s = []" by simp_all
  with pg(1) pg2(1) sd go r(1,2,5) wd show ?thesis by auto
qed

end
