(* ===== verification/EgressProps.thy ===== *)
theory EgressProps
  imports EgressSetup
begin

text \<open>
  Properties of the receiving thread on lost, repeated and hostile datagrams.
\<close>

section \<open>Losses\<close>

text \<open>C8: one datagram of the receiver's life. A data packet newer than the last one is
  reassembled as the framing specification says; if packets before it were lost, the unfinished inner packet is
  dropped first and the receiver picks up at the first inner packet that starts in the new one.\<close>

theorem data_packet_resynchronises:
  assumes "rt_inv nv nb rt" "rt_rl rt = None" "read_tfs_report oneonly now1 rt = Inr (pkt0, rt1)"
    and "d \<noteq> []" "length d \<le> MAXBUF - HDRSPACE - 8" "ack_last (rt_ack rt1) < seq"
    and "read_tfs_step oneonly now1 (Recv (tfs_bytes seq off d)) now2 rt = Inr (pkt, rt')"
  shows "\<exists>ds. rx_packet (unat off) d
        (if seq \<noteq> ack_last (rt_ack rt1) + 1 \<and> ack_last (rt_ack rt1) \<noteq> 0 then RxIdle else rx_of (rt_eg rt) (rt_m rt)) =
        Inr (ds, rx_of (rt_eg rt') (rt_m rt')) \<and>
      out_bytes (rt_eg rt') = out_bytes (rt_eg rt) @ ds \<and> ack_last (rt_ack rt') = seq"
  using read_tfs_step_rx [OF assms] by (auto simp: lost_before_def)

theorem data_packet_resynchronises_witness:
  "\<exists>rt pkt rt'. start_demo = Inr rt \<and>
     read_tfs_step False (Timespec 1 500) (Recv (tfs_bytes 1 0 demo_payload)) (Timespec 1 600) rt = Inr (pkt, rt') \<and>
     rx_of (rt_eg rt') (rt_m rt') = RxPartial [0x45, 0, 0, 9, 40] 4 \<and> out_bytes (rt_eg rt') = [[0x45, 0, 0, 7, 10, 20, 30]]"
proof -
  from start_demo_inv obtain rt where 0: "start_demo = Inr rt" "rt_inv OUTERQSZ OUTERQSZ rt"
    "rx_of (rt_eg rt) (rt_m rt) = RxIdle" "out_bytes (rt_eg rt) = []" "rt_rl rt = None" "ack_last (rt_ack rt) = 0" by blast
  from report_progress [of "Timespec 1 500" rt] obtain pkt0 rt0 where
    rep: "read_tfs_report False (Timespec 1 500) rt = Inr (pkt0, rt0)" by blast
  from demo_run obtain rt2 rt3 where 2: "start_demo = Inr rt2"
    "egress_run False rt2 [Turn (Timespec 1 500) (Recv (tfs_bytes 1 0 demo_payload)) (Timespec 1 600), WriteIntf]
       [[0x45, 0, 0, 7, 10, 20, 30]] rt3" by blast
  have "rt2 = rt" using 0(1) 2(1) by (metis sum.inject(2))
  from 2(2) [unfolded this] obtain pkt rt' where step:
    "read_tfs_step False (Timespec 1 500) (Recv (tfs_bytes 1 0 demo_payload)) (Timespec 1 600) rt = Inr (pkt, rt')"
    by (elim run_ConsE turnE) blast
  have "demo_payload \<noteq> []" "length demo_payload \<le> MAXBUF - HDRSPACE - 8" by (simp_all add: demo_payload_def const_defs)
  moreover have "ack_last (rt_ack rt0) = 0" using report_last [OF rep] 0(6) by auto
  ultimately show ?thesis
    using data_packet_resynchronises [OF 0(2,5) rep _ _ _ step] demo_payload_rx 0 step by auto
qed

text \<open>Repeated and late packets have no effect: a data packet that is not newer than the last one
  changes neither the buffers, the queues and the inner packet in progress, nor the counts of the report.\<close>

theorem old_data_ignored:
  assumes "seq \<le> ack_last (rt_ack rt)"
  shows "\<exists>s. read_tfs_data seq rt = Inr (rt\<lparr>rt_ack := (rt_ack rt)\<lparr>ack_start := s\<rparr>\<rparr>)"
  using assms by (intro exI [of _ "if ack_start (rt_ack rt) = 0 then seq else ack_start (rt_ack rt)"])
    (simp add: read_tfs_data_def Let_def)

theorem old_data_ignored_witness:
  "\<exists>rt s. start_demo = Inr rt \<and> read_tfs_data 0 rt = Inr (rt\<lparr>rt_ack := (rt_ack rt)\<lparr>ack_start := s\<rparr>\<rparr>)"
proof -
  from start_demo_inv obtain rt where "start_demo = Inr rt" "ack_last (rt_ack rt) = 0" by blast
  with old_data_ignored [of 0 rt] show ?thesis by auto
qed

section \<open>The report resets the sequence check\<close>

lemma report_sent_zero:
  "read_tfs_report oneonly now rt = Inr (Some pkt, rt1) \<Longrightarrow> ack_last (rt_ack rt1) = 0"
  by (auto simp: read_tfs_report_def Let_def res_simps send_ack_def ack_zero_def split: if_splits prod.splits)

text \<open>C18: a report hides the next loss. Sending one zeroes the last sequence number, so the
  next data packet is taken as the successor whatever its number: when packets were lost in between and its
  offset does not match the inner packet in progress, the receiver does not resynchronise but aborts.\<close>

theorem loss_after_report_aborts:
  assumes "read_tfs_report oneonly now rt0 = Inr (Some pkt, rt1)" "rt_ack rt = rt_ack rt1"
    and "good nv (rt_tbuf rt) (rt_eg rt) (rt_m rt)" "8 < length (rest (rt_eg rt) (rt_tbuf rt))"
      "length (rest (rt_eg rt) (rt_tbuf rt)) < 65536 + 8"
    and "rx_of (rt_eg rt) (rt_m rt) = RxPartial acc left"
    and "8 + unat (get16 (rest (rt_eg rt) (rt_tbuf rt)) 6) \<le> length (rest (rt_eg rt) (rt_tbuf rt))"
      "unat (get16 (rest (rt_eg rt) (rt_tbuf rt)) 6) \<noteq> left" "seq \<noteq> 0"
  shows "read_tfs_data seq rt = Inl Assertion"
proof -
  have last: "ack_last (rt_ack rt) = 0" using report_sent_zero [OF assms(1)] assms(2) by simp
  have "rx_packet (unat (get16 (rest (rt_eg rt) (rt_tbuf rt)) 6)) (drop 8 (rest (rt_eg rt) (rt_tbuf rt)))
      (rx_of (rt_eg rt) (rt_m rt)) = Inl Assertion"
    using assms(6-8) by (auto simp: rx_packet_def)
  from add_to_inner_packet_Inl [OF assms(3-5) this]
  show ?thesis using assms(9) by (cases "rt_m rt") (auto simp: read_tfs_data_def Let_def last)
qed

text \<open>A reader that holds a beginning, with a report due.\<close>

definition demo_reader :: rtfs where
  "demo_reader =
     \<lparr>rt_eg = demo_held [0x45, 0, 0, 9, 40] demo_packet 4, rt_tbuf = 0, rt_m = Some 2,
      rt_ack = \<lparr>ack_start = 1, ack_last = 5, ack_ndrop = 0\<rparr>, rt_rl = None,
      rt_timer = st_reset (Timespec 1 0) 1000000000, rt_ackbuf = ack_buffer, rt_fb = feedback_demo\<rparr>"

theorem loss_after_report_aborts_witness:
  "\<exists>pkt rt1. read_tfs_report False (Timespec 2 1) demo_reader = Inr (Some pkt, rt1) \<and>
     read_tfs_data 9 rt1 = Inl Assertion"
proof -
  have "fst (st_check (Timespec 2 1) (rt_timer demo_reader))"
    by (simp add: demo_reader_def st_check_def st_reset_def clock_delta_def Let_def NSECS_IN_SEC_def)
  then obtain pkt rt1 where r: "read_tfs_report False (Timespec 2 1) demo_reader = Inr (Some pkt, rt1)"
    "rt_eg rt1 = rt_eg demo_reader" "rt_tbuf rt1 = 0" "rt_m rt1 = Some 2"
    by (cases "st_check (Timespec 2 1) (rt_timer demo_reader)")
       (simp add: read_tfs_report_def send_ack_def demo_reader_def Let_def)
  from loss_after_report_aborts [OF r(1) refl, of 3 "[0x45, 0, 0, 9, 40]" 4 9]
    demo_held_good [of "[0x45, 0, 0, 9, 40]" demo_packet 4] r show ?thesis
    by (simp add: demo_reader_def demo_held_facts) (simp add: demo_packet_def get16_def)
qed

section \<open>Datagrams that end the program or mislead it\<close>

text \<open>C21: eight bytes end the program. The reader lets a datagram of eight bytes in, for it drops only shorter ones, and
  when it is a data packet newer than the last one, whatever the receiver holds, the turn ends in the assertion of
  \<open>add_to_inner_packet\<close> that there are more.\<close>

theorem header_only_packet_aborts:
  assumes "rt_inv nv nb rt" "rt_rl rt = None" "read_tfs_report oneonly now1 rt = Inr (pkt, rt1)"
    and "mb_refcnt (eg_mbuf (rt_eg rt) (rt_tbuf rt)) = 1 \<or> mqueue_contents (m_freeq (eg_mem (rt_eg rt))) \<noteq> []"
    and "ack_last (rt_ack rt1) < seq"
  shows "read_tfs_step oneonly now1 (Recv (tfs_bytes seq off [])) now2 rt = Inl Assertion"
proof -
  have sys: "sys_inv nv nb (rt_eg rt) (rt_tbuf rt) (rt_m rt)" using assms(1) by (simp add: rt_inv_def)
  from tbuf_turn_progress [OF sys assms(4)] obtain a eg where turn: "tbuf_turn (rt_tbuf rt) (rt_eg rt) = Inr (a, eg)" by blast
  from read_tfs_step_data [OF assms(1-3) turn, of "[]" seq off now2] obtain rt5 where
    5: "read_tfs_step oneonly now1 (Recv (tfs_bytes seq off [])) now2 rt = bindE (read_tfs_data seq rt5) (\<lambda>rt'. Inr (pkt, rt'))"
      "rt_inv nv nb rt5" "rest (rt_eg rt5) (rt_tbuf rt5) = tfs_bytes seq off []" "rt_ack rt5 = rt_ack rt1" by auto
  let ?eg = "rt_eg rt5" and ?tb = "rt_tbuf rt5" and ?m = "rt_m rt5"
  have sys5: "sys_inv nv nb ?eg ?tb ?m" using 5(2) by (simp add: rt_inv_def)
  have ab: "add_to_inner_packet ?tb True ?m eg1 = Inl Assertion"
    if "sys_inv nv nb eg1 ?tb ?m" "rest eg1 ?tb = rest ?eg ?tb" for eg1
    using header_only_aborts [of eg1 ?tb ?m] that 5(3) by (simp add: sys_inv_frame)
  have "read_tfs_data seq rt5 = Inl Assertion"
  proof (cases ?m)
    case None
    then show ?thesis using ab [OF sys5 refl] assms(5) 5(4) by (simp add: read_tfs_data_def Let_def)
  next
    case (Some v)
    from loss_sys [OF sys5 [unfolded Some]] obtain s where "miov_reset (eg_mem ?eg) v = Inr s"
      "sys_inv nv nb (?eg\<lparr>eg_mem := s\<rparr>) ?tb ?m" "rest (?eg\<lparr>eg_mem := s\<rparr>) ?tb = rest ?eg ?tb" unfolding Some by blast
    with ab [OF this(2,3)] ab [OF sys5 refl] Some assms(5) 5(4) show ?thesis
      by (auto simp: read_tfs_data_def Let_def)
  qed
  with 5(1) show ?thesis by simp
qed

theorem header_only_packet_aborts_witness:
  "\<exists>rt. start_demo = Inr rt \<and>
     read_tfs_step False (Timespec 1 500) (Recv [0, 0, 0, 1, 0, 0, 0, 0]) (Timespec 1 600) rt = Inl Assertion"
proof -
  from start_demo_inv obtain rt where 0: "start_demo = Inr rt" "rt_inv OUTERQSZ OUTERQSZ rt" "rt_rl rt = None"
    "ack_last (rt_ack rt) = 0" "mqueue_contents (m_freeq (eg_mem (rt_eg rt))) \<noteq> []" by blast
  from report_progress [of "Timespec 1 500" rt] obtain pkt rt0 where
    rep: "read_tfs_report False (Timespec 1 500) rt = Inr (pkt, rt0)" by blast
  have "ack_last (rt_ack rt0) < 1" using report_last [OF rep] 0(4) by auto
  from header_only_packet_aborts [OF 0(2,3) rep _ this, of 0 "Timespec 1 600"] 0(5) have
    "read_tfs_step False (Timespec 1 500) (Recv (tfs_bytes 1 0 [])) (Timespec 1 600) rt = Inl Assertion" by simp
  moreover have "tfs_bytes 1 0 [] = [0, 0, 0, 1, 0, 0, 0, 0]"
    by (simp add: tfs_bytes_def put32_def put16_def splice_at_def numeral_eq_Suc)
  ultimately show ?thesis using 0(1) by auto
qed

text \<open>C20: the tunnel cuts IPv6 short. The length field of an IPv6 packet leaves out the header of 40 bytes, and the receiver takes
  it for the length of the packet. When a data packet starts with an IPv6 packet that has a payload, and no inner
  packet is in progress, a turn that returns queues the packet without its last 40 bytes, and goes on to cut those into
  inner packets.\<close>

theorem ipv6_packet_truncated:
  assumes "rt_inv nv nb rt" "rt_rl rt = None" "read_tfs_report oneonly now1 rt = Inr (pkt0, rt1)"
    and "ipv6_ok p" "40 < length p" "length (p @ q) \<le> MAXBUF - HDRSPACE - 8" "ack_last (rt_ack rt1) < seq"
    and "rx_of (rt_eg rt) (rt_m rt) = RxIdle"
    and "read_tfs_step oneonly now1 (Recv (tfs_bytes seq 0 (p @ q))) now2 rt = Inr (pkt, rt')"
  shows "out_bytes (rt_eg rt') =
    out_bytes (rt_eg rt) @ take (length p - 40) p # fst (rx_blocks (drop (length p - 40) p @ q))"
proof -
  have "p @ q \<noteq> []" using assms(5) by auto
  from read_tfs_step_rx [OF assms(1-3) this assms(6,7,9)] obtain ds where
    "rx_packet (unat (0 :: u16)) (p @ q) RxIdle = Inr (ds, rx_of (rt_eg rt') (rt_m rt'))"
    "out_bytes (rt_eg rt') = out_bytes (rt_eg rt) @ ds" unfolding assms(8) by auto
  moreover have "rx_packet (unat (0 :: u16)) d RxIdle = Inr (rx_blocks d)" if "d \<noteq> []" for d
    using that by (simp add: rx_packet_def)
  ultimately show ?thesis using rx_blocks_ipv6 [OF assms(4,5), of q] \<open>p @ q \<noteq> []\<close> by simp
qed

text \<open>An IPv6 packet with eight bytes of payload.\<close>

definition demo_ipv6 :: bytes where
  "demo_ipv6 = [0x60, 0, 0, 0, 0, 8, 17, 64] @ (0xFD # replicate 15 1) @ (0xFD # replicate 15 2) @ [0, 53, 0, 53, 0, 8, 0, 0]"

lemma demo_ipv6_facts:
  "ipv6_ok demo_ipv6" "length demo_ipv6 = 48"
  "rx_packet (unat (0 :: u16)) demo_ipv6 RxIdle = Inr ([take 8 demo_ipv6], RxShort (drop 8 demo_ipv6))"
proof -
  show 1: "ipv6_ok demo_ipv6" "length demo_ipv6 = 48" by (simp_all add: demo_ipv6_def ipv6_ok_def get16_def)
  have "rx_blocks (drop 8 demo_ipv6) = ([], RxShort (drop 8 demo_ipv6))"
    by (subst rx_blocks.simps) (simp add: demo_ipv6_def is_pad_def block_len_def)
  with rx_blocks_ipv6 [OF 1(1), of "[]"] 1(2) show
    "rx_packet (unat (0 :: u16)) demo_ipv6 RxIdle = Inr ([take 8 demo_ipv6], RxShort (drop 8 demo_ipv6))"
    by (simp add: rx_packet_def)
qed

theorem ipv6_packet_truncated_witness:
  "\<exists>rt pkt rt'. start_demo = Inr rt \<and>
     read_tfs_step False (Timespec 1 500) (Recv (tfs_bytes 1 0 demo_ipv6)) (Timespec 1 600) rt = Inr (pkt, rt') \<and>
     out_bytes (rt_eg rt') = [[0x60, 0, 0, 0, 0, 8, 17, 64]]"
proof -
  from start_demo_inv obtain rt where 0: "start_demo = Inr rt" "rt_inv OUTERQSZ OUTERQSZ rt"
    "rx_of (rt_eg rt) (rt_m rt) = RxIdle" "out_bytes (rt_eg rt) = []" "rt_rl rt = None" "ack_last (rt_ack rt) = 0"
    "rt_m rt = None" "length (free_list (rt_eg rt)) = OUTERQSZ" "mqueue_contents (m_freeq (eg_mem (rt_eg rt))) \<noteq> []"
    by blast
  from report_progress [of "Timespec 1 500" rt] obtain pkt rt0 where
    rep: "read_tfs_report False (Timespec 1 500) rt = Inr (pkt, rt0)" by blast
  have last: "ack_last (rt_ack rt0) = 0" using report_last [OF rep] 0(6) by auto
  have seq: "ack_last (rt_ack rt0) < 1" "\<not> lost_before 1 (rt_ack rt0)" using last by (simp_all add: lost_before_def)
  note p = demo_ipv6_facts
  have d: "demo_ipv6 \<noteq> []" "length demo_ipv6 \<le> MAXBUF - HDRSPACE - 8" using p(2) by (auto simp: const_defs)
  obtain rt' where 1: "read_tfs_step False (Timespec 1 500) (Recv (tfs_bytes 1 0 demo_ipv6)) (Timespec 1 600) rt = Inr (pkt, rt')"
    using read_tfs_step_progress [OF 0(2,5) rep _ d seq, where off = 0 and ds = "[take 8 demo_ipv6]" and
        r' = "RxShort (drop 8 demo_ipv6)"] 0 p(3) by (auto simp: OUTERQSZ_def)
  have "rx_blocks (drop 8 demo_ipv6) = ([], RxShort (drop 8 demo_ipv6))"
    by (subst rx_blocks.simps) (simp add: demo_ipv6_def is_pad_def block_len_def)
  with ipv6_packet_truncated [OF 0(2,5) rep p(1) _ _ seq(1) 0(3), of "[]" "Timespec 1 600" pkt rt'] 1 d(2) p(2) 0(4)
  have "out_bytes (rt_eg rt') = [take 8 demo_ipv6]" by simp
  then have "out_bytes (rt_eg rt') = [[0x60, 0, 0, 0, 0, 8, 17, 64]]" by (simp add: demo_ipv6_def)
  with 0(1) 1 show ?thesis by blast
qed

section \<open>The order of inner packets\<close>

lemma write_all_reversed:
  assumes "rt_inv nv nb rt"
  shows "\<exists>rt'. egress_run oneonly rt (replicate (length (out_bytes (rt_eg rt))) WriteIntf) (rev (out_bytes (rt_eg rt))) rt' \<and>
    out_bytes (rt_eg rt') = []"
  using assms
proof (induction "length (out_bytes (rt_eg rt))" arbitrary: rt)
  case 0
  then show ?case using done_run [of oneonly rt] by auto
next
  case (Suc n)
  have sys: "sys_inv nv nb (rt_eg rt) (rt_tbuf rt) (rt_m rt)" using Suc.prems by (simp add: rt_inv_def)
  from Suc.hyps(2) have ne: "out_bytes (rt_eg rt) \<noteq> []" by auto
  then have "out_list (rt_eg rt) \<noteq> []" by (auto simp: out_bytes_def)
  from write_intf_sys [OF sys this] obtain eg where
    w: "write_intf_step (rt_eg rt) = Inr (last (out_bytes (rt_eg rt)), eg)" "out_bytes eg = butlast (out_bytes (rt_eg rt))" by blast
  let ?rt1 = "rt\<lparr>rt_eg := eg\<rparr>"
  from write_step_sys [OF Suc.prems w(1)] have inv: "rt_inv nv nb ?rt1" by blast
  have n: "n = length (out_bytes (rt_eg ?rt1))" using Suc.hyps(2) w(2) by simp
  from Suc.hyps(1) [OF n inv, folded n] w(2) obtain rt' where
    r: "egress_run oneonly ?rt1 (replicate n WriteIntf) (rev (butlast (out_bytes (rt_eg rt)))) rt'" "out_bytes (rt_eg rt') = []" by auto
  have rv: "rev (out_bytes (rt_eg rt)) = last (out_bytes (rt_eg rt)) # rev (butlast (out_bytes (rt_eg rt)))"
    using ne by (cases "out_bytes (rt_eg rt)" rule: rev_cases) simp_all
  from step_run [OF wrt [OF w(1)] r(1)] have
    "egress_run oneonly rt (replicate (Suc n) WriteIntf) (rev (out_bytes (rt_eg rt))) rt'" unfolding rv by simp
  with r(2) show ?case unfolding Suc.hyps(2) by blast
qed

text \<open>C10: inner packets that arrive together are written in reverse. After a turn of the reader on a data packet that
  completes the inner packets \<open>ds\<close>, with nothing queued before, the turns of the writer write the last of them first, since
  \<open>miovq_pop\<close> takes the entry pushed last.\<close>

theorem inner_packets_reversed:
  assumes "rt_inv nv nb rt" "rt_rl rt = None" "read_tfs_report oneonly now1 rt = Inr (pkt0, rt1)"
    and "d \<noteq> []" "length d \<le> MAXBUF - HDRSPACE - 8" "ack_last (rt_ack rt1) < seq" "\<not> lost_before seq (rt_ack rt1)"
    and "rx_packet (unat off) d (rx_of (rt_eg rt) (rt_m rt)) = Inr (ds, r')" "out_bytes (rt_eg rt) = []"
    and "read_tfs_step oneonly now1 (Recv (tfs_bytes seq off d)) now2 rt = Inr (pkt, rt2)"
  shows "\<exists>rt'. egress_run oneonly rt (Turn now1 (Recv (tfs_bytes seq off d)) now2 # replicate (length ds) WriteIntf) (rev ds) rt' \<and>
    out_bytes (rt_eg rt') = []"
proof -
  have out: "out_bytes (rt_eg rt2) = ds" using read_tfs_step_rx [OF assms(1-6,10)] assms(7-9) by auto
  from read_tfs_step_sys [OF assms(1,10)] have "rt_inv nv nb rt2" .
  from write_all_reversed [OF this, of oneonly] step_run [OF turn [OF assms(10)]] show ?thesis unfolding out by fastforce
qed

theorem inner_packets_reversed_witness:
  "\<exists>rt rt'. start_demo = Inr rt \<and>
     egress_run False rt [Turn (Timespec 1 500) (Recv (tfs_bytes 1 0 ([0x45, 0, 0, 7, 1, 1, 1] @ [0x45, 0, 0, 7, 2, 2, 2]))) (Timespec 1 600),
         WriteIntf, WriteIntf]
       [[0x45, 0, 0, 7, 2, 2, 2], [0x45, 0, 0, 7, 1, 1, 1]] rt'"
proof -
  let ?p = "[0x45, 0, 0, 7, 1, 1, 1] :: bytes" and ?q = "[0x45, 0, 0, 7, 2, 2, 2] :: bytes"
  from start_demo_inv obtain rt where 0: "start_demo = Inr rt" "rt_inv OUTERQSZ OUTERQSZ rt"
    "rx_of (rt_eg rt) (rt_m rt) = RxIdle" "out_bytes (rt_eg rt) = []" "rt_rl rt = None" "ack_last (rt_ack rt) = 0"
    "rt_m rt = None" "length (free_list (rt_eg rt)) = OUTERQSZ" "mqueue_contents (m_freeq (eg_mem (rt_eg rt))) \<noteq> []"
    by blast
  from report_progress [of "Timespec 1 500" rt] obtain pkt rt0 where
    rep: "read_tfs_report False (Timespec 1 500) rt = Inr (pkt, rt0)" by blast
  have last: "ack_last (rt_ack rt0) = 0" using report_last [OF rep] 0(6) by auto
  have seq: "ack_last (rt_ack rt0) < 1" "\<not> lost_before 1 (rt_ack rt0)" using last by (simp_all add: lost_before_def)
  have d: "?p @ ?q \<noteq> []" "length (?p @ ?q) \<le> MAXBUF - HDRSPACE - 8" by (simp_all add: const_defs)
  have rx: "rx_packet (unat (0 :: u16)) (?p @ ?q) RxIdle = Inr ([?p, ?q], RxIdle)"
    by (simp add: rx_packet_def rx_blocks.simps is_pad_def block_len_def get16_def)
  obtain rt1 where 1: "read_tfs_step False (Timespec 1 500) (Recv (tfs_bytes 1 0 (?p @ ?q))) (Timespec 1 600) rt = Inr (pkt, rt1)"
    using read_tfs_step_progress [OF 0(2,5) rep _ d seq, where off = 0 and ds = "[?p, ?q]" and r' = RxIdle] 0 rx
    by (auto simp: OUTERQSZ_def)
  from inner_packets_reversed [OF 0(2,5) rep d seq rx [folded 0(3)] 0(4) 1] 0(1) show ?thesis by (auto simp: numeral_2_eq_2)
qed

section \<open>Fragments\<close>

text \<open>Nothing bounds the pieces of an inner packet. When the scatter list of the inner packet in progress is
  full, the next packet that belongs to it is written past the ends of the list's two arrays; a peer can
  bring that about with short data packets, since \<open>miov_addmbuf\<close> never looks at \<open>maxiov\<close>.\<close>

theorem fragments_overflow_scatter_list:
  assumes "good nv tb st (Some v)" "8 < length (rest st tb)" "length (rest st tb) < 65536 + 8"
    and "rx_of st (Some v) = RxPartial acc left"
    and "mi_niov (eg_miov st v) = length (mi_iov (eg_miov st v))"
    and "rx_packet (unat (get16 (rest st tb) 6)) (drop 8 (rest st tb)) (RxPartial acc left) = Inr x"
  shows "add_to_inner_packet tb True (Some v) st = Inl OutOfBounds"
  using add_to_inner_packet_full [OF assms(1-4) _ assms(6)] assms(5) by simp

text \<open>The example receiver with room for one piece only in the list it holds.\<close>

definition demo_full :: "bytes \<Rightarrow> bytes \<Rightarrow> int \<Rightarrow> egress" where
  "demo_full acc d left =
     (let st = demo_held acc d left; s = eg_mem st; mi = m_miovs s 2
      in st\<lparr>eg_mem := s\<lparr>m_miovs := (m_miovs s)(2 := mi\<lparr>mi_iov := take 1 (mi_iov mi), mi_mbufs := take 1 (mi_mbufs mi)\<rparr>)\<rparr>\<rparr>)"

lemma demo_full_mem:
  "eg_mbuf (demo_full acc d left) a = eg_mbuf (demo_held acc d left) a"
  "eg_miov (demo_full acc d left) v =
     (if v = 2 then \<lparr>mi_iov = [\<lparr>iov_base = PBuf 1 0, iov_len = int (length acc)\<rparr>],
        mi_mbufs = [1], mi_len = int (length acc), mi_left = left, mi_niov = 1, mi_maxiov = 2\<rparr>
      else eg_miov (demo d) v)"
  "eg_iovfreeq (demo_full acc d left) = \<lparr>vq_queue = [0, 1, 2], vq_size = 3, vq_depth = 2, vq_freeq = True\<rparr>"
  "eg_outq (demo_full acc d left) = miovq_new [0, 0, 0] 3"
  using demo_held_mem(2) [of acc d left 2] demo_held_mem(2) [of acc d left v] demo_held_mem(3,4) [of acc d left]
  by (simp_all add: demo_full_def Let_def eg_mbuf_def eg_miov_def)

lemma demo_full_good:
  assumes "acc \<noteq> []"
  shows "good 3 0 (demo_full acc d left) (Some 2)"
proof -
  let ?st = "demo_full acc d left"
  have n3: "{..<3 :: nat} = {0, 1, 2}" by auto
  have "refs 3 ?st a = (if a = 1 then 1 else 0)" for a
    by (simp add: refs_def n3 demo_full_mem demo_mem miov_refs_def)
  then have "ref_inv 3 0 ?st" by (simp add: ref_inv_def demo_full_mem demo_held_mem demo_mem)
  moreover have "miov_wf ?st (eg_miov ?st v) \<and> 0 < length (mi_iov (eg_miov ?st v))" for v
    using assms by (simp add: miov_wf_def demo_full_mem demo_held_mem demo_mem miov_bytes_def seg_bytes_def subseg_def)
  then have "eg_inv 3 ?st (Some 2)"
    by (simp add: eg_inv_def free_list_def out_list_def)
       (simp add: demo_full_mem demo_mem miovq_ok_def miovq_new_def miovq_contents_def miov_clean_def numeral_2_eq_2)
  moreover have "held_clean ?st (Some 2)" using assms by (simp add: held_clean_def demo_full_mem)
  ultimately show ?thesis by (simp add: good_def demo_full_mem demo_held_mem demo_mem mbuf_wf_def)
qed

theorem fragments_overflow_scatter_list_witness:
  "add_to_inner_packet 0 True (Some 2) (demo_full [0x45, 0, 0, 9] [0, 0, 0, 2, 0, 0, 0, 5, 40] 5) = Inl OutOfBounds"
proof -
  let ?acc = "[0x45, 0, 0, 9] :: bytes" and ?d = "[0, 0, 0, 2, 0, 0, 0, 5, 40] :: bytes"
  let ?st = "demo_full ?acc ?d 5"
  have "rest ?st 0 = ?d" by (simp add: rest_def demo_full_mem demo_held_mem demo_mem mbuf_bytes_def subseg_def)
  moreover have "rx_of ?st (Some 2) = RxPartial ?acc 5"
    by (simp add: rx_of_def Let_def demo_full_mem demo_held_mem miov_bytes_def seg_bytes_def subseg_def)
  moreover have "rx_packet (unat (get16 ?d 6)) (drop 8 ?d) (RxPartial ?acc 5) = Inr ([], RxPartial (?acc @ [40]) 4)"
    by (simp add: rx_packet_def get16_def)
  ultimately show ?thesis
    using fragments_overflow_scatter_list [OF demo_full_good [of ?acc ?d 5]] by (simp add: demo_full_mem)
qed

section \<open>Progress\<close>

text \<open>C9: the reader is never stuck on good input. A turn on the next data packet returns, without
  waiting or aborting, when a buffer is at hand, the scatter list in use has room for a piece, the packet
  fits the inner packet in progress and there is a free scatter list more than it completes packets.\<close>

theorem data_packet_accepted:
  assumes "rt_inv nv nb rt" "rt_rl rt = None" "read_tfs_report oneonly now1 rt = Inr (pkt, rt1)"
    and "mb_refcnt (eg_mbuf (rt_eg rt) (rt_tbuf rt)) = 1 \<or> mqueue_contents (m_freeq (eg_mem (rt_eg rt))) \<noteq> []"
    and "d \<noteq> []" "length d \<le> MAXBUF - HDRSPACE - 8" "ack_last (rt_ack rt1) < seq" "\<not> lost_before seq (rt_ack rt1)"
    and "\<forall>v. rt_m rt = Some v \<longrightarrow> mi_niov (eg_miov (rt_eg rt) v) < length (mi_iov (eg_miov (rt_eg rt) v))"
    and "rx_packet (unat off) d (rx_of (rt_eg rt) (rt_m rt)) = Inr (ds, r')"
    and "length ds < length (free_list (rt_eg rt)) + length (held (rt_m rt))"
  shows "\<exists>rt'. read_tfs_step oneonly now1 (Recv (tfs_bytes seq off d)) now2 rt = Inr (pkt, rt')"
  by (rule read_tfs_step_progress [OF assms])

theorem data_packet_accepted_witness:
  "\<exists>rt pkt rt'. start_demo = Inr rt \<and>
     read_tfs_step False (Timespec 1 500) (Recv (tfs_bytes 1 0 demo_payload)) (Timespec 1 600) rt = Inr (pkt, rt')"
proof -
  from start_demo_inv obtain rt where 0: "start_demo = Inr rt" "rt_inv OUTERQSZ OUTERQSZ rt"
    "rx_of (rt_eg rt) (rt_m rt) = RxIdle" "rt_rl rt = None" "ack_last (rt_ack rt) = 0"
    "rt_m rt = None" "length (free_list (rt_eg rt)) = OUTERQSZ" "mqueue_contents (m_freeq (eg_mem (rt_eg rt))) \<noteq> []"
    by blast
  from report_progress [of "Timespec 1 500" rt] obtain pkt rt0 where
    rep: "read_tfs_report False (Timespec 1 500) rt = Inr (pkt, rt0)" by blast
  have last: "ack_last (rt_ack rt0) = 0" using report_last [OF rep] 0(5) by auto
  have d: "demo_payload \<noteq> []" "length demo_payload \<le> MAXBUF - HDRSPACE - 8" by (simp_all add: demo_payload_def const_defs)
  have seq: "ack_last (rt_ack rt0) < 1" "\<not> lost_before 1 (rt_ack rt0)" using last by (simp_all add: lost_before_def)
  from data_packet_accepted [OF 0(2,4) rep _ d seq, where off = 0 and
      ds = "[[0x45, 0, 0, 7, 10, 20, 30]]" and r' = "RxPartial [0x45, 0, 0, 9, 40] 4"] 0 demo_payload_rx
  have "\<exists>rt'. read_tfs_step False (Timespec 1 500) (Recv (tfs_bytes 1 0 demo_payload)) (Timespec 1 600) rt = Inr (pkt, rt')"
    by (simp add: OUTERQSZ_def)
  with 0(1) show ?thesis by blast
qed

end
