(* ===== verification/RxLive.thy ===== *)
theory RxLive
  imports RxDelivery
begin

text \<open>
  That the two threads of the receiving side cannot block each other: no scatter list gets lost, the writer empties its
  queue, and then what the reader may wait for is there.
\<close>

section \<open>No scatter list gets lost\<close>

definition list_count :: "egress \<Rightarrow> nat option \<Rightarrow> nat" where
  "list_count st m = length (held m) + length (free_list st) + length (out_list st)"

definition iov_sizes :: "egress \<Rightarrow> nat \<Rightarrow> nat" where
  "iov_sizes st v = length (mi_iov (eg_miov st v))"

definition same_lists :: "egress \<Rightarrow> nat option \<Rightarrow> egress \<Rightarrow> nat option \<Rightarrow> bool" where
  "same_lists st m st' m' \<longleftrightarrow> list_count st' m' = list_count st m \<and> iov_sizes st' = iov_sizes st"

lemma same_lists_refl: "same_lists st m st m"
  by (simp add: same_lists_def)

lemma same_listsI:
  "eg_miov st' = eg_miov st \<Longrightarrow> eg_iovfreeq st' = eg_iovfreeq st \<Longrightarrow> eg_outq st' = eg_outq st \<Longrightarrow> same_lists st m st' m"
  by (simp add: same_lists_def list_count_def iov_sizes_def free_list_def out_list_def fun_eq_iff)

lemma miovq_pop_length:
  assumes "miovq_ok q" "miovq_pop q = Inr (v, q')"
  shows "length (miovq_contents q) = Suc (length (miovq_contents q'))"
proof -
  have "miovq_contents q \<noteq> []" using assms by (auto simp: miovq_abs_defs miovq_pop_def res_simps)
  from miovq_pop_top [OF assms(1) this] assms(2) this show ?thesis by auto
qed

lemma eg_deref_same:
  assumes "eg_deref a st = Inr st'"
  shows "eg_miov st' = eg_miov st" "eg_iovfreeq st' = eg_iovfreeq st" "eg_outq st' = eg_outq st"
  using assms by (auto simp: eg_deref_def mbuf_deref_def Let_def res_simps eg_miov_def fun_eq_iff split: if_splits)

lemma round_lists:
  assumes inv: "xinv nv nb (Some tb) st (Some v) w T" and P: "rest st tb \<noteq> []" "length (rest st tb) < 65536"
    and ok: "atip_round tb v (int k) (int (length (rest st tb))) st = Inr (e, st')"
  shows "same_lists st (Some v) st' (case e of Done m' \<Rightarrow> m' | Recurse \<Rightarrow> None)"
proof -
  have ob: "length (out_bytes x) = length (out_list x)" for x by (simp add: out_bytes_def)
  from round_result_ok [OF inv P, of k] ok obtain ds r' where r: "round_ok nv (base_of nv st) tb st v ds r' (Inr (e, st'))" by auto
  then have "frame tb st st'" by (auto simp: round_ok_def post_at_def)
  then have "iov_sizes st' = iov_sizes st" by (simp add: frame_def iov_sizes_def fun_eq_iff)
  moreover have "list_count st' (case e of Done m' \<Rightarrow> m' | Recurse \<Rightarrow> None) = list_count st (Some v)"
  proof (cases e)
    case (Done m')
    then have "post_at nv (base_of nv st) tb st (Some v) ds r' m' st'" using r by simp
    then have 1: "out_bytes st' = out_bytes st @ ds"
      "length (free_list st') + length (held m') + length ds = length (free_list st) + length (held (Some v))"
      unfolding post_at_def by blast+
    have "length (out_list st') = length (out_list st) + length ds" using arg_cong [OF 1(1), of length] by (simp add: ob)
    then show ?thesis using 1(2) Done by (simp add: list_count_def)
  next
    case Recurse
    then obtain p where 1: "out_bytes st' = out_bytes st @ [p]" "length (free_list st') = length (free_list st)"
      using r unfolding round_ok_def by auto
    have "length (out_list st') = length (out_list st) + 1" using arg_cong [OF 1(1), of length] by (simp add: ob)
    then show ?thesis using 1(2) Recurse by (simp add: list_count_def)
  qed
  ultimately show ?thesis by (simp add: same_lists_def)
qed

lemma enter_lists:
  assumes q: "miovq_ok (eg_iovfreeq st)" and ok: "atip_enter tb new m st = Inr (v, off, tlen, st1)"
  shows "same_lists st m st1 (Some v)"
proof -
  note t = enter_touches [OF ok]
  have "length (held (Some v)) + length (free_list st1) = length (held m) + length (free_list st)"
    using t(4) miovq_pop_length [OF q] by (auto simp: free_list_def)
  then show ?thesis using t by (simp add: same_lists_def list_count_def iov_sizes_def fun_eq_iff out_list_def)
qed

lemma reader_step_lists:
  assumes ok: "rx_ok nv nb rt ph d" and step: "reader_step oneonly now rt ph = Inr (pkt, rt', ph')"
  shows "same_lists (rt_eg rt) (rt_m rt) (rt_eg rt') (rt_m rt')"
proof (cases ph)
  case RTop
  with step obtain rt1 where rep: "read_tfs_report oneonly now rt = Inr (pkt, rt1)"
    by (auto simp: reader_step_def reader_top_def res_simps Let_def split: if_splits)
  from step RTop rep report_same [OF rep] show ?thesis
    by (auto simp: reader_step_def reader_top_def res_simps Let_def split: if_splits intro!: same_listsI)
next
  case RPop
  with step show ?thesis
    by (auto simp: reader_step_def reader_pop_def res_simps Let_def intro!: same_listsI) (auto simp: eg_miov_def)
next
  case RRecv
  with step show ?thesis by (simp add: reader_step_def)
next
  case (RReset as)
  show ?thesis
  proof (cases as)
    case Nil
    obtain v where v: "rt_m rt = Some v" using rx_okD(2) [OF ok] RReset by (auto simp: phase_ok_def Let_def)
    from step RReset Nil v have "rt' = rt\<lparr>rt_eg := eg_clear v (rt_eg rt)\<rparr>" by (simp add: reader_step_def)
    then show ?thesis by (simp add: same_lists_def list_count_def iov_sizes_def fun_eq_iff miov_cleared_def)
  next
    case (Cons a bs)
    from step RReset Cons show ?thesis
      by (auto simp: reader_step_def res_simps intro!: same_listsI dest: eg_deref_same)
  qed
next
  case (RCall new)
  have "miovq_ok (eg_iovfreeq (rt_eg rt))" using xinvD(1) [OF rx_okD(1) [OF ok]] by (simp add: eg_inv_def)
  from enter_lists [OF this] step RCall show ?thesis by (auto simp: reader_step_def res_simps)
next
  case (RBody v off tlen)
  have ph: "rt_m rt = Some v" "rest (rt_eg rt) (rt_tbuf rt) \<noteq> []" "length (rest (rt_eg rt) (rt_tbuf rt)) < 65536"
    "tlen = int (length (rest (rt_eg rt) (rt_tbuf rt)))" "off = int (nat off)"
    using rx_okD(2) [OF ok] RBody by (auto simp: phase_ok_def Let_def)
  have inv: "xinv nv nb (Some (rt_tbuf rt)) (rt_eg rt) (Some v) (wr_held d) (wr_torn d)"
    using rx_okD(1) [OF ok] RBody by (simp add: ph(1))
  from step RBody obtain e eg where e: "atip_round (rt_tbuf rt) v off tlen (rt_eg rt) = Inr (e, eg)"
    "(rt', ph') = (case e of Done m' \<Rightarrow> (rt\<lparr>rt_m := m', rt_eg := eg\<rparr>, RTop) | Recurse \<Rightarrow> (rt\<lparr>rt_m := None, rt_eg := eg\<rparr>, RCall False))"
    by (auto simp: reader_step_def res_simps)
  then have "rt_eg rt' = eg" "rt_m rt' = (case e of Done m' \<Rightarrow> m' | Recurse \<Rightarrow> None)" by (cases e; simp)+
  from this round_lists [OF inv ph(2,3), of "nat off" e eg] e ph show ?thesis by simp
qed

lemma reader_recv_lists:
  assumes "reader_recv oneonly r now rt = Inr (rt', ph')"
  shows "same_lists (rt_eg rt) (rt_m rt) (rt_eg rt') (rt_m rt')"
proof (cases r)
  case RecvErr
  then show ?thesis using assms by (simp add: reader_recv_def same_lists_refl)
next
  case (Recv dg)
  obtain n eg1 where recv: "tbuf_recv (rt_tbuf rt) dg (rt_eg rt) = (n, eg1)" by fastforce
  have 1: "eg_miov eg1 = eg_miov (rt_eg rt)" "eg_iovfreeq eg1 = eg_iovfreeq (rt_eg rt)" "eg_outq eg1 = eg_outq (rt_eg rt)"
    using recv by (auto simp: tbuf_recv_def Let_def)
  from assms Recv recv obtain go rt1 where adm: "read_tfs_admit n now (rt\<lparr>rt_eg := eg1\<rparr>) = Inr (go, rt1)"
    and dis: "(if go then reader_dispatch oneonly n rt1 else Inr (rt1, RTop)) = Inr (rt', ph')"
    by (auto simp: reader_recv_def res_simps)
  note same = admit_same [OF adm, simplified]
  have "eg_miov (rt_eg rt') = eg_miov eg1 \<and> eg_iovfreeq (rt_eg rt') = eg_iovfreeq eg1 \<and> eg_outq (rt_eg rt') = eg_outq eg1 \<and>
      rt_m rt' = rt_m rt"
  proof (cases go)
    case True
    then have "reader_dispatch oneonly n rt1 = Inr (rt', ph')" using dis by simp
    from reader_dispatch_cases [OF this] same(1-3) show ?thesis
      by (auto simp: rt_received_def rt_drop_def dest: reader_data_same)
  qed (use dis same in auto)
  then have "eg_miov (rt_eg rt') = eg_miov (rt_eg rt)" "eg_iovfreeq (rt_eg rt') = eg_iovfreeq (rt_eg rt)"
    "eg_outq (rt_eg rt') = eg_outq (rt_eg rt)" "rt_m rt' = rt_m rt" using 1 by auto
  then show ?thesis using same_listsI by simp
qed

lemma drain_step_lists:
  assumes q: "miovq_ok (eg_iovfreeq eg)" "miovq_ok (eg_outq eg)" and step: "drain_step eg d = Inr (x, eg', d')"
  shows "length (held (wr_held d')) + list_count eg' m = length (held (wr_held d)) + list_count eg m"
    "iov_sizes eg' = iov_sizes eg"
proof -
  have "length (held (wr_held d')) + list_count eg' m = length (held (wr_held d)) + list_count eg m \<and> iov_sizes eg' = iov_sizes eg"
  proof (cases d)
    case DIdle
    with step obtain v q' where "miovq_pop (eg_outq eg) = Inr (v, q')" "eg' = eg\<lparr>eg_outq := q'\<rparr>" "d' = DHold v"
      by (auto simp: drain_step_def res_simps)
    with miovq_pop_length [OF q(2) this(1)] DIdle show ?thesis
      by (simp add: list_count_def free_list_def out_list_def iov_sizes_def eg_miov_def fun_eq_iff)
  next
    case (DHold v)
    with step show ?thesis by (auto simp: drain_step_def Let_def)
  next
    case (DDrop v as)
    show ?thesis
    proof (cases as)
      case (Cons a bs)
      with step DDrop obtain "eg_deref a eg = Inr eg'" "d' = DDrop v bs" by (auto simp: drain_step_def res_simps)
      with same_listsI [OF eg_deref_same [OF this(1)]] DDrop show ?thesis by (simp add: same_lists_def)
    next
      case Nil
      with step DDrop obtain n q' where p: "miovq_put (eg_iovfreeq eg) v = Inr (n, q')" "d' = DIdle"
        "eg' = (if vq_freeq (eg_iovfreeq eg) then eg_clear v eg else eg)\<lparr>eg_iovfreeq := q'\<rparr>"
        by (auto simp: drain_step_def res_simps)
      have "vq_depth (eg_iovfreeq eg) \<noteq> vq_size (eg_iovfreeq eg)" using p(1) by (auto simp: miovq_put_def res_simps)
      then have "length (miovq_contents (eg_iovfreeq eg)) < vq_size (eg_iovfreeq eg)" using q(1) by (auto simp: miovq_abs_defs)
      from miovq_put_room [OF q(1) this, of v] p(1) have "length (miovq_contents q') = Suc (length (miovq_contents (eg_iovfreeq eg)))" by auto
      with p DDrop show ?thesis
        by (simp add: list_count_def free_list_def out_list_def iov_sizes_def eg_clear_def eg_miov_def fun_eq_iff)
    qed
  qed
  then show "length (held (wr_held d')) + list_count eg' m = length (held (wr_held d)) + list_count eg m"
    "iov_sizes eg' = iov_sizes eg" by blast+
qed

definition no_list_lost :: "rx_fine \<Rightarrow> rx_fine \<Rightarrow> bool" where
  "no_list_lost s s' \<longleftrightarrow> length (scatter_lists s') = length (scatter_lists s) \<and>
     iov_sizes (rt_eg (rf_rt s')) = iov_sizes (rt_eg (rf_rt s))"

lemma scatter_count: "length (scatter_lists s) = length (held (wr_held (rf_writer s))) + list_count (rt_eg (rf_rt s)) (rt_m (rf_rt s))"
  by (simp add: scatter_lists_def list_count_def)

lemma rx_step_lists:
  assumes "rx_step oneonly s e ws s'" "rx_inv nv nb s"
  shows "no_list_lost s s'"
  using assms(1)
proof cases
  case (x_read now pkt rt ph)
  from reader_step_lists [OF assms(2) [unfolded rx_inv_def] x_read(4)] x_read(3) show ?thesis
    by (simp add: no_list_lost_def same_lists_def scatter_count)
next
  case (x_recv r now rt ph)
  from reader_recv_lists [OF x_recv(5)] x_recv(3) show ?thesis
    by (simp add: no_list_lost_def same_lists_def scatter_count)
next
  case (x_write d eg ph)
  have "miovq_ok (eg_iovfreeq (rt_eg (rf_rt s)))" "miovq_ok (eg_outq (rt_eg (rf_rt s)))"
    using xinvD(1) [OF rx_okD(1) [OF assms(2) [unfolded rx_inv_def]]] by (auto simp: eg_inv_def)
  from drain_step_lists(1) [OF this x_write(4), of "rt_m (rf_rt s)"] drain_step_lists(2) [OF this x_write(4)] x_write(3) show ?thesis
    by (simp add: no_list_lost_def scatter_count)
qed

lemma rx_run_lists:
  assumes "rx_fine_run oneonly s es ws s'" "rx_inv nv nb s"
  shows "no_list_lost s s'"
  using assms
proof (induction rule: rx_fine_run.induct)
  case (x_more s e ws s1 es vs s2)
  from rx_step_lists [OF x_more.hyps(1) x_more.prems] x_more.IH [OF rx_step_inv [OF x_more.hyps(1) x_more.prems]]
  show ?case by (simp add: no_list_lost_def)
qed (simp add: no_list_lost_def)

section \<open>The writer empties its queue\<close>

text \<open>A run of the writer alone, which leaves the reader as it is.\<close>

definition writer_run :: "bool \<Rightarrow> rx_fine \<Rightarrow> bytes list \<Rightarrow> rx_fine \<Rightarrow> bool" where
  "writer_run oneonly s ws s' \<longleftrightarrow>
     (\<exists>es. rx_fine_run oneonly s es ws s' \<and> set es \<subseteq> {XWrite} \<and> rf_reader s' = rf_reader s \<and>
        (\<exists>eg. rf_rt s' = (rf_rt s)\<lparr>rt_eg := eg\<rparr>))"

lemma writer_run_refl: "writer_run oneonly s [] s"
  unfolding writer_run_def by (intro exI [of _ "[]"] exI [of _ "rt_eg (rf_rt s)"] conjI) (simp_all add: x_done)

lemma writer_run_trans:
  assumes "writer_run oneonly s ws s1" "writer_run oneonly s1 vs s2"
  shows "writer_run oneonly s (ws @ vs) s2"
proof -
  from assms obtain es es' where "rx_fine_run oneonly s es ws s1" "rx_fine_run oneonly s1 es' vs s2"
    "set es \<subseteq> {XWrite}" "set es' \<subseteq> {XWrite}" by (auto simp: writer_run_def)
  with rx_fine_run_append [OF this(1,2)] assms show ?thesis
    by (auto simp: writer_run_def intro!: exI [of _ "es @ es'"])
qed

lemma writer_run_step:
  assumes "drain_step (rt_eg (rf_rt s)) (rf_writer s) = Inr (x, eg, d)"
  shows "writer_run oneonly s (emitted x) (s\<lparr>rf_rt := (rf_rt s)\<lparr>rt_eg := eg\<rparr>, rf_writer := d\<rparr>)"
  unfolding writer_run_def
  by (intro exI [of _ "[XWrite]"] exI [of _ eg] conjI) (simp_all add: rx_one [OF x_write [OF assms]])

lemma writer_run_inv: "writer_run oneonly s ws s' \<Longrightarrow> rx_inv nv nb s \<Longrightarrow> rx_inv nv nb s'"
  by (auto simp: writer_run_def dest: rx_run_inv)

text \<open>Every step of the writer moves packets from its hands to the interface.\<close>

lemma writer_run_hand:
  assumes "writer_run oneonly s ws s'" "rx_inv nv nb s"
  shows "mset ws + mset (in_hand s') = mset (in_hand s)"
proof -
  have "mset ws + mset (in_hand s') = mset (in_hand s)" if "rx_fine_run oneonly s es ws s'" "set es \<subseteq> {XWrite}" for es
    using that assms(2)
  proof (induction rule: rx_fine_run.induct)
    case (x_more s e ws s1 es vs s2)
    then have e: "e = XWrite" by simp
    from x_more.hyps(1) [unfolded e] obtain x eg d where st: "ws = emitted x"
      "s1 = s\<lparr>rf_rt := (rf_rt s)\<lparr>rt_eg := eg\<rparr>, rf_writer := d\<rparr>"
      "drain_step (rt_eg (rf_rt s)) (rf_writer s) = Inr (x, eg, d)" by (elim x_writeE) blast
    with drain_ok [OF x_more.prems(2) [unfolded rx_inv_def]]
    have "mset ws + mset (in_hand s1) = mset (in_hand s)" by (auto simp: drained_def in_hand_def)
    with x_more.IH [OF _ rx_step_inv [OF x_more.hyps(1) x_more.prems(2)]] x_more.prems(1) show ?case
      by (simp add: union_assoc)
  qed simp
  then show ?thesis using assms(1) by (auto simp: writer_run_def)
qed

text \<open>Giving back a list, buffer by buffer, and then the list itself.\<close>

lemma writer_drops:
  assumes "rx_inv nv nb s" "rf_writer s = DDrop v as"
  shows "\<exists>s'. writer_run oneonly s [] s' \<and> rf_writer s' = DIdle \<and> out_list (rt_eg (rf_rt s')) = out_list (rt_eg (rf_rt s))"
  using assms
proof (induction as arbitrary: s)
  case Nil
  from drain_ok [OF Nil.prems(1) [unfolded rx_inv_def]] Nil.prems(2) obtain x eg d where
    st: "drain_step (rt_eg (rf_rt s)) (rf_writer s) = Inr (x, eg, d)" by auto
  then have "x = None" "d = DIdle" "eg_outq eg = eg_outq (rt_eg (rf_rt s))"
    using Nil.prems(2) by (auto simp: drain_step_def res_simps)
  with writer_run_step [OF st, of oneonly] show ?case
    by (intro exI [of _ "s\<lparr>rf_rt := (rf_rt s)\<lparr>rt_eg := eg\<rparr>, rf_writer := d\<rparr>"]) (simp add: out_list_def)
next
  case (Cons a as)
  from drain_ok [OF Cons.prems(1) [unfolded rx_inv_def]] Cons.prems(2) obtain x eg d where
    st: "drain_step (rt_eg (rf_rt s)) (rf_writer s) = Inr (x, eg, d)" by auto
  then have 1: "x = None" "d = DDrop v as" "eg_outq eg = eg_outq (rt_eg (rf_rt s))"
    using Cons.prems(2) by (auto simp: drain_step_def res_simps dest: eg_deref_same)
  let ?s = "s\<lparr>rf_rt := (rf_rt s)\<lparr>rt_eg := eg\<rparr>, rf_writer := d\<rparr>"
  have r: "writer_run oneonly s [] ?s" using writer_run_step [OF st, of oneonly] 1(1) by simp
  from Cons.IH [OF writer_run_inv [OF r Cons.prems(1)]] 1 obtain s' where
    "writer_run oneonly ?s [] s'" "rf_writer s' = DIdle" "out_list (rt_eg (rf_rt s')) = out_list (rt_eg (rf_rt ?s))" by auto
  with writer_run_trans [OF r this(1)] 1(3) show ?case by (intro exI [of _ s']) (simp add: out_list_def)
qed

lemma writer_idles:
  assumes "rx_inv nv nb s"
  shows "\<exists>ws s'. writer_run oneonly s ws s' \<and> rf_writer s' = DIdle \<and> out_list (rt_eg (rf_rt s')) = out_list (rt_eg (rf_rt s))"
proof (cases "rf_writer s")
  case DIdle
  then show ?thesis using writer_run_refl by blast
next
  case (DHold v)
  obtain x d where st: "drain_step (rt_eg (rf_rt s)) (rf_writer s) = Inr (x, rt_eg (rf_rt s), d)" "\<exists>as. d = DDrop v as"
    using DHold by (simp add: drain_step_def Let_def)
  let ?s = "s\<lparr>rf_rt := (rf_rt s)\<lparr>rt_eg := rt_eg (rf_rt s)\<rparr>, rf_writer := d\<rparr>"
  note r = writer_run_step [OF st(1), of oneonly]
  from st(2) writer_drops [OF writer_run_inv [OF r assms], of v _ oneonly] obtain s' where
    "writer_run oneonly ?s [] s'" "rf_writer s' = DIdle" "out_list (rt_eg (rf_rt s')) = out_list (rt_eg (rf_rt s))" by auto
  with writer_run_trans [OF r this(1)] show ?thesis by blast
next
  case (DDrop v as)
  from writer_drops [OF assms this] show ?thesis by blast
qed

lemma writer_empties:
  assumes "rx_inv nv nb s"
  shows "\<exists>ws s'. writer_run oneonly s ws s' \<and> rf_writer s' = DIdle \<and> out_list (rt_eg (rf_rt s')) = []"
  using assms
proof (induction "length (out_list (rt_eg (rf_rt s)))" arbitrary: s rule: less_induct)
  case less
  from writer_idles [OF less.prems] obtain ws s1 where 1: "writer_run oneonly s ws s1" "rf_writer s1 = DIdle"
    "out_list (rt_eg (rf_rt s1)) = out_list (rt_eg (rf_rt s))" by blast
  show ?case
  proof (cases "out_list (rt_eg (rf_rt s1)) = []")
    case True
    with 1 show ?thesis by blast
  next
    case False
    note inv1 = writer_run_inv [OF 1(1) less.prems]
    from drain_ok [OF inv1 [unfolded rx_inv_def]] False 1(2) obtain x eg d where
      st: "drain_step (rt_eg (rf_rt s1)) (rf_writer s1) = Inr (x, eg, d)" by auto
    let ?s = "s1\<lparr>rf_rt := (rf_rt s1)\<lparr>rt_eg := eg\<rparr>, rf_writer := d\<rparr>"
    note r = writer_run_step [OF st, of oneonly]
    from st 1(2) obtain v q where "miovq_pop (eg_outq (rt_eg (rf_rt s1))) = Inr (v, q)" "eg_outq eg = q"
      by (auto simp: drain_step_def res_simps)
    moreover have "miovq_ok (eg_outq (rt_eg (rf_rt s1)))"
      using xinvD(1) [OF rx_okD(1) [OF inv1 [unfolded rx_inv_def]]] by (simp add: eg_inv_def)
    ultimately have "length (out_list (rt_eg (rf_rt s1))) = Suc (length (out_list eg))"
      using miovq_pop_length by (simp add: out_list_def)
    then have "length (out_list (rt_eg (rf_rt ?s))) < length (out_list (rt_eg (rf_rt s)))" using 1(3) by simp
    from less.hyps [OF this writer_run_inv [OF r inv1]] obtain vs s2 where
      "writer_run oneonly ?s vs s2" "rf_writer s2 = DIdle" "out_list (rt_eg (rf_rt s2)) = []" by blast
    with writer_run_trans [OF writer_run_trans [OF 1(1) r] this(1)] show ?thesis by blast
  qed
qed

section \<open>Then the reader does not wait for a queue\<close>

lemma bindE_eq_Inl: "bindE r f = Inl e \<longleftrightarrow> r = Inl e \<or> (\<exists>a. r = Inr a \<and> f a = Inl e)"
  by (cases r) auto

lemma top_not_blocked: "reader_top oneonly now rt \<noteq> Inl Blocked"
  by (auto simp: reader_top_def read_tfs_report_def send_ack_def mbuf_reset_def Let_def bindE_eq_Inl requireE_def
      split: if_splits prod.splits)

text \<open>When every buffer is referenced, the list of the packet in progress has them all.\<close>

lemma free_buffer:
  assumes inv: "rx_inv nv nb s" and idle: "rf_writer s = DIdle" "out_list (rt_eg (rf_rt s)) = []" and ph: "rf_reader s = RPop"
    and all: "length (scatter_lists s) = nv" and sz: "\<And>v. v < nv \<Longrightarrow> iov_sizes (rt_eg (rf_rt s)) v < nb" and nb: "0 < nb"
  shows "mqueue_contents (m_freeq (eg_mem (rt_eg (rf_rt s)))) \<noteq> []"
proof
  let ?st = "rt_eg (rf_rt s)" and ?m = "rt_m (rf_rt s)"
  assume empty: "mqueue_contents (m_freeq (eg_mem ?st)) = []"
  have xi: "xinv nv nb None ?st ?m None Map.empty"
    using rx_okD(1) [OF inv [unfolded rx_inv_def]] ph idle by (simp add: rd_torn_def wr_torn_def)
  have eg: "eg_inv nv ?st ?m" by (rule xinvD(1) [OF xi])
  have r: "references nv s a = refs nv ?st a" for a
    using ph idle by (simp add: references_def holders_x_def torn_def rd_torn_def wr_torn_def)
  have d: "distinct (scatter_lists s)" "set (scatter_lists s) \<subseteq> {..<nv}" using rx_inv_counts(6,7) [OF inv] by blast+
  then have "card (set (scatter_lists s)) = nv" using all distinct_card by fastforce
  then have "set (scatter_lists s) = {..<nv}" using d(2) by (intro card_subset_eq) simp_all
  then have where_: "v \<in> set (held ?m) \<or> v \<in> set (free_list ?st)" if "v < nv" for v
    using that idle by (auto simp: scatter_lists_def)
  have held: "\<exists>v \<in> set (held ?m). a \<in> set (miov_refs (eg_miov ?st v))" if a: "a < nb" for a
  proof -
    have "references nv s a \<noteq> 0" using rx_inv_counts(5) [OF inv] empty a by auto
    then obtain v where v: "v < nv" "count_list (miov_refs (eg_miov ?st v)) a \<noteq> 0" unfolding r refs_def by auto
    have "miov_refs (eg_miov ?st u) = []" if "u \<in> set (free_list ?st)" for u
      using eg that by (simp add: eg_inv_def miov_clean_def miov_refs_def)
    with v where_ [OF v(1)] show ?thesis by (auto simp: count_list_0_iff)
  qed
  from held [OF nb] obtain v where v: "?m = Some v" by (cases ?m) auto
  have "{..<nb} \<subseteq> set (miov_refs (eg_miov ?st v))" using held v by auto
  from card_mono [OF _ this] have "nb \<le> length (miov_refs (eg_miov ?st v))"
    using card_length [of "miov_refs (eg_miov ?st v)"] by simp
  moreover have vn: "v < nv" and wf: "miov_wf ?st (eg_miov ?st v)" using eg v by (auto simp: eg_inv_def)
  ultimately show False using miov_wf_refs [OF wf] sz [OF vn] wf by (simp add: miov_wf_def iov_sizes_def)
qed

lemma reader_not_blocked:
  assumes inv: "rx_inv nv nb s" and idle: "rf_writer s = DIdle" "out_list (rt_eg (rf_rt s)) = []"
    and all: "length (scatter_lists s) = nv" and sz: "\<And>v. v < nv \<Longrightarrow> iov_sizes (rt_eg (rf_rt s)) v < nb" and pos: "0 < nb" "0 < nv"
    and ph: "rf_reader s \<noteq> RRecv"
  shows "reader_step oneonly now (rf_rt s) (rf_reader s) \<noteq> Inl Blocked"
proof -
  let ?rt = "rf_rt s"
  note ok = inv [unfolded rx_inv_def]
  show ?thesis
  proof (cases "rf_reader s")
    case RTop
    then show ?thesis using top_not_blocked by (simp add: reader_step_def)
  next
    case RPop
    from free_buffer [OF inv idle this all sz pos(1)] have "mq_depth (m_freeq (eg_mem (rt_eg ?rt))) \<noteq> 0"
      by (auto simp: mqueue_abs_defs)
    then show ?thesis using RPop by (simp add: reader_step_def reader_pop_def mqueue_pop_def MQ_EMPTY_def Let_def case_prod_unfold)
  next
    case RRecv
    with ph show ?thesis by simp
  next
    case (RReset as)
    show ?thesis
    proof (cases as)
      case (Cons a bs)
      from reset_one_ok [OF ok [unfolded RReset Cons]] obtain eg where "eg_deref a (rt_eg ?rt) = Inr eg" by blast
      then show ?thesis using RReset Cons by (simp add: reader_step_def)
    qed (simp add: RReset reader_step_def)
  next
    case (RCall new)
    have q: "miovq_ok (eg_iovfreeq (rt_eg ?rt))" using xinvD(1) [OF rx_okD(1) [OF ok]] by (simp add: eg_inv_def)
    have "rt_m ?rt = None \<Longrightarrow> vq_depth (eg_iovfreeq (rt_eg ?rt)) \<noteq> 0"
      using all pos(2) idle q by (auto simp: scatter_lists_def free_list_def miovq_abs_defs)
    then have "atip_enter (rt_tbuf ?rt) new (rt_m ?rt) (rt_eg ?rt) \<noteq> Inl Blocked"
      by (auto simp: atip_enter_def pop_free_def miovq_pop_def set_start_def Let_def bindE_eq_Inl requireE_def
          split: option.splits if_splits)
    then show ?thesis using RCall by (auto simp: reader_step_def bindE_eq_Inl split: prod.splits)
  next
    case (RBody v off tlen)
    have b: "rt_m ?rt = Some v" "rest (rt_eg ?rt) (rt_tbuf ?rt) \<noteq> []" "length (rest (rt_eg ?rt) (rt_tbuf ?rt)) < 65536"
      "tlen = int (length (rest (rt_eg ?rt) (rt_tbuf ?rt)))" "off = int (nat off)"
      using rx_okD(2) [OF ok] RBody by (auto simp: phase_ok_def Let_def)
    have "xinv nv nb (Some (rt_tbuf ?rt)) (rt_eg ?rt) (Some v) (wr_held (rf_writer s)) (wr_torn (rf_writer s))"
      using rx_okD(1) [OF ok] RBody by (simp add: b(1))
    from round_result_ok [OF this b(2,3), of "nat off"] b(4,5)
    have "atip_round (rt_tbuf ?rt) v off tlen (rt_eg ?rt) \<noteq> Inl Blocked" by auto
    then show ?thesis using RBody by (auto simp: reader_step_def bindE_eq_Inl split: prod.splits)
  qed
qed

section \<open>The property\<close>

lemma start_sizes:
  assumes "length vslots = OUTERQSZ" "v < OUTERQSZ"
    and set: "tfs_tunnel_egress tfsmtu raw space slots rawm iovs ptrs vslots oslots = Inr (eg, a1, a2)"
    and go: "read_tfs_start oneonly ack_ms congest now timer buf fb eg = Inr rt"
  shows "iov_sizes (rt_eg rt) v = length (iovs v)"
proof -
  have "eg_miov (rt_eg rt) = eg_miov eg"
    using go by (auto simp: read_tfs_start_def res_simps Let_def eg_miov_def fun_eq_iff eg_put_def)
  moreover from set obtain mx where "m_miovs (eg_mem eg) = fst (miovq_new_freeq rawm iovs ptrs vslots OUTERQSZ mx)"
    by (auto simp: tfs_tunnel_egress_def case_prod_unfold Let_def res_simps)
  ultimately show ?thesis using miovq_new_freeq_state(5) [OF assms(1,2)] by (simp add: iov_sizes_def eg_miov_def)
qed

text \<open>C6: the receiver's threads cannot lock each other out. If a scatter list has fewer entries than there are buffers, then
  from every state that any interleaving reaches the writer alone can go on until it has written everything in
  hand and waits with its queue empty; and then the reader does not wait for a queue: it can only wait for a
  datagram. With more entries the unfinished inner packet could hold all buffers.\<close>

theorem receiver_never_deadlocks:
  assumes "zeroed raw space slots rawm vslots oslots"
    and "\<forall>v. 0 < length (iovs v) \<and> length (iovs v) < OUTERQSZ \<and> length (ptrs v) = length (iovs v)"
    and "tfs_tunnel_egress tfsmtu raw space slots rawm iovs ptrs vslots oslots = Inr (eg, a1, a2)"
    and "read_tfs_start oneonly ack_ms congest now timer buf fb eg = Inr rt"
    and "rx_fine_run oneonly (rx_begin rt) es ws s"
  shows "\<exists>vs s'. writer_run oneonly s vs s' \<and> mset vs = mset (in_hand s) \<and>
    rf_writer s' = DIdle \<and> out_list (rt_eg (rf_rt s')) = [] \<and>
    (rf_reader s' = RRecv \<or> (\<forall>t. reader_step oneonly t (rf_rt s') (rf_reader s') \<noteq> Inl Blocked))"
proof -
  let ?n = OUTERQSZ
  have n: "0 < ?n" "?n \<le> 2 ^ 20" by (simp_all add: OUTERQSZ_def)
  have arr: "\<forall>v. 0 < length (iovs v) \<and> length (iovs v) \<le> 2 ^ 20 \<and> length (ptrs v) = length (iovs v)"
    using assms(2) n(2) by (meson less_imp_le order_trans)
  note st = start_sys [OF assms(1) arr assms(3,4)]
  have vs: "length vslots = ?n" using assms(1) by (simp add: zeroed_def)
  have b: "rx_inv ?n ?n (rx_begin rt)" by (rule rx_begin_inv [OF st(1)])
  have "out_list (rt_eg rt) = []" using st(3) by (simp add: out_bytes_def)
  then have "length (scatter_lists (rx_begin rt)) = ?n" using st(4,5) by (simp add: scatter_lists_def)
  then have all: "length (scatter_lists s) = ?n" and sz: "iov_sizes (rt_eg (rf_rt s)) = iov_sizes (rt_eg rt)"
    using rx_run_lists [OF assms(5) b] by (simp_all add: no_list_lost_def)
  note i = rx_run_inv [OF assms(5) b]
  from writer_empties [OF i, of oneonly] obtain vs s' where
    w: "writer_run oneonly s vs s'" "rf_writer s' = DIdle" "out_list (rt_eg (rf_rt s')) = []" by blast
  note i' = writer_run_inv [OF w(1) i]
  from w(1) obtain es' where "rx_fine_run oneonly s es' vs s'" by (auto simp: writer_run_def)
  from rx_run_lists [OF this i] have all': "length (scatter_lists s') = ?n"
    and sz': "iov_sizes (rt_eg (rf_rt s')) v < ?n" if "v < ?n" for v
    using all sz assms(2) start_sizes [OF vs that assms(3,4)] that by (simp_all add: no_list_lost_def)
  have "in_hand s' = []" using w(2,3) by (simp add: in_hand_def fly_def out_bytes_def)
  then have "mset vs = mset (in_hand s)" using writer_run_hand [OF w(1) i] by simp
  moreover have "rf_reader s' = RRecv \<or> (\<forall>t. reader_step oneonly t (rf_rt s') (rf_reader s') \<noteq> Inl Blocked)"
    using reader_not_blocked [OF i' w(2,3) all' sz'] n(1) by blast
  ultimately show ?thesis using w by blast
qed

theorem receiver_never_deadlocks_witness:
  "\<exists>rt es s s'. start_demo = Inr rt \<and> rx_fine_run False (rx_begin rt) es [] s \<and>
     writer_run False s [[0x45, 0, 0, 7, 10, 20, 30]] s' \<and> rf_writer s' = DIdle"
proof -
  from hold_demo_hand obtain rt es s v where 0: "start_demo = Inr rt" "rx_fine_run False (rx_begin rt) es [] s"
    "in_hand s = [[0x45, 0, 0, 7, 10, 20, 30]]" by blast
  from start_demo_parts [OF 0(1)] obtain raw space slots rawm iovs ptrs eg a d fb where
    p: "zeroed raw space slots rawm slots slots" "\<forall>v. length (iovs v) = 8 \<and> length (ptrs v) = 8"
    "tfs_tunnel_egress 1500 raw space slots rawm iovs ptrs slots slots = Inr (eg, a, d)"
    "read_tfs_start False 1000 0 (Timespec 1 0) \<lparr>st_ts = Timespec 0 0, st_nsecs = 0\<rparr> ack_buffer fb eg = Inr rt" by blast
  from p(2) have "\<forall>v. 0 < length (iovs v) \<and> length (iovs v) < OUTERQSZ \<and> length (ptrs v) = length (iovs v)"
    by (simp add: OUTERQSZ_def)
  from receiver_never_deadlocks [OF p(1) this p(3,4) 0(2)] obtain vs s' where
    "writer_run False s vs s'" "mset vs = mset (in_hand s)" "rf_writer s' = DIdle" by blast
  with 0 show ?thesis by auto
qed

end
