(* ===== verification/Fragments.thy ===== *)
theory Fragments
  imports RxLive
begin

text \<open>
  What short fragments of one inner packet do to the receiver: every fragment takes an entry of the scatter list and
  a buffer, and one of the two runs out first.
\<close>

section \<open>One fragment\<close>

lemma fragment_added:
  assumes g: "good_at nv h tb st (Some v)" and len: "8 < length (rest st tb)" "length (rest st tb) < 65536 + 8"
    and part: "rx_of st (Some v) = RxPartial acc left"
    and room: "mi_niov (eg_miov st v) < length (mi_iov (eg_miov st v))"
    and off: "length (drop 8 (rest st tb)) < unat (get16 (rest st tb) 6)" "length (drop 8 (rest st tb)) < left"
  shows "\<exists>st'. add_to_inner_packet tb True (Some v) st = Inr (Some v, st') \<and>
    rx_of st' (Some v) = RxPartial (acc @ drop 8 (rest st tb)) (left - length (drop 8 (rest st tb))) \<and>
    mi_niov (eg_miov st' v) = Suc (mi_niov (eg_miov st v)) \<and>
    miov_refs (eg_miov st' v) = miov_refs (eg_miov st v) @ [tb] \<and>
    length (mi_iov (eg_miov st' v)) = length (mi_iov (eg_miov st v)) \<and>
    free_list st' = free_list st \<and> out_list st' = out_list st"
proof -
  let ?off = "unat (get16 (rest st tb) 6)" and ?P = "drop 8 (rest st tb)"
  from atip_enter_new [OF g len] obtain st1 where
    en: "atip_enter tb True (Some v) st = Inr (v, uint (get16 (rest st tb) 6), int (length ?P), st1)"
    and s1: "good_at nv h tb st1 (Some v)" "rest st1 tb = ?P" "rx_of st1 (Some v) = rx_of st (Some v)"
      "eg_miov st1 v = eg_miov st v" by auto
  have pos: "0 < length (rest st tb)" using len by linarith
  have mi: "mi_len (eg_miov st1 v) \<noteq> 0" "0 < mi_left (eg_miov st1 v)" "nat (mi_left (eg_miov st1 v)) = left"
      "miov_bytes st1 (eg_miov st1 v) = acc"
    using part unfolding s1(3) [symmetric]
    by (cases "mi_len (eg_miov st1 v) = 0"; cases "mi_left (eg_miov st1 v) \<le> 0"; simp add: rx_of_simps)+
  have eg1: "eg_inv nv st1 (Some v)" and wf: "mbuf_wf (eg_mbuf st1 tb)" using s1(1) by (auto simp: good_at_def)
  have ne: "rest st1 tb \<noteq> []" using len s1(2) by auto
  have tl: "int (length ?P) = int (length (rest st1 tb))" using s1(2) by simp
  from atip_more_eq [OF eg1 wf _ ne tl] room s1(4) obtain st' where
    m: "atip_more tb v (int (length ?P)) st1 = Inr st'" "moved tb v (length ?P) st1 st'"
      "mi_left (eg_miov st' v) = mi_left (eg_miov st1 v) - int (length ?P)" using s1(2) by auto
  have "0 < length ?P" using ne s1(2) by simp
  note q = eg_inv_moved [OF m(2) eg1 this]
  have left: "int (length ?P) < mi_left (eg_miov st1 v)" using off(2) mi(2,3) by linarith
  have o: "int ?off > int (length ?P)" unfolding of_nat_less_iff by (rule off(1))
  have "atip_round tb v (int ?off) (int (length ?P)) st1 = Inr (Done (Some v), st')"
    using mi(1,2) left o m(1)
    by (simp add: atip_round_def atip_branch_def atip_beyond_def ensure_left_def del: of_nat_less_iff length_drop)
  then have eq: "add_to_inner_packet tb True (Some v) st = Inr (Some v, st')"
    using add_to_inner_packet_eq [OF g pos en] by (simp add: atip_from_def)
  have len': "mi_len (eg_miov st' v) \<noteq> 0" "0 < mi_left (eg_miov st' v)"
    "nat (mi_left (eg_miov st' v)) = left - length ?P" "miov_bytes st' (eg_miov st' v) = acc @ ?P"
    using m(2,3) left mi \<open>0 < length ?P\<close> s1(2) eg_inv_miov [OF eg1] by (auto simp: moved_def miov_wf_def)
  have n: "mi_niov (eg_miov st' v) = Suc (mi_niov (eg_miov st v))"
    using moved_niov [OF m(2)] eg_inv_miov [OF eg1] s1(4) by simp
  have l: "free_list st1 = free_list st" "out_list st1 = out_list st"
    using enter_touches [OF en] by (auto simp: free_list_def out_list_def)
  show ?thesis
    using eq len' n m(2) s1(4) q l by (intro exI [of _ st']) (simp add: rx_of_simps moved_def del: length_drop)
qed

lemma read_tfs_data_next:
  assumes "ack_last (rt_ack rt) < seq" "\<not> lost_before seq (rt_ack rt)"
  shows "\<exists>ack. ack_last ack = seq \<and> read_tfs_data seq rt =
    bindE (add_to_inner_packet (rt_tbuf rt) True (rt_m rt) (rt_eg rt)) (\<lambda>(m', eg'). Inr (rt\<lparr>rt_ack := ack, rt_m := m', rt_eg := eg'\<rparr>))"
proof -
  let ?ack = "if ack_start (rt_ack rt) = 0 then (rt_ack rt)\<lparr>ack_start := seq\<rparr> else rt_ack rt"
  have l: "ack_last ?ack = ack_last (rt_ack rt)" by simp
  have nl: "\<not> (seq \<noteq> ack_last ?ack + 1 \<and> ack_last ?ack \<noteq> 0)" using assms(2) unfolding l by (simp add: lost_before_def)
  have "\<not> seq \<le> ack_last ?ack" using assms(1) unfolding l by simp
  then have "read_tfs_data seq rt = bindE (add_to_inner_packet (rt_tbuf rt) True (rt_m rt) (rt_eg rt))
      (\<lambda>(m', eg'). Inr (rt\<lparr>rt_ack := ?ack\<lparr>ack_last := seq\<rparr>, rt_m := m', rt_eg := eg'\<rparr>))"
    using nl unfolding read_tfs_data_def Let_def by (auto split: option.split)
  then show ?thesis by (intro exI [of _ "?ack\<lparr>ack_last := seq\<rparr>"]) simp
qed

section \<open>The lists that are not in use\<close>

lemma idle_clean:
  assumes "eg_inv nv st m" "length (held m) + length (free_list st) = nv" "u < nv" "u \<notin> set (held m)"
  shows "miov_refs (eg_miov st u) = []"
proof -
  let ?l = "held m @ free_list st"
  have d: "distinct ?l" "set ?l \<subseteq> {..<nv}" using assms(1) by (auto simp: eg_inv_def)
  have "card (set ?l) = nv" using distinct_card [OF d(1)] assms(2) by simp
  then have "set ?l = {..<nv}" using d(2) by (intro card_subset_eq) simp_all
  then have "u \<in> set (free_list st)" using assms(3,4) by auto
  then show ?thesis using assms(1) by (simp add: eg_inv_def miov_clean_def miov_refs_def)
qed

lemma refs_held:
  assumes "eg_inv nv st m" "length (held m) + length (free_list st) = nv"
  shows "refs nv st a = (case m of None \<Rightarrow> 0 | Some v \<Rightarrow> count_list (miov_refs (eg_miov st v)) a)"
proof -
  note clean = idle_clean [OF assms]
  show ?thesis
  proof (cases m)
    case None
    with clean show ?thesis by (simp add: refs_def)
  next
    case (Some v)
    then have v: "v < nv" using assms(1) by (simp add: eg_inv_def)
    have "refs nv st a = (\<Sum>u<nv. if u = v then count_list (miov_refs (eg_miov st v)) a else 0)"
      unfolding refs_def using clean Some by (intro sum.cong) auto
    also have "\<dots> = count_list (miov_refs (eg_miov st v)) a" using v by simp
    finally show ?thesis using Some by simp
  qed
qed

section \<open>The sequence of fragments\<close>

text \<open>The beginning of an inner packet of 65535 bytes, and then its bytes one by one, each with an offset beyond its datagram.\<close>

definition fragment :: "nat \<Rightarrow> u32 \<times> u16 \<times> bytes" where
  "fragment i = (if i = 0 then (1, 0, [0x45, 0, 0xFF, 0xFF]) else (of_nat (i + 1), 0xFFFF, [0]))"

definition fragment_turns :: "timespec \<Rightarrow> nat \<Rightarrow> egress_event list" where
  "fragment_turns t n = map (\<lambda>i. Turn t (Recv (wire (fragment i))) t) [0..<n]"

text \<open>The receiver after \<open>j\<close> of them.\<close>

definition filling :: "nat \<Rightarrow> nat \<Rightarrow> rtfs \<Rightarrow> nat \<Rightarrow> nat \<Rightarrow> bool" where
  "filling nv nb rt v j \<longleftrightarrow>
     rt_inv nv nb rt \<and> rt_rl rt = None \<and> rt_m rt = Some v \<and> (\<exists>acc. rx_of (rt_eg rt) (Some v) = RxPartial acc (65532 - j)) \<and>
     mi_niov (eg_miov (rt_eg rt) v) = j \<and> distinct (miov_refs (eg_miov (rt_eg rt) v)) \<and>
     rt_tbuf rt \<in> set (miov_refs (eg_miov (rt_eg rt) v)) \<and> out_list (rt_eg rt) = [] \<and>
     Suc (length (free_list (rt_eg rt))) = nv \<and> (ack_last (rt_ack rt) = 0 \<or> ack_last (rt_ack rt) = of_nat j)"

lemma filling_sys: "filling nv nb rt v j \<Longrightarrow> sys_inv nv nb (rt_eg rt) (rt_tbuf rt) (Some v)"
  by (auto simp: filling_def rt_inv_def)

lemma report_ok: "\<exists>pkt rt1. read_tfs_report oneonly now rt = Inr (pkt, rt1)"
  using report_progress by (cases oneonly) (auto simp: read_tfs_report_def)

text \<open>The buffers the fragments are in, and the others, which are free.\<close>

lemma filling_buffers:
  assumes f: "filling nv nb rt v j"
  shows "set (mqueue_contents (m_freeq (eg_mem (rt_eg rt)))) = {a. a < nb \<and> a \<notin> set (miov_refs (eg_miov (rt_eg rt) v))}"
    "set (miov_refs (eg_miov (rt_eg rt) v)) \<subseteq> {..<nb}" "length (miov_refs (eg_miov (rt_eg rt) v)) = j"
    "mb_refcnt (eg_mbuf (rt_eg rt) (rt_tbuf rt)) \<noteq> 1"
proof -
  let ?st = "rt_eg rt" and ?l = "miov_refs (eg_miov (rt_eg rt) v)"
  have sys: "sys_inv nv nb ?st (rt_tbuf rt) (Some v)" by (rule filling_sys [OF f])
  then have eg: "eg_inv nv ?st (Some v)" and pool: "pool_ok nb (holders nv (rt_tbuf rt) ?st) (eg_mem ?st)"
    by (simp_all add: sys_inv_frame)
  have "length (held (Some v)) + length (free_list ?st) = nv" using f by (simp add: filling_def)
  from refs_held [OF eg this] have r: "refs nv ?st a = count_list ?l a" for a by simp
  have tb: "rt_tbuf rt \<in> set ?l" using f by (simp add: filling_def)
  have z: "holders nv (rt_tbuf rt) ?st a = 0 \<longleftrightarrow> a \<notin> set ?l" for a
    using tb by (auto simp: holders_def r count_list_0_iff)
  show "set (mqueue_contents (m_freeq (eg_mem ?st))) = {a. a < nb \<and> a \<notin> set ?l}" using pool z by (simp add: pool_ok_def)
  show "set ?l \<subseteq> {..<nb}" using pool z by (auto simp: pool_ok_def)
  show "length ?l = j" using miov_wf_refs [of ?st "eg_miov ?st v"] eg_inv_miov [OF eg] f by (simp add: filling_def)
  have "count_list ?l (rt_tbuf rt) \<noteq> 0" using tb by (simp add: count_list_0_iff)
  then have "holders nv (rt_tbuf rt) ?st (rt_tbuf rt) \<noteq> 1" by (simp add: holders_def r)
  then show "mb_refcnt (eg_mbuf ?st (rt_tbuf rt)) \<noteq> 1" using refcnt_one [OF pool, of "rt_tbuf rt"] by (simp add: eg_mbuf_def)
qed

lemma filling_room:
  assumes "filling nv nb rt v j" "j < nb"
  shows "mqueue_contents (m_freeq (eg_mem (rt_eg rt))) \<noteq> []"
proof
  note b = filling_buffers [OF assms(1)]
  assume "mqueue_contents (m_freeq (eg_mem (rt_eg rt))) = []"
  then have "{..<nb} \<subseteq> set (miov_refs (eg_miov (rt_eg rt) v))" using b(1) by auto
  from card_mono [OF _ this] show False
    using card_length [of "miov_refs (eg_miov (rt_eg rt) v)"] b(3) assms(2) by simp
qed

text \<open>The packet that a turn hands to \<open>add_to_inner_packet\<close>.\<close>

lemma filling_turn:
  assumes f: "filling nv nb rt v j" and j: "0 < j" "j < 60000" and turn: "tbuf_turn (rt_tbuf rt) (rt_eg rt) = Inr (a, eg)"
  shows "\<exists>pkt rt5 ack. read_tfs_step oneonly t (Recv (wire (fragment j))) t rt =
      bindE (add_to_inner_packet (rt_tbuf rt5) True (Some v) (rt_eg rt5))
        (\<lambda>(m', eg'). Inr (pkt, rt5\<lparr>rt_ack := ack, rt_m := m', rt_eg := eg'\<rparr>)) \<and> ack_last ack = of_nat (Suc j) \<and>
    rt_inv nv nb rt5 \<and> rest (rt_eg rt5) (rt_tbuf rt5) = wire (fragment j) \<and> refs nv (rt_eg rt5) (rt_tbuf rt5) = 0 \<and>
    rt_m rt5 = Some v \<and> rt_rl rt5 = None \<and> eg_miov (rt_eg rt5) = eg_miov (rt_eg rt) \<and>
    rx_of (rt_eg rt5) (Some v) = rx_of (rt_eg rt) (Some v) \<and> out_bytes (rt_eg rt5) = out_bytes (rt_eg rt) \<and>
    free_list (rt_eg rt5) = free_list (rt_eg rt)"
proof -
  have inv: "rt_inv nv nb rt" "rt_rl rt = None" "rt_m rt = Some v" using f by (simp_all add: filling_def)
  from report_ok obtain pkt rt1 where rep: "read_tfs_report oneonly t rt = Inr (pkt, rt1)" by blast
  have d: "length [0 :: u8] \<le> MAXBUF - HDRSPACE - 8" by (simp add: const_defs)
  have w: "wire (fragment j) = tfs_bytes (of_nat (Suc j)) 0xFFFF [0]" using j by (simp add: wire_def fragment_def)
  from read_tfs_step_data [OF inv(1,2) rep turn d, of "of_nat (Suc j)" "0xFFFF" t] inv(3) obtain rt5 where
    5: "read_tfs_step oneonly t (Recv (wire (fragment j))) t rt =
        bindE (read_tfs_data (of_nat (Suc j)) rt5) (\<lambda>rt'. Inr (pkt, rt'))"
      "rt_inv nv nb rt5" "rest (rt_eg rt5) (rt_tbuf rt5) = wire (fragment j)" "refs nv (rt_eg rt5) (rt_tbuf rt5) = 0"
      "rt_m rt5 = Some v" "rt_ack rt5 = rt_ack rt1" "rt_rl rt5 = None" "eg_miov (rt_eg rt5) = eg_miov (rt_eg rt)"
      "rx_of (rt_eg rt5) (Some v) = rx_of (rt_eg rt) (Some v)" "out_bytes (rt_eg rt5) = out_bytes (rt_eg rt)"
      "free_list (rt_eg rt5) = free_list (rt_eg rt)" unfolding w by auto
  have l: "ack_last (rt_ack rt5) = 0 \<or> ack_last (rt_ack rt5) = of_nat j"
    using report_last [OF rep] f 5(6) by (auto simp: filling_def)
  have u: "unat (of_nat j :: u32) = j" "unat (of_nat (Suc j) :: u32) = Suc j"
    using j by (simp_all only: unat_of_nat) simp_all
  have "ack_last (rt_ack rt5) < of_nat (Suc j)" using l u by (auto simp: word_less_nat_alt simp del: of_nat_Suc)
  moreover have "\<not> lost_before (of_nat (Suc j)) (rt_ack rt5)" using l by (auto simp: lost_before_def)
  ultimately obtain ack where "ack_last ack = of_nat (Suc j)" "read_tfs_data (of_nat (Suc j)) rt5 =
      bindE (add_to_inner_packet (rt_tbuf rt5) True (rt_m rt5) (rt_eg rt5)) (\<lambda>(m', eg'). Inr (rt5\<lparr>rt_ack := ack, rt_m := m', rt_eg := eg'\<rparr>))"
    using read_tfs_data_next by blast
  with 5 show ?thesis
    by (intro exI [of _ pkt] exI [of _ rt5] exI [of _ ack]) (simp add: bindE_assoc case_prod_unfold)
qed

lemma filling_step:
  assumes f: "filling nv nb rt v j" and j: "0 < j" "j < 60000" "j < nb"
    and room: "j < iov_sizes (rt_eg rt) v"
  shows "\<exists>pkt rt'. read_tfs_step oneonly t (Recv (wire (fragment j))) t rt = Inr (pkt, rt') \<and>
    filling nv nb rt' v (Suc j) \<and> iov_sizes (rt_eg rt') v = iov_sizes (rt_eg rt) v"
proof -
  have inv: "rt_inv nv nb rt" "out_list (rt_eg rt) = []" "Suc (length (free_list (rt_eg rt))) = nv"
    and niov: "mi_niov (eg_miov (rt_eg rt) v) = j" "distinct (miov_refs (eg_miov (rt_eg rt) v))"
    using f by (simp_all add: filling_def)
  from f obtain acc where rx: "rx_of (rt_eg rt) (Some v) = RxPartial acc (65532 - j)" by (auto simp: filling_def)
  from tbuf_turn_progress [OF filling_sys [OF f]] filling_room [OF f j(3)] obtain a eg where
    turn: "tbuf_turn (rt_tbuf rt) (rt_eg rt) = Inr (a, eg)" by blast
  from filling_turn [OF f j(1,2) turn, of oneonly t] obtain pkt rt5 ack where
    5: "read_tfs_step oneonly t (Recv (wire (fragment j))) t rt =
        bindE (add_to_inner_packet (rt_tbuf rt5) True (Some v) (rt_eg rt5))
          (\<lambda>(m', eg'). Inr (pkt, rt5\<lparr>rt_ack := ack, rt_m := m', rt_eg := eg'\<rparr>))" "ack_last ack = of_nat (Suc j)"
      "rt_inv nv nb rt5" "rest (rt_eg rt5) (rt_tbuf rt5) = wire (fragment j)" "refs nv (rt_eg rt5) (rt_tbuf rt5) = 0"
      "rt_m rt5 = Some v" "rt_rl rt5 = None" "eg_miov (rt_eg rt5) = eg_miov (rt_eg rt)"
      "rx_of (rt_eg rt5) (Some v) = rx_of (rt_eg rt) (Some v)" "out_bytes (rt_eg rt5) = out_bytes (rt_eg rt)"
      "free_list (rt_eg rt5) = free_list (rt_eg rt)" by blast
  let ?tb = "rt_tbuf rt5" and ?st = "rt_eg rt5"
  have g: "good nv ?tb ?st (Some v)" using 5(3,6) by (simp add: rt_inv_def sys_inv_def)
  have out5: "out_list ?st = []" using 5(10) inv(2) by (simp add: out_bytes_def)
  have P: "length (rest ?st ?tb) = 9" "drop 8 (rest ?st ?tb) = [0]" "get16 (rest ?st ?tb) 6 = 0xFFFF"
    using j 5(4) by (simp_all add: wire_def fragment_def tfs_bytes_fields)
  have left: "length (drop 8 (rest ?st ?tb)) < 65532 - j" using j(2) P(2) by simp
  from fragment_added [OF g _ _ rx [folded 5(9)] _ _ left] room niov(1) P obtain st' where
    1: "add_to_inner_packet ?tb True (Some v) ?st = Inr (Some v, st')"
      "rx_of st' (Some v) = RxPartial (acc @ [0]) (65532 - j - 1)" "mi_niov (eg_miov st' v) = Suc j"
      "miov_refs (eg_miov st' v) = miov_refs (eg_miov (rt_eg rt) v) @ [?tb]"
      "iov_sizes st' v = iov_sizes (rt_eg rt) v" "free_list st' = free_list ?st" "out_list st' = out_list ?st"
    by (auto simp: 5(8) iov_sizes_def)
  let ?rt' = "rt5\<lparr>rt_ack := ack, rt_m := Some v, rt_eg := st'\<rparr>"
  have ok: "read_tfs_step oneonly t (Recv (wire (fragment j))) t rt = Inr (pkt, ?rt')" using 5(1) 1(1) by simp
  have "eg_inv nv ?st (Some v)" using g by (simp add: good_at_def)
  from refs_held [OF this] inv(3) 5(5,8,11) have "?tb \<notin> set (miov_refs (eg_miov (rt_eg rt) v))"
    by (simp add: count_list_0_iff)
  then have "filling nv nb ?rt' v (Suc j)"
    using read_tfs_step_sys [OF inv(1) ok] 1 5(2,7,11) niov(2) inv(3) out5 by (simp add: filling_def)
  with ok 1(5) show ?thesis by (intro exI [of _ pkt] exI [of _ ?rt']) simp
qed

text \<open>The list is full before the buffers are used up, or the other way round.\<close>

lemma filling_full:
  assumes f: "filling nv nb rt v j" and j: "0 < j" "j < 60000" "j < nb"
    and full: "iov_sizes (rt_eg rt) v = j"
  shows "read_tfs_step oneonly t (Recv (wire (fragment j))) t rt = Inl OutOfBounds"
proof -
  from f obtain acc where rx: "rx_of (rt_eg rt) (Some v) = RxPartial acc (65532 - j)" by (auto simp: filling_def)
  from tbuf_turn_progress [OF filling_sys [OF f]] filling_room [OF f j(3)] obtain a eg where
    turn: "tbuf_turn (rt_tbuf rt) (rt_eg rt) = Inr (a, eg)" by blast
  from filling_turn [OF f j(1,2) turn, of oneonly t] obtain pkt rt5 ack where
    5: "read_tfs_step oneonly t (Recv (wire (fragment j))) t rt =
        bindE (add_to_inner_packet (rt_tbuf rt5) True (Some v) (rt_eg rt5))
          (\<lambda>(m', eg'). Inr (pkt, rt5\<lparr>rt_ack := ack, rt_m := m', rt_eg := eg'\<rparr>))"
      "rt_inv nv nb rt5" "rest (rt_eg rt5) (rt_tbuf rt5) = wire (fragment j)" "rt_m rt5 = Some v"
      "eg_miov (rt_eg rt5) = eg_miov (rt_eg rt)" "rx_of (rt_eg rt5) (Some v) = rx_of (rt_eg rt) (Some v)" by blast
  let ?tb = "rt_tbuf rt5" and ?st = "rt_eg rt5"
  have g: "good nv ?tb ?st (Some v)" using 5(2,4) by (simp add: rt_inv_def sys_inv_def)
  have P: "length (rest ?st ?tb) = 9" "drop 8 (rest ?st ?tb) = [0]" "get16 (rest ?st ?tb) 6 = 0xFFFF"
    using j 5(3) by (simp_all add: wire_def fragment_def tfs_bytes_fields)
  have "length (mi_iov (eg_miov ?st v)) \<le> mi_niov (eg_miov ?st v)"
    using f full by (simp add: 5(5) filling_def iov_sizes_def)
  moreover have "rx_packet (unat (get16 (rest ?st ?tb) 6)) (drop 8 (rest ?st ?tb)) (RxPartial acc (65532 - j)) =
      Inr ([], RxPartial (acc @ [0]) (65532 - j - 1))" using j(2) P by (simp add: rx_packet_def)
  ultimately have "add_to_inner_packet ?tb True (Some v) ?st = Inl OutOfBounds"
    using add_to_inner_packet_full [OF g _ _ rx [folded 5(6)]] P(1) by simp
  then show ?thesis using 5(1) by simp
qed

lemma filling_stuck:
  assumes f: "filling nv nb rt v nb"
  shows "read_tfs_step oneonly t r t' rt = Inl Blocked"
proof -
  let ?l = "miov_refs (eg_miov (rt_eg rt) v)"
  note b = filling_buffers [OF f]
  have "distinct ?l" using f by (simp add: filling_def)
  then have "card (set ?l) = nb" using b(3) by (simp add: distinct_card)
  then have "set ?l = {..<nb}" using b(2) by (intro card_subset_eq) simp_all
  then have "mqueue_contents (m_freeq (eg_mem (rt_eg rt))) = []" using b(1) by auto
  moreover have "mqueue_ok (m_freeq (eg_mem (rt_eg rt)))" using f by (simp add: filling_def rt_inv_def sys_inv_def pool_ok_def)
  ultimately have "mqueue_pop (m_freeq (eg_mem (rt_eg rt))) = Inl Blocked"
    by (auto simp: mqueue_abs_defs mqueue_pop_def)
  then have "tbuf_turn (rt_tbuf rt) (rt_eg rt) = Inl Blocked" using b(4) by (simp add: tbuf_turn_def Let_def)
  moreover from report_ok obtain pkt rt1 where rep: "read_tfs_report oneonly t rt = Inr (pkt, rt1)" by blast
  moreover have "rt_eg rt1 = rt_eg rt" "rt_tbuf rt1 = rt_tbuf rt" using report_same [OF rep] by simp_all
  ultimately show ?thesis by (simp add: read_tfs_step_def)
qed

lemma filling_writer:
  assumes "filling nv nb rt v j"
  shows "write_intf_step (rt_eg rt) = Inl Blocked"
proof -
  have "eg_inv nv (rt_eg rt) (Some v)" using filling_sys [OF assms] by (simp add: sys_inv_frame)
  then show ?thesis using write_intf_blocked assms by (simp add: filling_def)
qed

section \<open>From the start\<close>

lemma first_fragment_rx:
  "rx_packet (unat (0 :: u16)) [0x45, 0, 0xFF, 0xFF] RxIdle = Inr ([], RxPartial [0x45, 0, 0xFF, 0xFF] 65531)"
  by (simp add: rx_packet_def rx_blocks.simps is_pad_def block_len_def get16_def)

lemma filling_starts:
  assumes inv: "rt_inv nv nb rt" and rt: "rt_rl rt = None" "rt_m rt = None" "ack_last (rt_ack rt) = 0"
    and out: "out_bytes (rt_eg rt) = []" and free: "length (free_list (rt_eg rt)) = nv" "0 < nv"
    and av: "mqueue_contents (m_freeq (eg_mem (rt_eg rt))) \<noteq> []"
  shows "\<exists>pkt rt' v. read_tfs_step oneonly t (Recv (wire (fragment 0))) t rt = Inr (pkt, rt') \<and>
    filling nv nb rt' v 1 \<and> v < nv \<and> iov_sizes (rt_eg rt') = iov_sizes (rt_eg rt)"
proof -
  let ?d = "[0x45, 0, 0xFF, 0xFF] :: bytes"
  have sys: "sys_inv nv nb (rt_eg rt) (rt_tbuf rt) (rt_m rt)" using inv by (simp add: rt_inv_def)
  from tbuf_turn_progress [OF sys] av obtain a eg where turn: "tbuf_turn (rt_tbuf rt) (rt_eg rt) = Inr (a, eg)" by blast
  from report_ok obtain pkt rt1 where rep: "read_tfs_report oneonly t rt = Inr (pkt, rt1)" by blast
  have d: "?d \<noteq> []" "length ?d \<le> MAXBUF - HDRSPACE - 8" by (simp_all add: const_defs)
  have w: "wire (fragment 0) = tfs_bytes 1 0 ?d" by (simp add: wire_def fragment_def)
  from read_tfs_step_data [OF inv rt(1) rep turn d(2), of 1 0 t] rt(2) obtain rt5 where
    5: "read_tfs_step oneonly t (Recv (wire (fragment 0))) t rt = bindE (read_tfs_data 1 rt5) (\<lambda>rt'. Inr (pkt, rt'))"
      "rt_inv nv nb rt5" "rest (rt_eg rt5) (rt_tbuf rt5) = tfs_bytes 1 0 ?d"
      "rt_m rt5 = None" "rt_ack rt5 = rt_ack rt1" "rt_rl rt5 = None" "eg_miov (rt_eg rt5) = eg_miov (rt_eg rt)"
      "out_bytes (rt_eg rt5) = []" "free_list (rt_eg rt5) = free_list (rt_eg rt)" unfolding w using out by auto
  let ?tb = "rt_tbuf rt5" and ?st = "rt_eg rt5"
  have sys5: "sys_inv nv nb ?st ?tb None" using 5(2,4) by (simp add: rt_inv_def)
  then have g: "good nv ?tb ?st None" by (simp add: sys_inv_def)
  have l: "ack_last (rt_ack rt5) = 0" using report_last [OF rep] rt(3) 5(5) by auto
  then have "ack_last (rt_ack rt5) < 1" "\<not> lost_before 1 (rt_ack rt5)" by (simp_all add: lost_before_def)
  from read_tfs_data_next [OF this] obtain ack where ack: "ack_last ack = 1" "read_tfs_data 1 rt5 =
      bindE (add_to_inner_packet ?tb True None ?st) (\<lambda>(m', eg'). Inr (rt5\<lparr>rt_ack := ack, rt_m := m', rt_eg := eg'\<rparr>))"
    using 5(4) by auto
  have "rx_packet (unat (get16 (rest ?st ?tb) 6)) (drop 8 (rest ?st ?tb)) (rx_of ?st None) = Inr ([], RxPartial ?d 65531)"
    using first_fragment_rx by (simp add: 5(3) tfs_bytes_fields rx_of_simps)
  from add_to_inner_packet_post [OF g _ _ _ this] free 5(3,9) obtain m' st' where
    add: "add_to_inner_packet ?tb True None ?st = Inr (m', st')"
    and post: "post nv ?tb ?st None [] (RxPartial ?d 65531) m' st'" by auto
  let ?rt' = "rt5\<lparr>rt_ack := ack, rt_m := m', rt_eg := st'\<rparr>"
  have ok: "read_tfs_step oneonly t (Recv (wire (fragment 0))) t rt = Inr (pkt, ?rt')" using 5(1) ack(2) add by simp
  have p: "good nv ?tb st' m'" "rx_of st' m' = RxPartial ?d 65531" "out_bytes st' = []" "frame ?tb ?st st'"
    "length (free_list st') + length (held m') = nv" "niov_of st' m' \<le> 1"
    using post 5(8,9) free(1) by (simp_all add: post_at_def niov_of_def)
  obtain v where v: "m' = Some v" using p(2) by (cases m') (auto simp: rx_of_simps)
  have eg: "eg_inv nv st' (Some v)" using p(1) v by (simp add: good_at_def)
  have wf: "miov_wf st' (eg_miov st' v)" "v < nv" using eg_inv_miov [OF eg] by auto
  have "mi_len (eg_miov st' v) \<noteq> 0" using p(2) v by (auto simp: rx_of_simps)
  moreover have "mi_niov (eg_miov st' v) = 0 \<Longrightarrow> mi_len (eg_miov st' v) = 0"
    using wf(1) by (simp add: miov_wf_def miov_bytes_def)
  ultimately have "mi_niov (eg_miov st' v) \<noteq> 0" by blast
  then have n: "mi_niov (eg_miov st' v) = 1" using p(6) v by (simp add: niov_of_def)
  from miov_wf_refs [OF wf(1)] n obtain x where x: "miov_refs (eg_miov st' v) = [x]" by (auto simp: length_Suc_conv)
  have inv': "rt_inv nv nb ?rt'" by (rule read_tfs_step_sys [OF inv ok])
  have "length (held None) + length (free_list ?st) = nv" using 5(9) free(1) by simp
  from refs_held [OF _ this] sys5 have r5: "refs nv ?st y = 0" for y by (simp add: sys_inv_frame)
  have "x = ?tb"
  proof (rule ccontr)
    assume ne: "x \<noteq> ?tb"
    then have "mb_refcnt (eg_mbuf st' x) = mb_refcnt (eg_mbuf ?st x)" using p(4) by (simp add: frame_def)
    moreover have "mb_refcnt (eg_mbuf ?st x) = 0"
      using sys5 ne r5 [of x] by (simp add: sys_inv_frame pool_ok_mbufs holders_def)
    moreover have "mb_refcnt (eg_mbuf st' x) = word_of_nat (holders nv ?tb st' x)" "holders nv ?tb st' x < 2 ^ 32"
      using inv' by (simp_all add: rt_inv_def sys_inv_frame pool_ok_mbufs)
    moreover have "length (held (Some v)) + length (free_list st') = nv" using p(5) v by simp
    from refs_held [OF eg this] x have "holders nv ?tb st' x = 1" using ne by (simp add: holders_def)
    ultimately show False by simp
  qed
  moreover have "out_list st' = []" using p(3) by (simp add: out_bytes_def)
  ultimately have "filling nv nb ?rt' v 1"
    using inv' 5(6) v p(2,5) n x ack(1) by (simp add: filling_def)
  moreover have "iov_sizes st' = iov_sizes (rt_eg rt)" using p(4) by (simp add: frame_def iov_sizes_def fun_eq_iff 5(7))
  ultimately show ?thesis using ok wf(2) by (intro exI [of _ pkt] exI [of _ ?rt'] exI [of _ v]) simp
qed

lemma fragment_turns_Suc: "fragment_turns t (Suc n) = fragment_turns t n @ [Turn t (Recv (wire (fragment n))) t]"
  by (simp add: fragment_turns_def)

lemma egress_run_snoc:
  assumes "egress_run oneonly rt es ws rt1" "egress_step oneonly rt1 e vs rt2"
  shows "egress_run oneonly rt (es @ [e]) (ws @ vs) rt2"
  using assms
proof (induction rule: egress_run.induct)
  case (done_run rt)
  from egress_run.step_run [OF done_run egress_run.done_run] show ?case by fastforce
next
  case (step_run rt e0 us rt0 es vs' rt1')
  from egress_run.step_run [OF step_run.hyps(1) step_run.IH [OF step_run.prems]] show ?case by simp
qed

lemma fragment_run:
  assumes start: "\<exists>pkt rt1. read_tfs_step oneonly t (Recv (wire (fragment 0))) t rt = Inr (pkt, rt1) \<and>
      filling nv nb rt1 v 1 \<and> iov_sizes (rt_eg rt1) v = k"
    and "n < k" "n < nb" "n < 60000"
  shows "\<exists>rt'. egress_run oneonly rt (fragment_turns t (Suc n)) [] rt' \<and> filling nv nb rt' v (Suc n) \<and> iov_sizes (rt_eg rt') v = k"
  using assms(2-4)
proof (induction n)
  case 0
  from start obtain pkt rt1 where 1: "read_tfs_step oneonly t (Recv (wire (fragment 0))) t rt = Inr (pkt, rt1)"
    "filling nv nb rt1 v 1" "iov_sizes (rt_eg rt1) v = k" by blast
  have "egress_run oneonly rt (fragment_turns t (Suc 0)) [] rt1"
    using step_run [OF turn [OF 1(1)] done_run] by (simp add: fragment_turns_def)
  with 1 show ?case by auto
next
  case (Suc n)
  then obtain rt1 where 1: "egress_run oneonly rt (fragment_turns t (Suc n)) [] rt1" "filling nv nb rt1 v (Suc n)"
    "iov_sizes (rt_eg rt1) v = k" by auto
  from filling_step [OF 1(2), of oneonly t] Suc.prems 1(3) obtain pkt rt' where
    2: "read_tfs_step oneonly t (Recv (wire (fragment (Suc n)))) t rt1 = Inr (pkt, rt')"
      "filling nv nb rt' v (Suc (Suc n))" "iov_sizes (rt_eg rt') v = k" by auto
  from egress_run_snoc [OF 1(1) turn [OF 2(1)]] 2(2,3) show ?case
    unfolding fragment_turns_Suc [of t "Suc n"] by auto
qed

text \<open>C17: a peer stops the receiver with datagrams of nine bytes. The scatter lists have \<open>k = MAXBUF / mtu + 2\<close> entries, and
  nothing bounds the pieces of an inner packet. From the start on, the receiver takes the beginning of an inner
  packet and then one byte of it per datagram. If \<open>k\<close> is less than the number of buffers, the datagram after the first \<open>k\<close>
  is entered beyond the two arrays of the list; otherwise (an MTU of at most 36) the unfinished packet holds all
  buffers in the end, and neither thread of the receiver can take a turn again.\<close>

theorem fragments_stop_receiver:
  assumes "zeroed raw space slots rawm vslots oslots" "0 < tfsmtu"
    and "\<forall>v. length (iovs v) = k \<and> length (ptrs v) = k" "k = nat (int MAXBUF div tfsmtu) + 2"
    and "tfs_tunnel_egress tfsmtu raw space slots rawm iovs ptrs vslots oslots = Inr (eg, a1, a2)"
    and "read_tfs_start oneonly ack_ms 0 now timer buf fb eg = Inr rt"
  shows "\<exists>rt'. egress_run oneonly rt (fragment_turns t (min k OUTERQSZ)) [] rt' \<and> write_intf_step (rt_eg rt') = Inl Blocked \<and>
    (if k < OUTERQSZ then read_tfs_step oneonly t (Recv (wire (fragment k))) t rt' = Inl OutOfBounds
     else \<forall>t r t'. read_tfs_step oneonly t r t' rt' = Inl Blocked)"
proof -
  let ?n = "min k OUTERQSZ"
  have k: "2 \<le> k" using assms(4) by simp
  have "int MAXBUF div tfsmtu \<le> int MAXBUF" using assms(2) zdiv_mono2 [of "int MAXBUF" 1 tfsmtu] by simp
  then have "k \<le> 2 ^ 20" using assms(4) by (simp add: MAXBUF_def)
  then have arr: "\<forall>v. 0 < length (iovs v) \<and> length (iovs v) \<le> 2 ^ 20 \<and> length (ptrs v) = length (iovs v)"
    using assms(3) k by simp
  note st = start_sys [OF assms(1) arr assms(5,6)]
  have vs: "length vslots = OUTERQSZ" using assms(1) by (simp add: zeroed_def)
  have rt: "rt_rl rt = None" "ack_last (rt_ack rt) = 0"
    using assms(6) by (auto simp: read_tfs_start_def res_simps Let_def ack_zero_def)
  have q: "0 < OUTERQSZ" "OUTERQSZ < 60000" by (simp_all add: OUTERQSZ_def)
  from filling_starts [OF st(1) rt(1) st(4) rt(2) st(3,5) q(1) st(6), of oneonly t] obtain pkt rt1 v where
    1: "read_tfs_step oneonly t (Recv (wire (fragment 0))) t rt = Inr (pkt, rt1)" "filling OUTERQSZ OUTERQSZ rt1 v 1"
      "v < OUTERQSZ" "iov_sizes (rt_eg rt1) = iov_sizes (rt_eg rt)" by blast
  have sz: "iov_sizes (rt_eg rt1) v = k" using start_sizes [OF vs 1(3) assms(5,6)] 1(4) assms(3) by simp
  obtain m where m: "?n = Suc m" using k q(1) by (cases ?n) auto
  have "m < k" "m < OUTERQSZ" "m < 60000" using m q(2) by linarith+
  with fragment_run [of oneonly t rt OUTERQSZ OUTERQSZ v k m] 1(1,2) sz m obtain rt' where
    2: "egress_run oneonly rt (fragment_turns t ?n) [] rt'" "filling OUTERQSZ OUTERQSZ rt' v ?n" "iov_sizes (rt_eg rt') v = k"
    by auto
  have "if k < OUTERQSZ then read_tfs_step oneonly t (Recv (wire (fragment k))) t rt' = Inl OutOfBounds
     else \<forall>t r t'. read_tfs_step oneonly t r t' rt' = Inl Blocked"
  proof (cases "k < OUTERQSZ")
    case True
    then have "filling OUTERQSZ OUTERQSZ rt' v k" "0 < k" "k < 60000" using 2(2) k q(2) by simp_all
    from filling_full [OF this True 2(3)] True show ?thesis by simp
  next
    case False
    then have "?n = OUTERQSZ" by simp
    with 2(2) have "filling OUTERQSZ OUTERQSZ rt' v OUTERQSZ" by metis
    from filling_stuck [OF this] False show ?thesis by simp
  qed
  with 2(1) filling_writer [OF 2(2)] show ?thesis by blast
qed

theorem fragments_stop_receiver_witness:
  "\<exists>rt rt'. start_demo = Inr rt \<and> egress_run False rt (fragment_turns (Timespec 1 500) 8) [] rt' \<and>
     read_tfs_step False (Timespec 1 500) (Recv (wire (fragment 8))) (Timespec 1 500) rt' = Inl OutOfBounds"
proof -
  from start_demo_inv obtain rt where 0: "start_demo = Inr rt" by blast
  from start_demo_parts [OF 0] obtain raw space slots rawm iovs ptrs eg a d fb where
    p: "zeroed raw space slots rawm slots slots" "\<forall>v. length (iovs v) = 8 \<and> length (ptrs v) = 8"
    "tfs_tunnel_egress 1500 raw space slots rawm iovs ptrs slots slots = Inr (eg, a, d)"
    "read_tfs_start False 1000 0 (Timespec 1 0) \<lparr>st_ts = Timespec 0 0, st_nsecs = 0\<rparr> ack_buffer fb eg = Inr rt" by blast
  have k: "8 = nat (int MAXBUF div 1500) + 2" "8 < OUTERQSZ" by (simp_all add: MAXBUF_def OUTERQSZ_def)
  from fragments_stop_receiver [OF p(1) _ p(2) k(1) p(3,4), of "Timespec 1 500"] 0 k(2) show ?thesis by (auto simp: min_def)
qed

end
