(* ===== verification/RxCount.thy ===== *)
theory RxCount
  imports Fragments
begin

text \<open>
  What the receiver reports: the counts that a report will carry, after any interleaved run on data packets some of
  which were lost on the way.
\<close>

section \<open>The counts after a sequence of packets\<close>

lemma ack_accept_next:
  assumes "ack_start ack \<noteq> 0" "ack_last ack \<noteq> 0"
  shows "ack_accept seq ack = \<lparr>ack_start = ack_start ack, ack_last = seq, ack_ndrop = ack_ndrop ack + (seq - (ack_last ack + 1))\<rparr>"
  using assms by (auto simp: ack_accept_def lost_before_def)

lemma ack_accept_first: "ack_accept seq ack_zero = \<lparr>ack_start = seq, ack_last = seq, ack_ndrop = 0\<rparr>"
  by (simp add: ack_accept_def ack_zero_def lost_before_def)

lemma fold_ack_accept:
  assumes "ack_start ack \<noteq> 0" "ack_last ack \<noteq> 0" "0 \<notin> set seqs"
  shows "fold ack_accept seqs ack =
    \<lparr>ack_start = ack_start ack, ack_last = last (ack_last ack # seqs),
     ack_ndrop = ack_ndrop ack + (last (ack_last ack # seqs) - ack_last ack - of_nat (length seqs))\<rparr>"
  using assms
proof (induction seqs arbitrary: ack)
  case (Cons seq seqs)
  from Cons.IH [of "ack_accept seq ack"] Cons.prems show ?case by (simp add: ack_accept_next algebra_simps)
qed simp

lemma increasing_span:
  fixes x :: u32
  assumes "sorted_wrt (<) (x # xs)"
  shows "unat x + length xs \<le> unat (last (x # xs))"
  using assms
proof (induction xs arbitrary: x)
  case (Cons y ys)
  then have "unat y + length ys \<le> unat (last (y # ys))" "unat x < unat y" by (auto simp: word_less_nat_alt)
  then show ?case by simp
qed simp

lemma fold_ack_zero:
  assumes "sorted_wrt (<) (x # xs)" "0 < x"
  shows "ack_start (fold ack_accept (x # xs) ack_zero) = x" "ack_last (fold ack_accept (x # xs) ack_zero) = last (x # xs)"
    "unat (ack_ndrop (fold ack_accept (x # xs) ack_zero)) + length xs = unat (last (x # xs)) - unat x"
proof -
  have z: "x \<noteq> 0" "0 \<notin> set xs" using assms by auto
  have f: "fold ack_accept (x # xs) ack_zero =
      \<lparr>ack_start = x, ack_last = last (x # xs), ack_ndrop = last (x # xs) - x - of_nat (length xs)\<rparr>"
    using fold_ack_accept [of "ack_accept x ack_zero" xs] z by (simp add: ack_accept_first)
  then show "ack_start (fold ack_accept (x # xs) ack_zero) = x" "ack_last (fold ack_accept (x # xs) ack_zero) = last (x # xs)"
    by simp_all
  let ?l = "last (x # xs)"
  note sp = increasing_span [OF assms(1)]
  then have xl: "x \<le> ?l" by (simp add: word_le_nat_alt)
  have "unat ?l < 2 ^ 32" using unat_u32_less [of ?l] by simp
  then have n: "unat (of_nat (length xs) :: u32) = length xs" using sp by (simp add: unat_of_nat)
  have d: "unat (?l - x) = unat ?l - unat x" by (rule unat_sub [OF xl])
  have "(of_nat (length xs) :: u32) \<le> ?l - x" unfolding word_le_nat_alt n d using sp by simp
  from unat_sub [OF this] have "unat (?l - x - of_nat (length xs)) = unat ?l - unat x - length xs" unfolding n d .
  then show "unat (ack_ndrop (fold ack_accept (x # xs) ack_zero)) + length xs = unat ?l - unat x"
    unfolding f using sp by simp
qed

section \<open>Runs without a report\<close>

definition no_report :: "bool \<Rightarrow> rx_event list \<Rightarrow> rtfs \<Rightarrow> bool" where
  "no_report oneonly es rt \<longleftrightarrow> oneonly \<or> (\<forall>now. XRead now \<in> set es \<longrightarrow> \<not> fst (st_check now (rt_timer rt)))"

lemma report_not_due:
  assumes "oneonly \<or> \<not> fst (st_check now (rt_timer rt))"
  shows "read_tfs_report oneonly now rt = Inr (None, rt)"
  using assms by (auto simp: read_tfs_report_def st_check_def Let_def)

lemma read_step_ack:
  assumes step: "reader_step oneonly now rt ph = Inr (pkt, rt', ph')" and nr: "oneonly \<or> \<not> fst (st_check now (rt_timer rt))"
  shows "rt_ack rt' = rt_ack rt \<and> rt_timer rt' = rt_timer rt \<and> rt_rl rt' = rt_rl rt"
proof (cases ph)
  case RTop
  with step report_not_due [OF nr] show ?thesis
    by (auto simp: reader_step_def reader_top_def Let_def res_simps split: if_splits)
next
  case (RReset as)
  with step show ?thesis by (cases as) (auto simp: reader_step_def res_simps split: option.splits)
next
  case (RBody v off tlen)
  from step obtain e eg where "atip_round (rt_tbuf rt) v off tlen (rt_eg rt) = Inr (e, eg)"
      "(rt', ph') = (case e of Done m' \<Rightarrow> (rt\<lparr>rt_m := m', rt_eg := eg\<rparr>, RTop)
        | Recurse \<Rightarrow> (rt\<lparr>rt_m := None, rt_eg := eg\<rparr>, RCall False))" by (auto simp: reader_step_def RBody res_simps)
  then show ?thesis by (cases e) simp_all
qed (use step in \<open>auto simp: reader_step_def reader_pop_def Let_def res_simps\<close>)

text \<open>A sequence of data packets whose numbers grow, each with something in it.\<close>

definition growing :: "(u32 \<times> u16 \<times> bytes) list \<Rightarrow> bool" where
  "growing pkts \<longleftrightarrow> sorted_wrt (<) (map fst pkts) \<and> (\<forall>(seq, off, d) \<in> set pkts. 0 < seq \<and> d \<noteq> [] \<and> length d \<le> MAXBUF - HDRSPACE - 8)"

lemma rx_fine_run_ack:
  assumes "rx_fine_run oneonly s es ws s'" "rx_inv nv nb s" "rt_rl (rf_rt s) = None"
    and "arrived es = map wire pkts" "growing pkts" "\<forall>p \<in> set pkts. ack_last (rt_ack (rf_rt s)) < fst p"
    and "no_report oneonly es (rf_rt s)"
  shows "rt_ack (rf_rt s') = fold ack_accept (map fst pkts) (rt_ack (rf_rt s))"
  using assms
proof (induction arbitrary: pkts rule: rx_fine_run.induct)
  case (x_done s)
  then show ?case by simp
next
  case (x_more s e ws s1 es vs s2)
  have inv1: "rx_inv nv nb s1" by (rule rx_step_inv [OF x_more.hyps(1) x_more.prems(1)])
  note ok = x_more.prems(1) [unfolded rx_inv_def]
  from x_more.hyps(1) show ?case
  proof cases
    case (x_read now pkt rt ph)
    have "oneonly \<or> \<not> fst (st_check now (rt_timer (rf_rt s)))" using x_more.prems(6) x_read(1) by (auto simp: no_report_def)
    note a = read_step_ack [OF x_read(4) this]
    have "no_report oneonly es (rf_rt s1)" using x_more.prems(6) a x_read(3) by (auto simp: no_report_def)
    from x_more.IH [OF inv1 _ _ x_more.prems(4) _ this] x_more.prems(2,3,5) a x_read show ?thesis by simp
  next
    case (x_recv i now rt ph)
    show ?thesis
    proof (cases i)
      case RecvErr
      then have "rt = rf_rt s" using x_recv(5) by (simp add: reader_recv_def)
      then have s1: "rf_rt s1 = rf_rt s" using x_recv(3) by simp
      have "no_report oneonly es (rf_rt s1)" using x_more.prems(6) by (auto simp: no_report_def s1)
      from x_more.IH [OF inv1 _ _ x_more.prems(4) _ this] x_more.prems(2,3,5) s1 x_recv(1) RecvErr show ?thesis by simp
    next
      case (Recv d)
      with x_more.prems(3) x_recv(1) obtain seq off dd ps where pk: "pkts = (seq, off, dd) # ps"
        "d = tfs_bytes seq off dd" "arrived es = map wire ps" by (cases pkts) (auto simp: wire_def)
      with x_more.prems(4,5) have c: "dd \<noteq> []" "length dd \<le> MAXBUF - HDRSPACE - 8" "ack_last (rt_ack (rf_rt s)) < seq"
        "growing ps" "\<forall>p \<in> set ps. seq < fst p" by (auto simp: growing_def)
      note 1 = recv_data_pend [OF ok [unfolded x_recv(4)] x_more.prems(2) c(1,2,3) x_recv(5) [unfolded Recv pk(2)]]
      have s1: "rf_rt s1 = rt" using x_recv(3) by simp
      have "no_report oneonly es (rf_rt s1)" using x_more.prems(6) 1(5) by (auto simp: no_report_def s1)
      from x_more.IH [OF inv1 _ pk(3) c(4) _ this] 1(2-4) c(5) s1 pk(1) show ?thesis by simp
    qed
  next
    case (x_write x eg d)
    have s1: "rt_ack (rf_rt s1) = rt_ack (rf_rt s)" "rt_timer (rf_rt s1) = rt_timer (rf_rt s)" "rt_rl (rf_rt s1) = rt_rl (rf_rt s)"
      using x_write(3) by simp_all
    have "no_report oneonly es (rf_rt s1)" using x_more.prems(6) by (auto simp: no_report_def s1)
    from x_more.IH [OF inv1 _ _ x_more.prems(4) _ this] x_more.prems(2,3,5) s1 x_write(1) show ?thesis by simp
  qed
qed

section \<open>The property\<close>

text \<open>C11: the receiver counts its losses right. When data packets with growing sequence numbers arrive, some of them
  lost on the way, then after any interleaved run in which no report is sent the counts for the next report name
  the first and the last of them, and the drops are exactly the numbers between these that did not arrive.\<close>

theorem receiver_counts_losses:
  assumes "rx_fine_run oneonly (rx_begin rt) es ws s" "rt_inv nv nb rt" "rt_rl rt = None" "rt_ack rt = ack_zero"
    and "arrived es = map wire pkts" "growing pkts" "pkts \<noteq> []" "no_report oneonly es rt"
  shows "ack_start (rt_ack (rf_rt s)) = fst (hd pkts) \<and> ack_last (rt_ack (rf_rt s)) = fst (last pkts) \<and>
    unat (ack_ndrop (rt_ack (rf_rt s))) + length pkts = unat (fst (last pkts)) - unat (fst (hd pkts)) + 1"
proof -
  obtain p ps where p: "pkts = p # ps" using assms(7) by (cases pkts) auto
  have pos: "\<forall>p \<in> set pkts. 0 < fst p" using assms(6) by (auto simp: growing_def)
  have "rt_ack (rf_rt s) = fold ack_accept (map fst pkts) ack_zero"
    using rx_fine_run_ack [OF assms(1) rx_begin_inv [OF assms(2)] _ assms(5,6)] assms(3,4,8) pos by (simp add: ack_zero_def)
  moreover have "sorted_wrt (<) (fst p # map fst ps)" "0 < fst p" using assms(6) pos p by (auto simp: growing_def)
  note f = fold_ack_zero [OF this]
  have "last (fst p # map fst ps) = fst (last pkts)" unfolding p by (metis last_map list.distinct(1) list.map(2))
  ultimately show ?thesis using f p by simp
qed

text \<open>The example receiver on packets 1 and 4.\<close>

lemma loss_demo:
  "\<exists>rt es s. start_demo = Inr rt \<and> rt_inv OUTERQSZ OUTERQSZ rt \<and> rt_rl rt = None \<and> rt_ack rt = ack_zero \<and>
     rx_fine_run True (rx_begin rt) es [] s \<and> arrived es = map wire [fragment 0, (4, 0, [0])]"
proof -
  let ?t = "Timespec 1 500" and ?n = OUTERQSZ
  from start_demo_inv obtain rt where 0: "start_demo = Inr rt" "rt_inv ?n ?n rt" "out_bytes (rt_eg rt) = []" "rt_rl rt = None"
    "ack_last (rt_ack rt) = 0" "rt_m rt = None" "length (free_list (rt_eg rt)) = ?n"
    "mqueue_contents (m_freeq (eg_mem (rt_eg rt))) \<noteq> []" by blast
  from start_demo_parts [OF 0(1)] have z: "rt_ack rt = ack_zero" by (auto simp: read_tfs_start_def res_simps Let_def)
  have n: "0 < ?n" "1 < ?n" by (simp_all add: OUTERQSZ_def)
  from filling_starts [OF 0(2,4,6,5,3,7) n(1) 0(8), of True ?t] obtain pkt rt1 v where
    1: "read_tfs_step True ?t (Recv (wire (fragment 0))) ?t rt = Inr (pkt, rt1)" "filling ?n ?n rt1 v 1" by blast
  from read_turn_run [OF 1(1), of DIdle] obtain es1 where
    r1: "rx_fine_run True (rx_begin rt) es1 [] (rx_begin rt1)" "arrivals es1 = [Recv (wire (fragment 0))]"
    unfolding rx_begin_def by blast
  have rep: "read_tfs_report True ?t rt1 = Inr (None, rt1)" by (simp add: read_tfs_report_def)
  from tbuf_turn_progress [OF filling_sys [OF 1(2)]] filling_room [OF 1(2) n(2)] obtain a eg where
    "tbuf_turn (rt_tbuf rt1) (rt_eg rt1) = Inr (a, eg)" by blast
  from top_run [OF rep this, of DIdle] obtain es2 where
    r2: "rx_fine_run True (rx_begin rt1) es2 [] \<lparr>rf_rt = rt1\<lparr>rt_tbuf := a, rt_eg := eg\<rparr>, rf_reader = RRecv, rf_writer = DIdle\<rparr>"
      "arrivals es2 = []" unfolding rx_begin_def by blast
  let ?rt2 = "rt1\<lparr>rt_tbuf := a, rt_eg := eg\<rparr>"
  have inv: "rt_inv ?n ?n rt1" "rt_rl rt1 = None" using 1(2) by (simp_all add: filling_def)
  have ok: "rx_ok ?n ?n ?rt2 RRecv DIdle"
    using rx_run_inv [OF r2(1) rx_begin_inv [OF inv(1)]] by (simp add: rx_inv_def)
  have "length [0 :: u8] \<le> MAXBUF - HDRSPACE - 8" by (simp add: const_defs)
  from recv_data_eq [OF ok _ this, of True 4 0 ?t] inv(2) obtain rt3 ph where
    "reader_recv True (Recv (wire (4, 0, [0]))) ?t ?rt2 = Inr (rt3, ph)" by (fastforce simp: wire_def)
  then have "rx_step True \<lparr>rf_rt = ?rt2, rf_reader = RRecv, rf_writer = DIdle\<rparr> (XRecv (Recv (wire (4, 0, [0]))) ?t) []
      \<lparr>rf_rt = rt3, rf_reader = ph, rf_writer = DIdle\<rparr>"
    using x_recv [of "\<lparr>rf_rt = ?rt2, rf_reader = RRecv, rf_writer = DIdle\<rparr>"] by fastforce
  from rx_fine_run_append [OF rx_fine_run_append [OF r1(1) r2(1)] rx_one [OF this]]
  have "rx_fine_run True (rx_begin rt) ((es1 @ es2) @ [XRecv (Recv (wire (4, 0, [0]))) ?t]) []
      \<lparr>rf_rt = rt3, rf_reader = ph, rf_writer = DIdle\<rparr>" by simp
  moreover have "arrived ((es1 @ es2) @ [XRecv (Recv (wire (4, 0, [0]))) ?t]) = map wire [fragment 0, (4, 0, [0])]"
    using r1(2) r2(2) by (simp add: arrived_def)
  ultimately show ?thesis using 0 z by blast
qed

theorem receiver_counts_losses_witness:
  "\<exists>rt es s. start_demo = Inr rt \<and> rx_fine_run True (rx_begin rt) es [] s \<and>
     ack_start (rt_ack (rf_rt s)) = 1 \<and> ack_last (rt_ack (rf_rt s)) = 4 \<and> unat (ack_ndrop (rt_ack (rf_rt s))) = 2"
proof -
  from loss_demo obtain rt es s where 0: "start_demo = Inr rt" "rt_inv OUTERQSZ OUTERQSZ rt" "rt_rl rt = None" "rt_ack rt = ack_zero"
    "rx_fine_run True (rx_begin rt) es [] s" "arrived es = map wire [fragment 0, (4, 0, [0])]" by blast
  have g: "growing [fragment 0, (4, 0, [0])]" by (simp add: growing_def fragment_def const_defs)
  have nr: "no_report True es rt" by (simp add: no_report_def)
  from receiver_counts_losses [OF 0(5,2,3,4,6) g _ nr] 0 show ?thesis by (fastforce simp: fragment_def)
qed

end
