(* ===== verification/Paced.thy ===== *)
theory Paced
  imports Sender InterleaveProps
begin

text \<open>
  The sending side with its pacing, at the grain of its queue operations and of its sleep: a report
  that arrives while \<open>periodic_wait\<close> of \<open>src/src/util.c\<close> sleeps changes the interval under it, and both threads
  go on while \<open>write_tfs_pkt\<close> is at work. That the rate is kept is shown of these runs, and the runs
  of \<open>Sender\<close> are among them.
\<close>

section \<open>The wait in two parts\<close>

text \<open>What is done up to the sleep, with the clock reading \<open>now\<close>; and, after a sleep, at \<open>now'\<close>.\<close>

definition pps_wait_begin :: "pps \<Rightarrow> timespec \<Rightarrow> (timespec option \<times> pps) res" where
  "pps_wait_begin pp now =
     (let pd = pps_periodic pp; expire = periodic_expire pd
      in if \<not> periodic_is_expired now expire
         then (let ns = periodic_sleep now expire
               in bindE (requireE Hang (nanosleep_valid ns)) (\<lambda>_. Inr (Some ns, pp)))
         else Inr (None, pp\<lparr>pps_periodic := pd\<lparr>pd_timestamp := now\<rparr>\<rparr>))"

definition pps_wait_end :: "pps \<Rightarrow> timespec \<Rightarrow> pps" where
  "pps_wait_end pp now' = pp\<lparr>pps_periodic := (pps_periodic pp)\<lparr>pd_timestamp := now'\<rparr>\<rparr>"

lemma pps_wait_parts:
  "pps_wait pp now now' = bindE (pps_wait_begin pp now) (\<lambda>(ns, pp').
     Inr (ns, case ns of None \<Rightarrow> pp' | Some _ \<Rightarrow> pps_wait_end pp' now'))"
  by (simp add: pps_wait_def periodic_wait_def pps_wait_begin_def pps_wait_end_def bindE_assoc Let_def)

section \<open>Steps\<close>

text \<open>
  Where the writer is in its loop: before \<open>pps_wait\<close>; asleep since \<open>now\<close> for the time asked for; or in
  \<open>write_tfs_pkt\<close>, at the place \<open>fi_writer\<close> says.
\<close>

datatype pphase = PWait | PSleep timespec timespec | PGo

record paced =
  pa_fine :: fine
  pa_fb :: feedback
  pa_phase :: pphase

definition pa_stamp :: "paced \<Rightarrow> timespec" where
  "pa_stamp s = stamp \<lparr>sd_wt = fi_wt (pa_fine s), sd_fb = pa_fb s\<rparr>"

text \<open>
  The steps: one of the interface reader, one of the writer in \<open>write_tfs_pkt\<close>, the two parts of its wait, a report
  received. The clock does not go back, and a sleep takes at least the time asked for.
\<close>

datatype pa_event = QFine fine_event | QWait timespec | QWake timespec | QAck mbuf

inductive pa_step :: "bool \<Rightarrow> int \<Rightarrow> paced \<Rightarrow> pa_event \<Rightarrow> bytes list \<Rightarrow> paced \<Rightarrow> bool" for dontfrag tfsmtu where
  q_reader: "fine_step False dontfrag tfsmtu (pa_fine s) e ds f \<Longrightarrow> (\<forall>now n. e \<noteq> FWrite now n) \<Longrightarrow>
    pa_step dontfrag tfsmtu s (QFine e) ds (s\<lparr>pa_fine := f\<rparr>)"
| q_write: "pa_phase s = PGo \<Longrightarrow> fine_step False dontfrag tfsmtu (pa_fine s) (FWrite now n) ds f \<Longrightarrow>
    pa_step dontfrag tfsmtu s (QFine (FWrite now n)) ds
      (s\<lparr>pa_fine := f, pa_phase := (if fi_writer f = WIdle then PWait else PGo)\<rparr>)"
| q_wait: "pa_phase s = PWait \<Longrightarrow> g_pps (pa_fb s) = Some p \<Longrightarrow> pps_wait_begin p now = Inr (slept, p') \<Longrightarrow>
    ts_ok now \<Longrightarrow> pa_stamp s \<le> now \<Longrightarrow>
    pa_step dontfrag tfsmtu s (QWait now) []
      (s\<lparr>pa_fb := (pa_fb s)\<lparr>g_pps := Some p'\<rparr>, pa_phase := (case slept of None \<Rightarrow> PGo | Some ns \<Rightarrow> PSleep now ns)\<rparr>)"
| q_wake: "pa_phase s = PSleep now ns \<Longrightarrow> g_pps (pa_fb s) = Some p \<Longrightarrow> ts_ok now' \<Longrightarrow>
    nanos now + nanos ns \<le> nanos now' \<Longrightarrow>
    pa_step dontfrag tfsmtu s (QWake now') []
      (s\<lparr>pa_fb := (pa_fb s)\<lparr>g_pps := Some (pps_wait_end p now')\<rparr>, pa_phase := PGo\<rparr>)"
| q_ack: "recv_ack False m (pa_fb s) = Inr fb \<Longrightarrow> pa_step dontfrag tfsmtu s (QAck m) [] (s\<lparr>pa_fb := fb\<rparr>)"

inductive pa_run :: "bool \<Rightarrow> int \<Rightarrow> paced \<Rightarrow> pa_event list \<Rightarrow> bytes list \<Rightarrow> paced \<Rightarrow> bool" for dontfrag tfsmtu where
  q_done: "pa_run dontfrag tfsmtu s [] [] s"
| q_more: "pa_step dontfrag tfsmtu s e ds s1 \<Longrightarrow> pa_run dontfrag tfsmtu s1 es ds' s2 \<Longrightarrow>
    pa_run dontfrag tfsmtu s (e # es) (ds @ ds') s2"

fun fine_events :: "pa_event list \<Rightarrow> fine_event list" where
  "fine_events [] = []"
| "fine_events (QFine e # es) = e # fine_events es"
| "fine_events (_ # es) = fine_events es"

definition pa_begin :: "sender \<Rightarrow> paced" where
  "pa_begin sd = \<lparr>pa_fine = \<lparr>fi_wt = sd_wt sd, fi_reader = None, fi_writer = WIdle\<rparr>, pa_fb = sd_fb sd, pa_phase = PWait\<rparr>"

section \<open>The pace\<close>

text \<open>
  The datagram a packet in work has still to send: it is paid for by the wait before it. \<open>pa_ok\<close> says that
  all datagrams sent and this one are paid for, where the time is counted from \<open>t0\<close>.
\<close>

definition to_send :: "paced \<Rightarrow> int" where
  "to_send s = (if pa_phase s = PGo \<and> (\<forall>as. fi_writer (pa_fine s) \<noteq> WFree as) then 1 else 0)"

definition pa_ok :: "int \<Rightarrow> int \<Rightarrow> int \<Rightarrow> paced \<Rightarrow> bool" where
  "pa_ok m t0 k s \<longleftrightarrow> (\<exists>p. g_pps (pa_fb s) = Some p \<and> pace_ok m p \<and>
     t0 + (k + to_send s) * m \<le> nanos (pd_timestamp (pps_periodic p)) \<and>
     (\<forall>now ns. pa_phase s = PSleep now ns \<longrightarrow> nanos (pd_timestamp (pps_periodic p)) + m \<le> nanos now + nanos ns))"

lemma wait_begin_pace:
  assumes "pps_wait_begin p now = Inr (slept, p')" "pace_ok m p" "ts_ok now"
  shows "pace_ok m p' \<and> (case slept of
     None \<Rightarrow> nanos (pd_timestamp (pps_periodic p)) + m \<le> nanos (pd_timestamp (pps_periodic p'))
   | Some ns \<Rightarrow> p' = p \<and> nanos (pd_timestamp (pps_periodic p)) + m \<le> nanos now + nanos ns)"
proof (cases slept)
  case None
  then have "pps_wait p now now = Inr (None, p')" using assms(1) by (simp add: pps_wait_parts)
  from pps_wait_pace [OF this assms(2,3,3)] None show ?thesis by simp
next
  case (Some ns)
  then have p': "p' = p" "ns = periodic_sleep now (periodic_expire (pps_periodic p))"
    using assms(1) by (auto simp: pps_wait_begin_def Let_def res_simps split: if_splits)
  have pd: "ts_ok (pd_timestamp (pps_periodic p))" "uint (pd_ival (pps_periodic p)) < 2 ^ 62" "m \<le> uint (pd_ival (pps_periodic p))"
    using assms(2) by (simp_all add: pace_ok_def NSECS_IN_SEC_def)
  from nanos_periodic_expire [OF pd(1,2)] pd(3) p' assms(2) Some show ?thesis by (simp add: nanos_periodic_sleep)
qed

lemma wait_end_pace: "pace_ok m p \<Longrightarrow> ts_ok now \<Longrightarrow> pace_ok m (pps_wait_end p now)"
  by (simp add: pace_ok_def pps_ok_def pps_wait_end_def)

text \<open>A datagram leaves from a phase that has one to send, and leaves none to send behind.\<close>

lemma writer_sends_once:
  assumes "writer_step False dontfrag tfsmtu now n wt ph = Inr (pkt, wt', ph')"
  shows "(case pkt of Some d \<Rightarrow> (\<forall>as. ph \<noteq> WFree as) \<and> (ph' = WIdle \<or> (\<exists>as. ph' = WFree as))
    | None \<Rightarrow> (\<exists>as. ph = WFree as) \<longrightarrow> ph' = WIdle \<or> (\<exists>as. ph' = WFree as))"
  using assms
  by (cases ph rule: wphase.exhaust)
     (auto simp: writer_step_def wtp_begin_def Let_def res_simps case_prod_unfold split: option.splits list.splits prod.splits)

lemma pa_step_pace:
  assumes "pa_step dontfrag tfsmtu s e ds s'" "pa_ok m t0 k s" "0 \<le> m"
  shows "pa_ok m t0 (k + int (length ds)) s'"
  using assms(1)
proof cases
  case (q_reader e f)
  from q_reader(3) have "ds = [] \<and> fi_writer f = fi_writer (pa_fine s)"
    by cases (use q_reader(4) in auto)
  with assms(2) q_reader(2) show ?thesis by (simp add: pa_ok_def to_send_def)
next
  case (q_write now n f)
  from q_write(4) obtain pkt where w: "writer_step False dontfrag tfsmtu now n (fi_wt (pa_fine s)) (fi_writer (pa_fine s)) =
      Inr (pkt, fi_wt f, fi_writer f)" "ds = emitted pkt" by cases auto
  have "int (length ds) + to_send s' \<le> to_send s"
    using writer_sends_once [OF w(1)] q_write(2,3) w(2) by (auto simp: to_send_def split: option.splits)
  then have "(k + int (length ds) + to_send s') * m \<le> (k + to_send s) * m" using assms(3) by (intro mult_right_mono) simp_all
  with assms(2) q_write(2) show ?thesis by (fastforce simp: pa_ok_def split: if_splits)
next
  case (q_wait p now slept p')
  from assms(2) q_wait(5) have p: "pace_ok m p" "t0 + (k + to_send s) * m \<le> nanos (pd_timestamp (pps_periodic p))"
    by (simp_all add: pa_ok_def)
  have "to_send s = 0" "to_send s' \<le> 1" using q_wait(4) by (simp_all add: to_send_def)
  with wait_begin_pace [OF q_wait(6) p(1) q_wait(7)] p(2) q_wait(2,3) assms(3) show ?thesis
    by (cases slept) (auto simp: pa_ok_def to_send_def distrib_right)
next
  case (q_wake now ns p now')
  from assms(2) q_wake(4,5) have p: "pace_ok m p" "t0 + (k + to_send s) * m \<le> nanos (pd_timestamp (pps_periodic p))"
    "nanos (pd_timestamp (pps_periodic p)) + m \<le> nanos now + nanos ns" by (simp_all add: pa_ok_def)
  have z: "to_send s = 0" "to_send s' \<le> 1" using q_wake(4) by (simp_all add: to_send_def)
  then have "(k + to_send s') * m \<le> k * m + m" using assms(3) mult_right_mono [of "to_send s'" 1 m] by (simp add: distrib_right)
  with p(2,3) z(1) q_wake(7) have "t0 + (k + to_send s') * m \<le> nanos now'" by simp
  with q_wake(2,3) wait_end_pace [OF p(1) q_wake(6)] show ?thesis by (simp add: pa_ok_def pps_wait_end_def to_send_def)
next
  case (q_ack m' fb)
  from assms(2) obtain p where p: "g_pps (pa_fb s) = Some p" "pace_ok m p" "t0 + (k + to_send s) * m \<le> nanos (pd_timestamp (pps_periodic p))"
    "\<forall>now ns. pa_phase s = PSleep now ns \<longrightarrow> nanos (pd_timestamp (pps_periodic p)) + m \<le> nanos now + nanos ns"
    by (auto simp: pa_ok_def)
  from recv_ack_pace [OF q_ack(4) p(1,2)] p(3,4) q_ack(1-3) show ?thesis by (auto simp: pa_ok_def to_send_def)
qed


lemma pa_run_pace:
  assumes "pa_run dontfrag tfsmtu s es ds s'" "pa_ok m t0 k s" "0 \<le> m"
  shows "pa_ok m t0 (k + int (length ds)) s'"
  using assms
proof (induction arbitrary: k rule: pa_run.induct)
  case (q_more s e ds s1 es ds' s2)
  from q_more.IH [OF pa_step_pace [OF q_more.hyps(1) q_more.prems] q_more.prems(2)] show ?case by (simp add: add.assoc)
qed simp

lemma pa_ok_begin: "sender_ok m sd \<Longrightarrow> t0 = nanos (stamp sd) \<Longrightarrow> pa_ok m t0 0 (pa_begin sd)"
  by (auto simp: sender_ok_def pa_ok_def pa_begin_def to_send_def stamp_def)

lemma pa_ok_stamp: "pa_ok m t0 k s \<Longrightarrow> 0 \<le> m \<Longrightarrow> t0 + k * m \<le> nanos (pa_stamp s)"
  using mult_right_mono [of k "k + to_send s" m] by (auto simp: pa_ok_def pa_stamp_def stamp_def to_send_def distrib_right split: if_splits)

text \<open>The datagrams are those of a run without pacing.\<close>

lemma pa_step_fine:
  assumes "pa_step dontfrag tfsmtu s e ds s'"
  shows "fine_run False dontfrag tfsmtu (pa_fine s) (fine_events [e]) ds (pa_fine s')"
  using assms by cases (auto intro: f_one f_done)

lemma pa_run_fine:
  assumes "pa_run dontfrag tfsmtu s es ds s'"
  shows "fine_run False dontfrag tfsmtu (pa_fine s) (fine_events es) ds (pa_fine s')"
  using assms
proof (induction rule: pa_run.induct)
  case (q_done s)
  show ?case using f_done by simp
next
  case (q_more s e ds s1 es ds' s2)
  have "fine_events (e # es) = fine_events [e] @ fine_events es" by (cases e) simp_all
  with fine_run_append [OF pa_step_fine [OF q_more.hyps(1)] q_more.IH] show ?case by simp
qed

section \<open>Turns\<close>

lemma pa_run_append:
  assumes "pa_run dontfrag tfsmtu s es ds s1" "pa_run dontfrag tfsmtu s1 es' ds' s2"
  shows "pa_run dontfrag tfsmtu s (es @ es') (ds @ ds') s2"
  using assms
proof (induction rule: pa_run.induct)
  case (q_more s e ds s1 es ds1 s3)
  from pa_run.q_more [OF q_more.hyps(1) q_more.IH [OF q_more.prems]] show ?case by simp
qed simp

text \<open>A packet is a run from the end of the wait to the next wait.\<close>

lemma pa_packet:
  assumes "write_run False dontfrag tfsmtu n wt ph ds wt' ph'"
  shows "\<exists>es. pa_run dontfrag tfsmtu \<lparr>pa_fine = \<lparr>fi_wt = wt, fi_reader = rd, fi_writer = ph\<rparr>, pa_fb = fb, pa_phase = PGo\<rparr> es ds
    \<lparr>pa_fine = \<lparr>fi_wt = wt', fi_reader = rd, fi_writer = ph'\<rparr>, pa_fb = fb, pa_phase = (if ph' = WIdle then PWait else PGo)\<rparr>"
  using assms
proof (induction rule: write_run.induct)
  case (wr_one now wt ph pkt wt' ph')
  let ?s = "\<lparr>pa_fine = \<lparr>fi_wt = wt, fi_reader = rd, fi_writer = ph\<rparr>, pa_fb = fb, pa_phase = PGo\<rparr>"
  from q_write [of ?s dontfrag tfsmtu now n "emitted pkt"] write_one [OF wr_one.hyps]
  have "pa_step dontfrag tfsmtu ?s (QFine (FWrite now n)) (emitted pkt)
    \<lparr>pa_fine = \<lparr>fi_wt = wt', fi_reader = rd, fi_writer = ph'\<rparr>, pa_fb = fb, pa_phase = (if ph' = WIdle then PWait else PGo)\<rparr>"
    by fastforce
  from q_more [OF this q_done] show ?case by fastforce
next
  case (wr_more now wt ph pkt wt1 ph1 ds wt' ph')
  let ?s = "\<lparr>pa_fine = \<lparr>fi_wt = wt, fi_reader = rd, fi_writer = ph\<rparr>, pa_fb = fb, pa_phase = PGo\<rparr>"
  from q_write [of ?s dontfrag tfsmtu now n "emitted pkt"] write_one [OF wr_more.hyps(1)] wr_more.hyps(2)
  have "pa_step dontfrag tfsmtu ?s (QFine (FWrite now n)) (emitted pkt)
    \<lparr>pa_fine = \<lparr>fi_wt = wt1, fi_reader = rd, fi_writer = ph1\<rparr>, pa_fb = fb, pa_phase = PGo\<rparr>"
    by fastforce
  with wr_more.IH q_more show ?case by blast
qed

text \<open>A turn of \<open>Sender\<close> is a run.\<close>

lemma write_tfs_turn_run:
  assumes "write_tfs_turn False dontfrag tfsmtu now now' t n sd = Inr (slept, pkt, sd')"
    and "ts_ok now" "ts_ok now'" "stamp sd \<le> now" "slept \<noteq> None \<Longrightarrow> nanos now + nanos (the slept) \<le> nanos now'"
  shows "\<exists>es. pa_run dontfrag tfsmtu (pa_begin sd) es (emitted pkt) (pa_begin sd')"
proof -
  from assms(1) obtain p p1 where p: "g_pps (sd_fb sd) = Some p" "pps_wait_begin p now = Inr (slept, p1)"
    and sd': "sd_fb sd' = (sd_fb sd)\<lparr>g_pps := Some (case slept of None \<Rightarrow> p1 | Some _ \<Rightarrow> pps_wait_end p1 now')\<rparr>"
      "write_tfs_step False dontfrag tfsmtu t n (sd_wt sd) = Inr (pkt, sd_wt sd')"
    by (cases "g_pps (sd_fb sd)") (auto simp: write_tfs_turn_def deref_def pps_wait_parts res_simps write_tfs_step_def)
  let ?s = "pa_begin sd" and ?g = "(pa_begin sd)\<lparr>pa_fb := sd_fb sd', pa_phase := PGo\<rparr>"
  let ?s1 = "?s\<lparr>pa_fb := (pa_fb ?s)\<lparr>g_pps := Some p1\<rparr>, pa_phase := (case slept of None \<Rightarrow> PGo | Some ns \<Rightarrow> PSleep now ns)\<rparr>"
  have "pa_stamp ?s = stamp sd" by (simp add: pa_stamp_def pa_begin_def stamp_def)
  then have 1: "pa_step dontfrag tfsmtu ?s (QWait now) [] ?s1"
    using p assms(2,4) by (intro q_wait) (simp_all add: pa_begin_def)
  have "\<exists>es. pa_run dontfrag tfsmtu ?s es [] ?g"
  proof (cases slept)
    case None
    then have "?s1 = ?g" using sd'(1) by (simp add: pa_begin_def)
    with q_more [OF 1 q_done] show ?thesis by auto
  next
    case (Some ns)
    then have "pa_phase ?s1 = PSleep now ns" "g_pps (pa_fb ?s1) = Some p1" by simp_all
    from q_wake [OF this assms(3)] assms(5) Some have
      "pa_step dontfrag tfsmtu ?s1 (QWake now') [] (?s1\<lparr>pa_fb := (pa_fb ?s1)\<lparr>g_pps := Some (pps_wait_end p1 now')\<rparr>, pa_phase := PGo\<rparr>)"
      by simp
    moreover have "?s1\<lparr>pa_fb := (pa_fb ?s1)\<lparr>g_pps := Some (pps_wait_end p1 now')\<rparr>, pa_phase := PGo\<rparr> = ?g"
      using sd'(1) Some by (simp add: pa_begin_def)
    ultimately show ?thesis using q_more [OF 1 q_more [OF _ q_done]] by fastforce
  qed
  moreover have "\<exists>es. pa_run dontfrag tfsmtu ?g es (emitted pkt) (pa_begin sd')"
    using pa_packet [OF turn_run [OF sd'(2)], of None "sd_fb sd'"] by (simp add: pa_begin_def)
  ultimately show ?thesis using pa_run_append by fastforce
qed

text \<open>Every run by turns of the paced sender is a run of this theory, with the same datagrams.\<close>

lemma paced_turns_are_interleavings:
  assumes "paced_run dontfrag tfsmtu sd es ds sd'"
  shows "\<exists>es'. pa_run dontfrag tfsmtu (pa_begin sd) es' ds (pa_begin sd')"
  using assms
proof (induction rule: paced_run.induct)
  case (paced_done sd)
  show ?case using q_done by blast
next
  case (paced_more sd e ds sd1 es ds' sd2)
  from paced_more.hyps(1) have "\<exists>es'. pa_run dontfrag tfsmtu (pa_begin sd) es' ds (pa_begin sd1)"
  proof cases
    case (paced_rd r ig)
    from paced_rd(4) obtain a fq where p: "mqueue_pop (ig_freeq (wt_ig (sd_wt sd))) = Inr (a, fq)"
      "read_into r a ((wt_ig (sd_wt sd))\<lparr>ig_freeq := fq\<rparr>) = Inr ig" by (auto simp: read_intf_step_into res_simps)
    let ?s = "pa_begin sd"
    let ?f = "\<lparr>fi_wt = (sd_wt sd)\<lparr>wt_ig := (wt_ig (sd_wt sd))\<lparr>ig_freeq := fq\<rparr>\<rparr>, fi_reader = Some a, fi_writer = WIdle\<rparr>"
    have "fine_step False dontfrag tfsmtu (pa_fine ?s) FPop [] ?f"
      using f_pop [of "pa_fine ?s" a fq] p(1) by (simp add: pa_begin_def)
    from q_reader [OF this] have 1: "pa_step dontfrag tfsmtu ?s (QFine FPop) [] (?s\<lparr>pa_fine := ?f\<rparr>)" by simp
    have "fine_step False dontfrag tfsmtu ?f (FRead r) [] (pa_fine (pa_begin sd1))"
      using f_read [of ?f a r ig] p(2) paced_rd(3) by (simp add: pa_begin_def)
    with q_reader [of dontfrag tfsmtu "?s\<lparr>pa_fine := ?f\<rparr>" "FRead r" "[]"] have
      "pa_step dontfrag tfsmtu (?s\<lparr>pa_fine := ?f\<rparr>) (QFine (FRead r)) [] (pa_begin sd1)"
      using paced_rd(3) by (simp add: pa_begin_def)
    from q_more [OF 1 q_more [OF this q_done]] paced_rd(2) show ?thesis by auto
  next
    case (paced_wr now now' t n slept pkt)
    from write_tfs_turn_run [OF paced_wr(3,4,5,6,7)] paced_wr(2) show ?thesis by simp
  next
    case (paced_ack m fb)
    from q_ack [of m "pa_begin sd" fb] paced_ack have "pa_step dontfrag tfsmtu (pa_begin sd) (QAck m) [] (pa_begin sd1)"
      by (simp add: pa_begin_def)
    from q_more [OF this q_done] paced_ack(2) show ?thesis by auto
  qed
  with paced_more.IH pa_run_append show ?case by blast
qed

section \<open>The property\<close>

text \<open>C14: the sender keeps its rate. However the interface reader, the writer and the received reports interleave, also
  in the middle of a packet or during the writer's sleep, \<open>k\<close> datagrams take at least \<open>k\<close> periods of the target rate, the
  rate given at start; and the datagrams are those of a run without pacing, to which the properties of the sending
  side apply.\<close>

theorem paced_sender_keeps_rate:
  assumes "tx_pps fl txrate tfsmtu = Fin x" "1 \<le> x" "x < 2 ^ 32"
    and "mono fl" "fl 0 = 0" "fl (of_int NSECS_IN_SEC) = of_int NSECS_IN_SEC" "ts_ok now'"
    and "write_tfs_begin fl now now' False txrate tfsmtu iovecs freem fb ig = Inr sd"
    and "pa_run dontfrag tfsmtu (pa_begin sd) es ds s"
  shows "nanos now' + int (length ds) * min \<lfloor>fl (of_int NSECS_IN_SEC / x)\<rfloor> (NSECS_IN_SEC div \<lfloor>x\<rfloor>) \<le> nanos (pa_stamp s) \<and>
    fine_run False dontfrag tfsmtu
      \<lparr>fi_wt = write_tfs_start now iovecs freem ig, fi_reader = None, fi_writer = WIdle\<rparr> (fine_events es) ds (pa_fine s)"
proof -
  let ?m = "min \<lfloor>fl (of_int NSECS_IN_SEC / x)\<rfloor> (NSECS_IN_SEC div \<lfloor>x\<rfloor>)"
  from write_tfs_begin_pace [OF assms(1-7), of now iovecs freem fb ig] assms(8) have
    sd: "sender_ok ?m sd" "stamp sd = now'" "sd_wt sd = write_tfs_start now iovecs freem ig" by auto
  have "fl 0 \<le> fl (of_int NSECS_IN_SEC / x)" using assms(2) by (intro monoD [OF assms(4)]) (simp add: NSECS_IN_SEC_def)
  moreover have "0 \<le> NSECS_IN_SEC div \<lfloor>x\<rfloor>" using assms(2) by (intro pos_imp_zdiv_nonneg_iff [THEN iffD2]) (simp_all add: NSECS_IN_SEC_def less_le_trans [of 0 1])
  ultimately have m: "0 \<le> ?m" using assms(5) by simp
  from pa_run_pace [OF assms(9) pa_ok_begin [OF sd(1) refl] m] pa_ok_stamp [OF _ m]
  have "nanos now' + int (length ds) * ?m \<le> nanos (pa_stamp s)" using sd(2) by fastforce
  with pa_run_fine [OF assms(9)] sd(3) show ?thesis by (simp add: pa_begin_def)
qed


theorem paced_sender_keeps_rate_witness:
  "\<exists>sd d es s. write_tfs_begin id (Timespec 1 0) (Timespec 1 0) False 11744000 1500
       (replicate g_max_inner_pkt \<lparr>iov_base = PPad, iov_len = 0\<rparr>) (replicate g_max_inner_pkt 0) feedback_demo
       (wt_ig ingress_demo) = Inr sd \<and>
     pa_run False 1500 (pa_begin sd) es [d] s \<and> 1001000000 \<le> nanos (pa_stamp s)"
proof -
  let ?io = "replicate g_max_inner_pkt \<lparr>iov_base = PPad, iov_len = 0\<rparr>" and ?fr = "replicate g_max_inner_pkt (0 :: nat)"
  from paced_demo obtain sd d sd' where
    b: "write_tfs_begin id (Timespec 1 0) (Timespec 1 0) False 11744000 1500 ?io ?fr feedback_demo (wt_ig ingress_demo) = Inr sd"
    and r: "paced_run False 1500 sd [PWrite (Timespec 1 1000500) 1500] [d] sd'" by blast
  from paced_turns_are_interleavings [OF r] obtain es where p: "pa_run False 1500 (pa_begin sd) es [d] (pa_begin sd')" by blast
  have x: "tx_pps id 11744000 1500 = Fin 1000" by (simp add: tx_pps_def)
  have h: "1 \<le> (1000 :: rat)" "(1000 :: rat) < 2 ^ 32" "mono (id :: rat \<Rightarrow> rat)" "id 0 = (0 :: rat)"
    "id (of_int NSECS_IN_SEC) = (of_int NSECS_IN_SEC :: rat)" "ts_ok (Timespec 1 0)" by (simp_all add: mono_def ts_defs)
  from paced_sender_keeps_rate [OF x h b p] have "1001000000 \<le> nanos (pa_stamp (pa_begin sd'))" by (simp add: ts_defs)
  with b p show ?thesis by blast
qed

end
