(* ===== verification/Spec2Isabelle.thy ===== *)
theory Spec2Isabelle
  imports Program EgressProps RxCount Paced
begin

text \<open>
  A verification of the C program under \<open>src/src\<close>: an IP traffic-flow-security (IPTFS) tunnel. Each end of
  the tunnel reads inner IP packets from a tun device, packs them into UDP datagrams of one fixed size
  at a fixed rate (\<open>tfs_tunnel_ingress\<close>), and unpacks the datagrams of the other end and writes the
  inner packets to the device (\<open>tfs_tunnel_egress\<close>). Every second the receiving side reports the packets
  it saw and lost, and the sending side changes its rate by these reports.

  \<^bold>\<open>The parts and their theories.\<close>

  \<^item> \<open>Prelude\<close>: errors and results, lists of bytes, the constants of \<open>iptfs.h\<close>.
  \<^item> \<open>Wire\<close>: \<open>put32\<close>, \<open>put16\<close>, \<open>get32\<close>, \<open>get16\<close> (\<open>iptfs.c\<close>).
  \<^item> \<open>Clock\<close>, \<open>Runavg\<close>, \<open>Ratelimit\<close>, \<open>Pps\<close> (\<open>util.c\<close>): \<open>clock_delta\<close>, \<open>stimer_t\<close> and \<open>struct periodic\<close>;
    running averages; the limiter of the received rate; the rate controller \<open>struct pps\<close>.
  \<^item> \<open>Stack\<close>, \<open>Mbuf\<close>, \<open>Miov\<close> (\<open>mbuf.c\<close>, \<open>iptfs.h\<close>): the contract of a bounded queue used at one end, as a locale;
    packet buffers with \<open>struct mqueue\<close>; scatter lists with \<open>struct miovq\<close>. Both queues are instances of the locale.
  \<^item> \<open>Framing\<close>: the specification of the tunnel's format, from both ends. \<open>tx_packet\<close> takes the next
    datagram from a rest and a queue of inner packets, \<open>rx_packet\<close> cuts inner packets out of a datagram.
  \<^item> \<open>Egress\<close>: \<open>getiplen\<close> and \<open>add_to_inner_packet\<close>. \<open>Reassembly\<close> and \<open>Refcount\<close>: that it
    refines \<open>rx_packet\<close>, when it aborts, and the reference counts.
  \<^item> \<open>Ack\<close>: \<open>send_ack\<close>, \<open>recv_ack\<close>.
  \<^item> \<open>ReadTfs\<close>: one turn of \<open>read_tfs_pkts\<close> and of \<open>write_intf_pkts\<close>. \<open>EgressSys\<close>, \<open>EgressSim\<close>, \<open>EgressRun\<close>: the
    invariant of the receiving side, its turns against the specification, runs of its two threads.
    \<open>EgressSetup\<close>: \<open>tfs_tunnel_egress\<close> and whole runs. \<open>EgressProps\<close>: losses and hostile datagrams.
  \<^item> \<open>RxInterleave\<close>: the receiving side at the grain of its queue operations and releases, and that the runs by turns
    are among its runs. \<open>RxInv\<close>, \<open>RxReader\<close>, \<open>RxPhases\<close>, \<open>RxProps\<close>: its invariant, through the parts of a step, the
    reader's steps and the writer's. \<open>RxDelivery\<close>: the properties of all interleavings. \<open>RxLive\<close>: that its threads
    do not lock each other out. \<open>Fragments\<close>: how short datagrams stop it. \<open>RxCount\<close>: what its reports count.
  \<^item> \<open>Ingress\<close>: one turn of \<open>read_intf_pkts\<close> and of \<open>write_tfs_pkts\<close>. \<open>IngressSim\<close>, \<open>IngressSys\<close>, \<open>IngressRun\<close>: the
    same for the sending side, with \<open>tfs_tunnel_ingress\<close>. \<open>IngressProps\<close>: its properties.
  \<^item> \<open>Interleave\<close>, \<open>InterleaveInv\<close>, \<open>InterleaveProps\<close>: the sending side at the grain of its queue operations: its steps,
    the invariant that says who holds which buffer, the properties of all interleavings.
  \<^item> \<open>Tunnel\<close>: both sides, connected. \<open>Sender\<close>: the sending side with its pacing and the received reports. \<open>Paced\<close>: the
    same at the grain of \<open>Interleave\<close>, where reports also arrive during the writer's sleep.
  \<^item> \<open>Startup\<close> (\<open>main.c\<close>): the options, \<open>tfs_connect\<close>, \<open>tfs_accept\<close>; the rate and its conversions in \<open>pps_new\<close>. \<open>Program\<close>: \<open>tun_alloc\<close>, \<open>main\<close>,
    and the tunnel from two command lines on.

  \<^bold>\<open>How state and operations correspond to the code.\<close> A struct is a record, a field keeps its width
  (\<open>u8\<close> to \<open>u64\<close> are words, and C arithmetic on them is word arithmetic; signed values and pointers into a buffer are
  \<open>int\<close> and \<open>nat\<close>). Buffers and scatter lists are numbered, and heaps map the numbers to records, so that the sharing
  of buffers by reference counts is explicit. A fallible step returns \<open>error + 'a\<close>: \<open>Assertion\<close> for a failed
  \<open>assert\<close>, \<open>Errx\<close> for \<open>err\<close> and \<open>errx\<close>, \<open>OutOfBounds\<close>, \<open>DivByZero\<close> (of integers), \<open>BadConversion\<close> (of a float to an
  integer that it does not fit) and \<open>NullPointer\<close> for undefined behaviour,
  \<open>Blocked\<close> for a wait on a condition variable (the thread cannot go on as long as the state stays as it is),
  \<open>Hang\<close> for a loop that never ends. A static or global variable is a field of the state of the threads
  that use it. What the system returns is an argument: clock readings, the results of \<open>read\<close>,
  \<open>recvfrom\<close>, \<open>sendmsg\<close>, of the socket calls and of \<open>getopt_long\<close>, the contents of fresh memory. A
  single-precision number is its value, an infinity or not a number, and the rounding of values is an argument.

  \<^bold>\<open>Threads.\<close> A run by turns is any sequence of rounds of the loops of one side's threads. The code locks a queue
  for each single operation, so more is possible: a writer can run on while a reader waits, and push or release between
  any two queue operations of the other. \<open>Interleave\<close> has the steps between two queue operations of the sending side
  as the steps of a run, \<open>RxInterleave\<close> those of the receiving side, where the release of each single buffer is a step too.
  Each run by turns is among these runs (lemmas \<open>ingress_run_fine\<close> and \<open>egress_run_fine\<close>, which make the examples), and the
  end-to-end theorem is about the interleaved ones. What a step does between two such operations touches only what its thread holds, so its
  accesses to memory are not taken apart further.

  \<^bold>\<open>What the lemmas show.\<close> From the bottom up: the queues are bounded stacks, the averages and the limiter
  are those of their windows, the timers are exact where their arithmetic does not wrap. The
  sending side refines \<open>tx_packet\<close> and the receiving side \<open>rx_packet\<close>, each under an invariant of its buffers,
  queues and counts that holds from the set-up on. The two specifications fit together, so the tunnel delivers what it
  was given (\<open>Program.program_delivers\<close>), as long as no datagram is lost and the inner packets are of IPv4: those of IPv6
  have a length field that the receiver reads in another way (\<open>EgressProps.ipv6_packet_truncated\<close>). Beside these stand the theorems about errors: what a
  peer, an interface or a command line can do to stop or derail the program. The queues are stacks, and
  delivery is therefore a statement about multisets; the order of inner packets is not kept
  (\<open>EgressProps.inner_packets_reversed\<close>). That the code also goes on
  is \<open>EgressProps.data_packet_accepted\<close> for a turn of the reader and \<open>RxLive.receiver_never_deadlocks\<close> for both threads.

  \<^bold>\<open>Bounds and fuel.\<close> The loop of \<open>add_to_inner_packet\<close> is modelled with fuel, the length of the buffer,
  and each of its rounds consumes a byte; \<open>Reassembly\<close> shows that \<open>NoFuel\<close> does not occur. The filling loop of
  \<open>write_tfs_pkt\<close> terminates by the depth of its queue. The theorems about the sender ask for an MTU above
  14 and at most \<open>MAXBUF\<close> (\<open>MAXBUF - HDRSPACE\<close> where the datagram is also received) and end before the 32-bit sequence
  number wraps; \<open>IngressProps.tiny_mtu_loses_packets\<close> says what happens below. A scatter list has \<open>MAXBUF / mtu + 2\<close>
  entries and there are \<open>OUTERQSZ\<close> buffers: \<open>RxLive.receiver_never_deadlocks\<close> asks for fewer entries than buffers,
  and \<open>Fragments.fragments_stop_receiver\<close> shows that with more the receiver can block for ever.

  \<^bold>\<open>Not modelled.\<close> \<open>xmalloc\<close> and \<open>xzmalloc\<close> (allocation by construction), the creation and joining of threads
  and their start routines (which only unpack arguments), the usage text and all logging, the choice of options by \<open>getopt_long\<close>, the resolution of names; memory
  that is never cleared by the code is assumed zero where the code relies on it. The Python implementation, the
  drafts, images and scripts of the repository are not part of the development.
\<close>

end
